(* ===== verification/Prelude.thy ===== *)
theory Prelude
  imports Main "HOL-Library.Char_ord" "HOL-Library.Word"
begin

text \<open>
  Shared vocabulary of the development: the machine types of the Rust source, the
  operations of \<open>Vec\<close>, slices, \<open>u8\<close> and \<open>str\<close> that the source uses, and the generic
  lemmas about them.  Types: a Rust \<open>u8\<close> is a \<^typ>\<open>char\<close> (both have exactly 256 values,
  so a byte string literal is an Isabelle string literal), \<open>u32\<close> and \<open>u64\<close> are words of
  their width, \<open>usize\<close> is \<^typ>\<open>nat\<close>, a \<open>String\<close> or \<open>&str\<close> is the list of its UTF-8 bytes.
  A \<open>Vec\<close> is a list in the order of its indices, so \<open>push\<close> appends at the end.
\<close>

type_synonym u8 = char
type_synonym u32 = "32 word"
type_synonym u64 = "64 word"
type_synonym usize = nat
type_synonym bytes = "u8 list"

named_theorems hub_defs "definitions of the hubs the automaton's other arms delegate to"
named_theorems step_defs "definitions of the arms of the byte automaton's transition function"
named_theorems mask_simps "membership laws of the token bit mask"
named_theorems scope_defs "definitions of the handlers of the scope tracker"

section \<open>Vectors\<close>

definition vec_last :: "'a list \<Rightarrow> 'a option" where
  "vec_last xs = (if xs = [] then None else Some (last xs))"

abbreviation vec_push :: "'a list \<Rightarrow> 'a \<Rightarrow> 'a list" where
  "vec_push xs x \<equiv> xs @ [x]"

abbreviation vec_pop :: "'a list \<Rightarrow> 'a list" where
  "vec_pop xs \<equiv> butlast xs"

lemma vec_last_Nil [simp]: "vec_last [] = None"
  by (simp add: vec_last_def)

lemma vec_last_snoc [simp]: "vec_last (xs @ [x]) = Some x"
  by (simp add: vec_last_def)

lemma vec_last_append: "vec_last (xs @ ys) = (if ys = [] then vec_last xs else vec_last ys)"
  by (simp add: vec_last_def)

lemma vec_last_None_iff [simp]: "vec_last xs = None \<longleftrightarrow> xs = []"
  by (simp add: vec_last_def)

lemma vec_last_SomeE:
  assumes "vec_last xs = Some x"
  obtains ys where "xs = ys @ [x]"
proof -
  from assms have "xs \<noteq> []" and "last xs = x"
    by (auto simp: vec_last_def split: if_splits)
  then have "xs = butlast xs @ [x]" using append_butlast_last_id [of xs] by simp
  then show thesis by (rule that)
qed

lemma vec_last_Some_iff: "vec_last xs = Some x \<longleftrightarrow> (\<exists>ys. xs = ys @ [x])"
  by (auto elim: vec_last_SomeE)

lemma vec_last_map: "vec_last (map f xs) = map_option f (vec_last xs)"
  by (simp add: vec_last_def last_map)

definition vec_get :: "'a list \<Rightarrow> usize \<Rightarrow> 'a option" where
  "vec_get xs i = (if i < length xs then Some (xs ! i) else None)"

lemma vec_get_None_iff [simp]: "vec_get xs i = None \<longleftrightarrow> length xs \<le> i"
  by (auto simp: vec_get_def)

lemma vec_get_Some_iff: "vec_get xs i = Some x \<longleftrightarrow> i < length xs \<and> xs ! i = x"
  by (simp add: vec_get_def)

lemma vec_get_code [code]:
  "vec_get [] i = None"
  "vec_get (x # xs) i = (case i of 0 \<Rightarrow> Some x | Suc j \<Rightarrow> vec_get xs j)"
  by (auto simp: vec_get_def split: nat.split)

text \<open>The half-open slice \<open>&xs[a..b]\<close> of an in-range pair of bounds.\<close>

definition slice :: "'a list \<Rightarrow> usize \<Rightarrow> usize \<Rightarrow> 'a list" where
  "slice xs a b = take (b - a) (drop a xs)"

lemma length_slice: "b \<le> length xs \<Longrightarrow> length (slice xs a b) = b - a"
  by (simp add: slice_def)

lemma slice_full [simp]: "slice xs 0 (length xs) = xs"
  by (simp add: slice_def)

lemma slice_append_nth:
  assumes "a \<le> i" and "i < length xs"
  shows "slice xs a i @ [xs ! i] = slice xs a (Suc i)"
proof -
  have "slice xs a (Suc i) = take (Suc (i - a)) (drop a xs)"
    using assms(1) by (simp add: slice_def Suc_diff_le)
  also have "\<dots> = take (i - a) (drop a xs) @ [drop a xs ! (i - a)]"
    using assms by (intro take_Suc_conv_app_nth) simp
  finally show ?thesis using assms by (simp add: slice_def)
qed

section \<open>Bytes\<close>

definition byte_between :: "u8 \<Rightarrow> u8 \<Rightarrow> u8 \<Rightarrow> bool" where
  "byte_between lo hi b \<longleftrightarrow> (of_char lo :: nat) \<le> of_char b \<and> (of_char b :: nat) \<le> of_char hi"

definition is_ascii_digit :: "u8 \<Rightarrow> bool" where
  "is_ascii_digit b = byte_between (CHR ''0'') (CHR ''9'') b"

definition is_ascii_lowercase :: "u8 \<Rightarrow> bool" where
  "is_ascii_lowercase b = byte_between (CHR ''a'') (CHR ''z'') b"

definition is_ascii_uppercase :: "u8 \<Rightarrow> bool" where
  "is_ascii_uppercase b = byte_between (CHR ''A'') (CHR ''Z'') b"

definition is_ascii_alphabetic :: "u8 \<Rightarrow> bool" where
  "is_ascii_alphabetic b = (is_ascii_lowercase b \<or> is_ascii_uppercase b)"

definition is_ascii_alphanumeric :: "u8 \<Rightarrow> bool" where
  "is_ascii_alphanumeric b = (is_ascii_alphabetic b \<or> is_ascii_digit b)"

definition is_ascii_whitespace :: "u8 \<Rightarrow> bool" where
  "is_ascii_whitespace b = (b \<in> {CHR '' '', CHR 0x09, CHR 0x0A, CHR 0x0C, CHR 0x0D})"

lemmas byte_class_defs =
  byte_between_def is_ascii_digit_def is_ascii_lowercase_def is_ascii_uppercase_def
  is_ascii_alphabetic_def is_ascii_alphanumeric_def is_ascii_whitespace_def

text \<open>The documented acceptance condition of \<open>std::str::from_utf8\<close>: a sequence of
  well-formed UTF-8 code units (no overlong form, no surrogate, nothing above U+10FFFF).\<close>

definition utf8_cont :: "u8 \<Rightarrow> bool" where
  "utf8_cont b = byte_between (CHR 0x80) (CHR 0xBF) b"

fun utf8_valid :: "bytes \<Rightarrow> bool" where
  "utf8_valid [] = True"
| "utf8_valid (a # bs) =
    (if byte_between (CHR 0x00) (CHR 0x7F) a then utf8_valid bs
     else if byte_between (CHR 0xC2) (CHR 0xDF) a then
       (case bs of b # cs \<Rightarrow> utf8_cont b \<and> utf8_valid cs | [] \<Rightarrow> False)
     else if byte_between (CHR 0xE0) (CHR 0xEF) a then
       (case bs of b # c # cs \<Rightarrow>
          byte_between (if a = CHR 0xE0 then CHR 0xA0 else CHR 0x80)
                       (if a = CHR 0xED then CHR 0x9F else CHR 0xBF) b
          \<and> utf8_cont c \<and> utf8_valid cs
        | _ \<Rightarrow> False)
     else if byte_between (CHR 0xF0) (CHR 0xF4) a then
       (case bs of b # c # d # cs \<Rightarrow>
          byte_between (if a = CHR 0xF0 then CHR 0x90 else CHR 0x80)
                       (if a = CHR 0xF4 then CHR 0x8F else CHR 0xBF) b
          \<and> utf8_cont c \<and> utf8_cont d \<and> utf8_valid cs
        | _ \<Rightarrow> False)
     else False)"

lemma utf8_valid_ascii:
  assumes "\<forall>b \<in> set bs. (of_char b :: nat) < 128"
  shows "utf8_valid bs"
  using assms by (induction bs) (auto simp: byte_between_def)

section \<open>Machine words as indices\<close>

lemma unat_u32_less: "unat (n :: u32) < 2 ^ 32"
  using unsigned_less [of n] by simp

lemma unat_word_of_nat_u32: "n < 2 ^ 32 \<Longrightarrow> unat (word_of_nat n :: u32) = n"
  by (simp add: unat_of_nat)

lemma u32_le_iff: "(word_of_nat m :: u32) = word_of_nat n \<longleftrightarrow> m = n"
  if "m < 2 ^ 32" and "n < 2 ^ 32"
  using that by (metis unat_word_of_nat_u32)

text \<open>The loop range \<open>0..n\<close> over \<open>u32\<close> values.\<close>

definition u32_range :: "u32 \<Rightarrow> u32 list" where
  "u32_range n = map word_of_nat [0..<unat n]"

lemma set_u32_range: "set (u32_range n) = {i. i < n}"
proof -
  have "word_of_nat ` {0..<unat n} = {i. i < n}"
  proof (rule set_eqI, rule iffI)
    fix i :: u32 assume "i \<in> word_of_nat ` {0..<unat n}"
    then obtain k where "k < unat n" and "i = word_of_nat k" by auto
    moreover have "unat n < 2 ^ 32" using unsigned_less [of n] by simp
    ultimately show "i \<in> {i. i < n}"
      by (simp add: word_less_nat_alt unat_word_of_nat_u32)
  next
    fix i :: u32 assume "i \<in> {i. i < n}"
    then have "unat i < unat n" by (simp add: word_less_nat_alt)
    moreover have "i = word_of_nat (unat i)" by simp
    ultimately show "i \<in> word_of_nat ` {0..<unat n}" by (metis atLeastLessThan_iff imageI le0)
  qed
  then show ?thesis by (simp add: u32_range_def)
qed

lemma distinct_u32_range: "distinct (u32_range n)"
proof -
  have "inj_on (word_of_nat :: nat \<Rightarrow> u32) {0..<unat n}"
  proof (rule inj_onI)
    fix x y assume "x \<in> {0..<unat n}" "y \<in> {0..<unat n}"
      and eq: "(word_of_nat x :: u32) = word_of_nat y"
    moreover have "unat n < 2 ^ 32" using unsigned_less [of n] by simp
    ultimately have "x < 2 ^ 32" "y < 2 ^ 32" by auto
    with eq show "x = y" by (simp add: u32_le_iff)
  qed
  then show ?thesis by (simp add: u32_range_def distinct_map)
qed

lemma map_unat_u32_range: "map unat (u32_range n) = [0..<unat n]"
proof -
  have "map unat (u32_range n) = map (\<lambda>x. x) [0..<unat n]"
    unfolding u32_range_def map_map
    by (rule map_cong) (use unat_u32_less [of n] in \<open>auto simp: unat_word_of_nat_u32\<close>)
  then show ?thesis by simp
qed

lemma sorted_u32_range: "sorted_wrt (<) (u32_range n)"
proof -
  have "sorted_wrt (\<lambda>i j. unat i < unat j) (u32_range n)"
    using sorted_wrt_upt [of 0 "unat n"] by (simp add: map_unat_u32_range [symmetric] sorted_wrt_map)
  moreover have "(\<lambda>i j :: u32. unat i < unat j) = (<)" by (simp add: fun_eq_iff word_less_nat_alt)
  ultimately show ?thesis by simp
qed

end
