(* ===== verification/Vocabulary.thy ===== *)
theory Vocabulary
  imports Prelude
begin

text \<open>The token table of \<open>src/src/vocab.rs\<close>: token id to raw bytes, and the host's EOS id.\<close>

record vocab =
  voc_tokens :: "bytes list"
  voc_eos :: u32

definition from_byte_tokens :: "bytes list \<Rightarrow> u32 \<Rightarrow> vocab" where
  "from_byte_tokens tokens eos = \<lparr>voc_tokens = tokens, voc_eos = eos\<rparr>"

definition vocab_bytes :: "vocab \<Rightarrow> u32 \<Rightarrow> bytes option" where
  "vocab_bytes v tok = vec_get (voc_tokens v) (unat tok)"

definition vocab_eos :: "vocab \<Rightarrow> u32" where
  "vocab_eos v = voc_eos v"

definition vocab_len :: "vocab \<Rightarrow> usize" where
  "vocab_len v = length (voc_tokens v)"

definition vocab_is_empty :: "vocab \<Rightarrow> bool" where
  "vocab_is_empty v \<longleftrightarrow> voc_tokens v = []"

text \<open>\<open>vocab.bytes(id).unwrap_or(&[])\<close>, as the loops over the table read it.\<close>

definition token_bytes :: "vocab \<Rightarrow> u32 \<Rightarrow> bytes" where
  "token_bytes v tok = (case vocab_bytes v tok of None \<Rightarrow> [] | Some bs \<Rightarrow> bs)"

text \<open>The ids such a loop visits: \<open>0..vocab.len() as u32\<close>.\<close>

definition token_ids :: "vocab \<Rightarrow> u32 list" where
  "token_ids v = u32_range (word_of_nat (vocab_len v))"

lemma vocab_bytes_token: "vocab_bytes v tok = Some bs \<Longrightarrow> token_bytes v tok = bs"
  by (simp add: token_bytes_def)

lemma set_token_ids: "set (token_ids v) = {i. i < word_of_nat (vocab_len v)}"
  by (simp add: token_ids_def set_u32_range)

lemma token_ids_iff: "vocab_len v < 2 ^ 32 \<Longrightarrow> i \<in> set (token_ids v) \<longleftrightarrow> unat i < vocab_len v"
  by (simp add: set_token_ids word_less_nat_alt unat_word_of_nat_u32)

lemma vocab_bytes_eq_Some:
  "vocab_bytes v tok = Some bs \<longleftrightarrow> unat tok < vocab_len v \<and> voc_tokens v ! unat tok = bs"
  by (auto simp: vocab_bytes_def vocab_len_def vec_get_Some_iff)

lemma vocab_bytes_eq_None: "vocab_bytes v tok = None \<longleftrightarrow> vocab_len v \<le> unat tok"
  by (simp add: vocab_bytes_def vocab_len_def)

end
