(* ===== verification/Interfaces.thy ===== *)
theory Interfaces
  imports Prelude
begin

text \<open>
  The interfaces between the components, one locale each: the operations a client calls and
  the laws the provider owes, with the client's lemmas proved once from the laws.  The
  component that provides the operations interprets the locale on its model.
\<close>

section \<open>A set of token ids\<close>

text \<open>The contract of the per-step token mask: \<open>ok\<close> is the representation invariant,
  \<open>cap\<close> the number of ids the mask spans.\<close>

locale token_set =
  fixes ok :: "'m \<Rightarrow> bool"
    and cap :: "'m \<Rightarrow> usize"
    and mk :: "usize \<Rightarrow> 'm"
    and add :: "'m \<Rightarrow> u32 \<Rightarrow> 'm"
    and remove :: "'m \<Rightarrow> u32 \<Rightarrow> 'm"
    and has :: "'m \<Rightarrow> u32 \<Rightarrow> bool"
    and wipe :: "'m \<Rightarrow> 'm"
    and meet :: "'m \<Rightarrow> 'm \<Rightarrow> 'm"
    and load :: "'m \<Rightarrow> 'm \<Rightarrow> 'm"
  assumes mk_laws: "ok (mk len)" "cap (mk len) = len" "\<not> has (mk len) i"
    and add_laws: "ok m \<Longrightarrow> ok (add m i)" "cap (add m i) = cap m"
      "ok m \<Longrightarrow> has (add m i) j \<longleftrightarrow> has m j \<or> j = i \<and> unat i < cap m"
    and remove_laws: "ok m \<Longrightarrow> ok (remove m i)" "cap (remove m i) = cap m"
      "ok m \<Longrightarrow> has (remove m i) j \<longleftrightarrow> has m j \<and> j \<noteq> i"
    and wipe_laws: "ok m \<Longrightarrow> ok (wipe m)" "cap (wipe m) = cap m" "ok m \<Longrightarrow> \<not> has (wipe m) i"
    and meet_laws: "ok m \<Longrightarrow> ok n \<Longrightarrow> cap m = cap n \<Longrightarrow> ok (meet m n)" "cap (meet m n) = cap m"
      "ok m \<Longrightarrow> ok n \<Longrightarrow> cap m = cap n \<Longrightarrow> has (meet m n) i \<longleftrightarrow> has m i \<and> has n i"
    and load_laws: "ok m \<Longrightarrow> ok n \<Longrightarrow> cap m = cap n \<Longrightarrow> load m n = n"
begin

lemmas laws = mk_laws add_laws remove_laws wipe_laws meet_laws load_laws

text \<open>A loop that adds the selected ids of a list.\<close>

lemma fill_loop:
  assumes "ok m"
  shows "ok (foldl (\<lambda>m i. if P i then add m i else m) m ids)"
    and "cap (foldl (\<lambda>m i. if P i then add m i else m) m ids) = cap m"
    and "has (foldl (\<lambda>m i. if P i then add m i else m) m ids) j \<longleftrightarrow>
           has m j \<or> j \<in> set ids \<and> P j \<and> unat j < cap m"
  using assms by (induction ids arbitrary: m) (auto simp: add_laws)

text \<open>Refilling a buffer: wipe it, add the selected ids, add one reserved id.\<close>

lemma refill:
  assumes "r = add (foldl (\<lambda>m i. if P i then add m i else m) (wipe m) ids) e"
    and "ok m" and "\<forall>i \<in> set ids. unat i < cap m" and "unat e < cap m"
  shows "ok r" "cap r = cap m" "has r j \<longleftrightarrow> j \<in> set ids \<and> P j \<or> j = e"
  using assms fill_loop [of "wipe m" P ids]
  by (auto simp: add_laws wipe_laws)

end

section \<open>A lazily filled table\<close>

text \<open>A table whose entries are computed on first use from an immutable base: \<open>get\<close> returns
  the entry and the table with it filled in.\<close>

locale lazy_table =
  fixes ok :: "'s \<Rightarrow> bool"
    and base :: "'s \<Rightarrow> 'c"
    and get :: "'s \<Rightarrow> 'k \<Rightarrow> 'v \<times> 's"
    and compute :: "'c \<Rightarrow> 'k \<Rightarrow> 'v"
  assumes get_value: "ok s \<Longrightarrow> fst (get s k) = compute (base s) k"
    and get_ok: "ok s \<Longrightarrow> ok (snd (get s k))"
    and get_base: "ok s \<Longrightarrow> base (snd (get s k)) = base s"
begin

text \<open>Any history of lookups leaves a table that answers as a fresh one does.\<close>

lemma after_history:
  assumes "ok s"
  shows "ok (foldl (\<lambda>s k. snd (get s k)) s ks)"
    and "base (foldl (\<lambda>s k. snd (get s k)) s ks) = base s"
    and "fst (get (foldl (\<lambda>s k. snd (get s k)) s ks) k) = compute (base s) k"
proof -
  show ok: "ok (foldl (\<lambda>s k. snd (get s k)) s ks)"
    using assms by (induction ks arbitrary: s) (simp_all add: get_ok)
  show base: "base (foldl (\<lambda>s k. snd (get s k)) s ks) = base s"
    using assms by (induction ks arbitrary: s) (simp_all add: get_ok get_base)
  show "fst (get (foldl (\<lambda>s k. snd (get s k)) s ks) k) = compute (base s) k"
    using ok by (simp add: get_value base)
qed

end

section \<open>A byte recognizer\<close>

text \<open>Driving a recognizer over a byte string: stop at the first error.\<close>

fun drive :: "('r \<Rightarrow> u8 \<Rightarrow> ('e + unit) \<times> 'r) \<Rightarrow> 'r \<Rightarrow> bytes \<Rightarrow> ('e + unit) \<times> 'r" where
  "drive acc r [] = (Inr (), r)"
| "drive acc r (b # bs) =
    (case acc r b of
       (Inr _, r') \<Rightarrow> drive acc r' bs
     | (Inl e, r') \<Rightarrow> (Inl e, r'))"

text \<open>The configuration a recognizer should be in after a byte string.\<close>

fun moves :: "('c \<Rightarrow> u8 \<Rightarrow> 'c option) \<Rightarrow> 'c \<Rightarrow> bytes \<Rightarrow> 'c option" where
  "moves mv c [] = Some c"
| "moves mv c (b # bs) = (case mv c b of Some c' \<Rightarrow> moves mv c' bs | None \<Rightarrow> None)"

text \<open>The contract of the trait \<open>ByteRecognizer\<close>: one byte moves the recognizer's abstract
  configuration and its consumed counter, or is rejected by the single deadness channel, with
  the counter in the error and the recognizer unchanged; \<open>restart\<close> begins a fresh stream.\<close>

locale byte_recognizer =
  fixes accept_byte :: "'r \<Rightarrow> u8 \<Rightarrow> ('e + unit) \<times> 'r"
    and complete :: "'r \<Rightarrow> bool"
    and restart :: "'r \<Rightarrow> 'r"
    and config :: "'r \<Rightarrow> 'c"
    and consumed :: "'r \<Rightarrow> nat"
    and move :: "'c \<Rightarrow> u8 \<Rightarrow> 'c option"
    and final :: "'c \<Rightarrow> bool"
    and initial :: 'c
    and error_offset :: "'e \<Rightarrow> nat option"
  assumes accepts_byte: "accept_byte r b = (Inr (), r') \<Longrightarrow>
      move (config r) b = Some (config r') \<and> consumed r' = Suc (consumed r)"
    and rejects_byte: "accept_byte r b = (Inl e, r') \<Longrightarrow>
      move (config r) b = None \<and> r' = r \<and> error_offset e = Some (consumed r)"
    and complete_final: "complete r \<longleftrightarrow> final (config r)"
    and restart_laws: "config (restart r) = initial" "consumed (restart r) = 0"
begin

lemma drive_ok:
  "drive accept_byte r bs = (Inr (), r') \<Longrightarrow> consumed r' = consumed r + length bs"
proof (induction bs arbitrary: r)
  case (Cons b bs)
  then obtain r1 where "accept_byte r b = (Inr (), r1)" "drive accept_byte r1 bs = (Inr (), r')"
    by (auto split: prod.splits sum.splits)
  with Cons.IH accepts_byte show ?case by fastforce
qed simp

text \<open>A failed drive stopped at the first rejected byte: the bytes before it were accepted, and the
  error carries its offset.\<close>

lemma drive_error:
  "drive accept_byte r bs = (Inl e, r') \<Longrightarrow> \<exists>xs b ys. bs = xs @ b # ys \<and>
    drive accept_byte r xs = (Inr (), r') \<and> move (config r') b = None \<and>
    error_offset e = Some (consumed r + length xs)"
proof (induction bs arbitrary: r)
  case (Cons b bs)
  show ?case
  proof (cases "accept_byte r b")
    case (Pair res r1)
    show ?thesis
    proof (cases res)
      case (Inl e1)
      with Cons.prems Pair have "e = e1" "r' = r1" by auto
      with rejects_byte [of r b e1 r1] Pair Inl show ?thesis
        by (intro exI [of _ "[]"] exI [of _ b] exI [of _ bs]) auto
    next
      case (Inr u)
      with Cons.prems Pair have "drive accept_byte r1 bs = (Inl e, r')" by simp
      from Cons.IH [OF this] obtain xs c ys where *: "bs = xs @ c # ys"
        "drive accept_byte r1 xs = (Inr (), r')" "move (config r') c = None"
        "error_offset e = Some (consumed r1 + length xs)" by blast
      moreover have "consumed r1 = Suc (consumed r)" using accepts_byte [of r b r1] Pair Inr by simp
      ultimately show ?thesis using Pair Inr
        by (intro exI [of _ "b # xs"] exI [of _ c] exI [of _ ys]) simp
    qed
  qed
qed simp

text \<open>A driven recognizer is in the configuration the bytes lead to, or has failed.\<close>

lemma drive_moves:
  "moves move (config r) bs =
    (case drive accept_byte r bs of (Inr _, r') \<Rightarrow> Some (config r') | (Inl _, _) \<Rightarrow> None)"
proof (induction bs arbitrary: r)
  case (Cons b bs)
  obtain res r1 where a: "accept_byte r b = (res, r1)" by fastforce
  then show ?case
    using Cons.IH [of r1] accepts_byte [of r b r1] rejects_byte [of r b _ r1] by (cases res) auto
qed simp

text \<open>A restarted recognizer decides the language of the configurations.\<close>

lemma restart_decides:
  "(\<exists>r'. drive accept_byte (restart r) bs = (Inr (), r') \<and> complete r' \<and> consumed r' = length bs) \<longleftrightarrow>
    (\<exists>c. moves move initial bs = Some c \<and> final c)"
proof -
  have "moves move initial bs =
      (case drive accept_byte (restart r) bs of (Inr _, r') \<Rightarrow> Some (config r') | (Inl _, _) \<Rightarrow> None)"
    using drive_moves [of "restart r" bs] by (simp add: restart_laws)
  then show ?thesis
    using drive_ok [of "restart r" bs] by (auto simp: complete_final restart_laws split: prod.splits sum.splits)
qed

end

end
