(* ===== verification/Bit_Mask.thy ===== *)
theory Bit_Mask
  imports Interfaces
begin

text \<open>
  The dense token mask of \<open>src/src/mask.rs\<close>: a vector of 64-bit words and a length.  The
  representation invariant is \<open>bm_ok\<close>; the mask implements the interface \<open>token_set\<close>, its
  little-endian packing carries the same bits, and \<open>iter_ones\<close> lists exactly the members.
\<close>

unbundle bit_operations_syntax

definition WORD_BITS :: u32 where
  "WORD_BITS = 64"

record bit_mask =
  bm_words :: "u64 list"
  bm_len :: usize

definition locate :: "u32 \<Rightarrow> usize \<times> u32" where
  "locate tok = (unat (tok div WORD_BITS), tok mod WORD_BITS)"

definition div_ceil :: "usize \<Rightarrow> usize \<Rightarrow> usize" where
  "div_ceil a b = (if a mod b = 0 then a div b else a div b + 1)"

definition with_len :: "usize \<Rightarrow> bit_mask" where
  "with_len len = \<lparr>bm_words = replicate (div_ceil len (unat WORD_BITS)) 0, bm_len = len\<rparr>"

definition bm_is_empty :: "bit_mask \<Rightarrow> bool" where
  "bm_is_empty m \<longleftrightarrow> bm_len m = 0"

definition bm_set :: "bit_mask \<Rightarrow> u32 \<Rightarrow> bit_mask" where
  "bm_set m tok =
    (if unat tok \<ge> bm_len m then m
     else let (word, pos) = locate tok in
       m\<lparr>bm_words := (bm_words m)[word := (bm_words m ! word) OR push_bit (unat pos) 1]\<rparr>)"

definition bm_clear :: "bit_mask \<Rightarrow> u32 \<Rightarrow> bit_mask" where
  "bm_clear m tok =
    (if unat tok \<ge> bm_len m then m
     else let (word, pos) = locate tok in
       m\<lparr>bm_words := (bm_words m)[word := (bm_words m ! word) AND NOT (push_bit (unat pos) 1)]\<rparr>)"

definition bm_test :: "bit_mask \<Rightarrow> u32 \<Rightarrow> bool" where
  "bm_test m tok \<longleftrightarrow>
    (if unat tok \<ge> bm_len m then False
     else let (word, pos) = locate tok in (drop_bit (unat pos) (bm_words m ! word)) AND 1 = 1)"

definition bm_clear_all :: "bit_mask \<Rightarrow> bit_mask" where
  "bm_clear_all m = m\<lparr>bm_words := map (\<lambda>_. 0) (bm_words m)\<rparr>"

text \<open>\<open>a.iter_mut().zip(b)\<close>: update the overlap, keep the rest of \<open>a\<close>.\<close>

fun zip_update :: "('a \<Rightarrow> 'b \<Rightarrow> 'a) \<Rightarrow> 'a list \<Rightarrow> 'b list \<Rightarrow> 'a list" where
  "zip_update f (x # xs) (y # ys) = f x y # zip_update f xs ys"
| "zip_update f xs ys = xs"

definition bm_intersect :: "bit_mask \<Rightarrow> bit_mask \<Rightarrow> bit_mask" where
  "bm_intersect m other = m\<lparr>bm_words := zip_update (\<lambda>w v. w AND v) (bm_words m) (bm_words other)\<rparr>"

definition bm_copy_from :: "bit_mask \<Rightarrow> bit_mask \<Rightarrow> bit_mask" where
  "bm_copy_from m other = m\<lparr>bm_words := zip_update (\<lambda>_ v. v) (bm_words m) (bm_words other)\<rparr>"

definition to_le_bytes :: "u64 \<Rightarrow> bytes" where
  "to_le_bytes w = map (\<lambda>k. char_of (unat (take_bit 8 (drop_bit (8 * k) w)))) [0..<8]"

definition write_bytes :: "bytes \<Rightarrow> usize \<Rightarrow> bytes \<Rightarrow> bytes" where
  "write_bytes buf base bs =
    foldl (\<lambda>buf (offset, b). if base + offset < length buf then buf[base + offset := b] else buf)
      buf (enumerate 0 bs)"

definition pack_le_bytes_into :: "bit_mask \<Rightarrow> bytes \<Rightarrow> bytes" where
  "pack_le_bytes_into m buf =
    foldl (\<lambda>buf (word_idx, word). write_bytes buf (word_idx * 8) (to_le_bytes word))
      (replicate (div_ceil (bm_len m) 8) (CHR 0x00)) (enumerate 0 (bm_words m))"

definition iter_ones :: "bit_mask \<Rightarrow> u32 list" where
  "iter_ones m =
    concat (map (\<lambda>(word, bits).
      let base = word_of_nat word * WORD_BITS in
      map (\<lambda>pos. base + pos)
        (filter (\<lambda>pos. bits AND push_bit (unat pos) 1 \<noteq> 0) (u32_range WORD_BITS)))
      (enumerate 0 (bm_words m)))"

section \<open>The representation invariant\<close>

definition bm_ok :: "bit_mask \<Rightarrow> bool" where
  "bm_ok m \<longleftrightarrow> length (bm_words m) = div_ceil (bm_len m) 64 \<and>
    (\<forall>i < length (bm_words m). \<forall>k < 64. bit (bm_words m ! i) k \<longrightarrow> 64 * i + k < bm_len m)"

lemma bm_ok_bit:
  "bm_ok m \<Longrightarrow> i < length (bm_words m) \<Longrightarrow> k < 64 \<Longrightarrow> bit (bm_words m ! i) k \<Longrightarrow> 64 * i + k < bm_len m"
  by (simp add: bm_ok_def)

lemma unat_WORD_BITS [simp]: "unat WORD_BITS = 64"
  by (simp add: WORD_BITS_def)

lemma div_ceil_ge: "0 < b \<Longrightarrow> a \<le> div_ceil a b * b"
proof -
  assume b: "0 < b"
  have "a = a div b * b + a mod b" by simp
  moreover have "a mod b < b" using b by simp
  ultimately show ?thesis
    unfolding div_ceil_def by (simp only: add_mult_distrib split: if_split) linarith
qed

lemma div_ceil_le:
  assumes b: "0 < b" and i: "i < a"
  shows "i div b < div_ceil a b"
proof (rule ccontr)
  assume "\<not> i div b < div_ceil a b"
  then have "div_ceil a b * b \<le> i div b * b" by (simp add: not_less)
  also have "\<dots> \<le> i" by simp
  finally have "div_ceil a b * b < a" using i by simp
  with div_ceil_ge [OF b, of a] show False by simp
qed

lemma div_ceil_exact: "0 < b \<Longrightarrow> a \<le> b * c \<Longrightarrow> div_ceil a b \<le> c"
proof (rule ccontr)
  assume b: "0 < b" and le: "a \<le> b * c" and "\<not> div_ceil a b \<le> c"
  then have "c < div_ceil a b" by simp
  then have "c \<le> a div b" and "a mod b \<noteq> 0 \<or> c < a div b"
    by (auto simp: div_ceil_def split: if_splits)
  moreover have "a = b * (a div b) + a mod b" by simp
  moreover have "b * c \<le> b * (a div b)" using \<open>c \<le> a div b\<close> by simp
  moreover have "c < a div b \<Longrightarrow> b * c < b * (a div b)" using b by simp
  ultimately show False using le by linarith
qed

lemma locate_eq: "locate tok = (unat tok div 64, tok mod WORD_BITS)" "unat (tok mod WORD_BITS) = unat tok mod 64"
  by (simp_all add: locate_def WORD_BITS_def unat_div unat_mod)

lemma word_bit_test: "drop_bit k (w :: u64) AND 1 = 1 \<longleftrightarrow> bit w k"
  by (simp add: and_one_eq bit_iff_odd_drop_bit odd_iff_mod_2_eq_one)

lemma bm_test_iff:
  "bm_test m tok \<longleftrightarrow> unat tok < bm_len m \<and> bit (bm_words m ! (unat tok div 64)) (unat tok mod 64)"
  by (auto simp: bm_test_def locate_eq word_bit_test)

lemma word_index:
  assumes "bm_ok m" and "unat tok < bm_len m"
  shows "unat tok div 64 < length (bm_words m)"
  using assms div_ceil_le [of 64 "unat tok" "bm_len m"] by (simp add: bm_ok_def)

lemma bit_words_replicate: "i < n \<Longrightarrow> \<not> bit (replicate n (0 :: u64) ! i) k"
  by simp

lemma bm_ok_with_len: "bm_ok (with_len n)"
  by (simp add: bm_ok_def with_len_def)

lemma bm_test_with_len: "\<not> bm_test (with_len n) i"
  using div_ceil_le [of 64 "unat i" n] by (auto simp: bm_test_iff with_len_def)

lemma bit_single: "bit (push_bit n (1 :: u64)) k \<longleftrightarrow> k = n \<and> n < 64"
  by (auto simp: bit_simps)

lemma bit_power: "bit (2 ^ n :: u64) k \<longleftrightarrow> k = n \<and> n < 64"
  by (auto simp: bit_simps)

lemma bm_set_laws:
  assumes ok: "bm_ok m"
  shows "bm_ok (bm_set m i)" "bm_test (bm_set m i) j \<longleftrightarrow> bm_test m j \<or> j = i \<and> unat i < bm_len m"
proof -
  have decode: "64 * (unat i div 64) + unat i mod 64 = unat i" by simp
  show "bm_ok (bm_set m i)"
    using ok word_index [OF ok, of i] decode
    by (auto simp: bm_ok_def bm_set_def locate_eq nth_list_update bit_or_iff bit_single bit_power)
  have same: "unat j div 64 = unat i div 64 \<and> unat j mod 64 = unat i mod 64 \<longleftrightarrow> j = i"
    by (metis div_mult_mod_eq word_eq_iff_unsigned)
  show "bm_test (bm_set m i) j \<longleftrightarrow> bm_test m j \<or> j = i \<and> unat i < bm_len m"
    using word_index [OF ok, of j] word_index [OF ok, of i] same
    by (auto simp: bm_test_iff bm_set_def locate_eq nth_list_update bit_or_iff bit_single bit_power)
qed

lemma bm_clear_laws:
  assumes ok: "bm_ok m"
  shows "bm_ok (bm_clear m i)" "bm_test (bm_clear m i) j \<longleftrightarrow> bm_test m j \<and> j \<noteq> i"
proof -
  show "bm_ok (bm_clear m i)"
    using ok word_index [OF ok, of i]
    by (auto simp: bm_ok_def bm_clear_def locate_eq nth_list_update bit_and_iff)
  have same: "unat j div 64 = unat i div 64 \<and> unat j mod 64 = unat i mod 64 \<longleftrightarrow> j = i"
    by (metis div_mult_mod_eq word_eq_iff_unsigned)
  show "bm_test (bm_clear m i) j \<longleftrightarrow> bm_test m j \<and> j \<noteq> i"
    using word_index [OF ok, of j] word_index [OF ok, of i] same
    by (auto simp: bm_test_iff bm_clear_def locate_eq nth_list_update bit_and_iff bit_not_iff
        bit_single bit_power)
qed

lemma bm_clear_all_laws:
  assumes "bm_ok m"
  shows "bm_ok (bm_clear_all m)" "\<not> bm_test (bm_clear_all m) i"
  using assms word_index [OF assms, of i] by (auto simp: bm_ok_def bm_clear_all_def bm_test_iff)

lemma zip_update_length [simp]: "length (zip_update f xs ys) = length xs"
  by (induction f xs ys rule: zip_update.induct) auto

lemma zip_update_nth:
  "i < length xs \<Longrightarrow> zip_update f xs ys ! i = (if i < length ys then f (xs ! i) (ys ! i) else xs ! i)"
  by (induction f xs ys arbitrary: i rule: zip_update.induct) (auto simp: nth_Cons')

lemma zip_update_replace: "length xs = length ys \<Longrightarrow> zip_update (\<lambda>_ v. v) xs ys = ys"
  by (rule nth_equalityI) (simp_all add: zip_update_nth)

lemma bm_intersect_laws:
  assumes "bm_ok m" and "bm_ok n" and "bm_len m = bm_len n"
  shows "bm_ok (bm_intersect m n)" "bm_test (bm_intersect m n) i \<longleftrightarrow> bm_test m i \<and> bm_test n i"
proof -
  have len: "length (bm_words m) = length (bm_words n)" using assms by (simp add: bm_ok_def)
  show "bm_ok (bm_intersect m n)"
    using assms len by (auto simp: bm_ok_def bm_intersect_def zip_update_nth bit_and_iff)
  show "bm_test (bm_intersect m n) i \<longleftrightarrow> bm_test m i \<and> bm_test n i"
    using assms len word_index [OF assms(1), of i]
    by (auto simp: bm_intersect_def bm_test_iff zip_update_nth bit_and_iff)
qed

lemma bm_copy_from_eq:
  assumes "bm_ok m" and "bm_ok n" and "bm_len m = bm_len n"
  shows "bm_copy_from m n = n"
  using assms by (cases m; cases n) (simp add: bm_ok_def bm_copy_from_def zip_update_replace)

lemma bm_len_simps [simp]:
  "bm_len (with_len n) = n" "bm_len (bm_set m i) = bm_len m" "bm_len (bm_clear m i) = bm_len m"
  "bm_len (bm_clear_all m) = bm_len m" "bm_len (bm_intersect m n') = bm_len m"
  "bm_len (bm_copy_from m n') = bm_len m"
  by (simp_all add: with_len_def bm_set_def bm_clear_def bm_clear_all_def bm_intersect_def
      bm_copy_from_def locate_def)

interpretation mask: token_set bm_ok bm_len with_len bm_set bm_clear bm_test bm_clear_all
  bm_intersect bm_copy_from
  by unfold_locales
    (auto simp: bm_ok_with_len bm_test_with_len bm_set_laws bm_clear_laws bm_clear_all_laws
      bm_intersect_laws bm_copy_from_eq)

section \<open>Packing\<close>

lemma write_bytes_enum:
  "length (foldl (\<lambda>buf (offset, b). if base + offset < length buf then buf[base + offset := b] else buf)
      buf (enumerate n bs)) = length buf"
  by (induction bs arbitrary: buf n) auto

lemma length_write_bytes [simp]: "length (write_bytes buf base bs) = length buf"
  by (simp add: write_bytes_def write_bytes_enum)

lemma write_bytes_nth_enum:
  "i < length buf \<Longrightarrow>
    foldl (\<lambda>buf (offset, b). if base + offset < length buf then buf[base + offset := b] else buf)
      buf (enumerate n bs) ! i =
    (if base + n \<le> i \<and> i < base + n + length bs then bs ! (i - (base + n)) else buf ! i)"
proof (induction bs arbitrary: buf n)
  case Nil
  then show ?case by auto
next
  case (Cons b bs)
  then show ?case by (auto simp: nth_list_update nth_Cons' Suc_le_eq)
qed

lemma write_bytes_nth:
  "i < length buf \<Longrightarrow> write_bytes buf base bs ! i =
    (if base \<le> i \<and> i < base + length bs then bs ! (i - base) else buf ! i)"
  using write_bytes_nth_enum [of i buf base 0 bs] by (simp add: write_bytes_def)

lemma length_to_le_bytes [simp]: "length (to_le_bytes w) = 8"
  by (simp add: to_le_bytes_def)

lemma of_char_of_byte: "(of_char (char_of (n :: nat)) :: nat) = take_bit 8 n"
  by (simp add: take_bit_eq_mod)

lemma to_le_bytes_bit:
  assumes "k < 8" and "j < 8"
  shows "bit (of_char (to_le_bytes w ! k) :: nat) j \<longleftrightarrow> bit w (8 * k + j)"
proof -
  have "(of_char (to_le_bytes w ! k) :: nat) = take_bit 8 (unat (take_bit 8 (drop_bit (8 * k) w)))"
    using assms(1) by (simp only: to_le_bytes_def nth_map nth_upt length_upt of_char_of_byte) simp
  then show ?thesis
    using assms by (simp add: bit_take_bit_iff bit_unsigned_iff bit_drop_bit_eq possible_bit_word)
qed

lemma pack_words:
  "length (foldl (\<lambda>buf (word_idx, word). write_bytes buf (word_idx * 8) (to_le_bytes word)) buf
      (enumerate n ws)) = length buf"
  by (induction ws arbitrary: buf n) auto

lemma pack_words_nth:
  "i < length buf \<Longrightarrow>
    foldl (\<lambda>buf (word_idx, word). write_bytes buf (word_idx * 8) (to_le_bytes word)) buf
      (enumerate n ws) ! i =
    (if n \<le> i div 8 \<and> i div 8 < n + length ws then to_le_bytes (ws ! (i div 8 - n)) ! (i mod 8)
     else buf ! i)"
proof (induction ws arbitrary: buf n)
  case Nil
  then show ?case by auto
next
  case (Cons w ws)
  have inside: "n * 8 \<le> i \<and> i < n * 8 + 8 \<longleftrightarrow> i div 8 = n" by auto
  have offset: "i div 8 = n \<Longrightarrow> i - n * 8 = i mod 8" by (simp add: minus_div_mult_eq_mod [symmetric] mult.commute)
  show ?case
    using Cons.prems Cons.IH [of "write_bytes buf (n * 8) (to_le_bytes w)" "Suc n"] inside offset
    by (auto simp: write_bytes_nth nth_Cons' Suc_le_eq)
qed

section \<open>Iteration\<close>

lemma word_bits_upt:
  "filter (\<lambda>x. bit (w :: u64) (x mod 64) \<and> x div 64 = n) [64 * n..<64 * n + 64] =
    map (\<lambda>k. 64 * n + k) (filter (bit w) [0..<64])"
proof -
  have "[64 * n..<64 * n + 64] = map (\<lambda>k. 64 * n + k) [0..<64]"
    using map_add_upt [of "64 * n" 64] by (simp add: add.commute)
  then show ?thesis by (simp add: filter_map comp_def) (auto intro!: filter_cong)
qed

lemma concat_word_bits:
  "concat (map (\<lambda>(i, w). map (\<lambda>k. 64 * i + k) (filter (bit (w :: u64)) [0..<64])) (enumerate n ws)) =
    filter (\<lambda>x. bit (ws ! (x div 64 - n)) (x mod 64)) [64 * n..<64 * (n + length ws)]"
proof (induction ws arbitrary: n)
  case Nil
  then show ?case by simp
next
  case (Cons w ws)
  let ?P = "\<lambda>x. bit ((w # ws) ! (x div 64 - n)) (x mod 64)"
  have split: "[64 * n..<64 * (n + length (w # ws))] =
      [64 * n..<64 * n + 64] @ [64 * Suc n..<64 * (Suc n + length ws)]"
    using upt_add_eq_append [of "64 * n" "64 * n + 64" "64 * length ws"] by (simp add: algebra_simps)
  have head: "filter ?P [64 * n..<64 * n + 64] =
      filter (\<lambda>x. bit w (x mod 64) \<and> x div 64 = n) [64 * n..<64 * n + 64]"
    by (rule filter_cong) auto
  have tail: "filter ?P [64 * Suc n..<64 * (Suc n + length ws)] =
      filter (\<lambda>x. bit (ws ! (x div 64 - Suc n)) (x mod 64)) [64 * Suc n..<64 * (Suc n + length ws)]"
  proof (rule filter_cong [OF refl])
    fix x assume "x \<in> set [64 * Suc n..<64 * (Suc n + length ws)]"
    then have "Suc n \<le> x div 64" by auto
    then have "x div 64 - n = Suc (x div 64 - Suc n)" by simp
    then show "?P x = bit (ws ! (x div 64 - Suc n)) (x mod 64)" by simp
  qed
  show ?case
    unfolding split filter_append head tail word_bits_upt using Cons.IH [of "Suc n"] by simp
qed

lemma filter_unat_range:
  "map unat (filter (\<lambda>q. bits AND push_bit (unat q) 1 \<noteq> 0) (u32_range WORD_BITS)) =
    filter (bit (bits :: u64)) [0..<64]"
proof -
  have "bits AND push_bit k 1 \<noteq> 0 \<longleftrightarrow> bit bits k" for k
    by (simp only: bit_iff_and_push_bit_not_eq_0)
  then have "filter (bit bits) [0..<64] = filter (\<lambda>k. bits AND push_bit k 1 \<noteq> 0) [0..<64]"
    by (intro filter_cong) auto
  also have "\<dots> = filter (\<lambda>k. bits AND push_bit k 1 \<noteq> 0) (map unat (u32_range WORD_BITS))"
    by (simp add: map_unat_u32_range)
  finally show ?thesis by (simp add: filter_map comp_def)
qed

lemma iter_ones_word:
  assumes "64 * i + 64 \<le> 2 ^ 32"
  shows "map unat (map (\<lambda>q. word_of_nat i * WORD_BITS + q)
      (filter (\<lambda>q. bits AND push_bit (unat q) 1 \<noteq> 0) (u32_range WORD_BITS))) =
    map (\<lambda>k. 64 * i + k) (filter (bit (bits :: u64)) [0..<64])"
proof -
  have "unat (word_of_nat i * WORD_BITS + q) = 64 * i + unat q" if "q \<in> set (u32_range WORD_BITS)" for q
  proof -
    have "unat q < 64" using that by (simp add: set_u32_range word_less_nat_alt)
    then have "64 * i + unat q < 2 ^ 32" using assms by linarith
    then have "unat (word_of_nat (64 * i + unat q) :: u32) = 64 * i + unat q"
      by (rule unat_word_of_nat_u32)
    moreover have "word_of_nat i * WORD_BITS + q = (word_of_nat (64 * i + unat q) :: u32)"
      by (simp add: WORD_BITS_def mult.commute)
    ultimately show ?thesis by (simp only:)
  qed
  then show ?thesis
    unfolding filter_unat_range [symmetric] map_map by (intro map_cong) auto
qed

lemma iter_ones_words:
  assumes "64 * length (bm_words m) \<le> 2 ^ 32"
  shows "map unat (iter_ones m) =
    filter (\<lambda>x. bit (bm_words m ! (x div 64)) (x mod 64)) [0..<64 * length (bm_words m)]"
proof -
  have "map unat (iter_ones m) = concat (map (\<lambda>(i, w).
      map (\<lambda>k. 64 * i + k) (filter (bit w) [0..<64])) (enumerate 0 (bm_words m)))"
    unfolding iter_ones_def map_concat map_map
  proof (intro arg_cong [where f = concat] map_cong refl)
    fix p assume "p \<in> set (enumerate 0 (bm_words m))"
    moreover obtain i w where p: "p = (i, w)" by fastforce
    ultimately have "i < length (bm_words m)" by (simp add: in_set_enumerate_eq)
    then have "64 * i + 64 \<le> 2 ^ 32" using assms by linarith
    with p show "(map unat \<circ> (\<lambda>(word, bits).
          let base = word_of_nat word * WORD_BITS in
          map ((+) base) (filter (\<lambda>pos. bits AND push_bit (unat pos) 1 \<noteq> 0) (u32_range WORD_BITS)))) p =
        (case p of (i, w) \<Rightarrow> map ((+) (64 * i)) (filter (bit w) [0..<64]))"
      by (simp only: comp_apply prod.case Let_def iter_ones_word)
  qed
  then show ?thesis using concat_word_bits [of 0 "bm_words m"] by simp
qed

lemma packed_bit:
  assumes "bm_ok m" and "unat i < bm_len m"
  shows "length (pack_le_bytes_into m buf) = div_ceil (bm_len m) 8 \<and>
    (bit (of_char (pack_le_bytes_into m buf ! (unat i div 8)) :: nat) (unat i mod 8) \<longleftrightarrow> bm_test m i)"
proof
  show "length (pack_le_bytes_into m buf) = div_ceil (bm_len m) 8"
    by (simp add: pack_le_bytes_into_def pack_words)
  have slot: "unat i div 8 < div_ceil (bm_len m) 8" using assms(2) by (simp add: div_ceil_le)
  have word: "unat i div 8 div 8 < length (bm_words m)"
    using word_index [OF assms] by (simp add: div_mult2_eq [symmetric])
  have "pack_le_bytes_into m buf ! (unat i div 8) =
      to_le_bytes (bm_words m ! (unat i div 64)) ! (unat i div 8 mod 8)"
    using slot word by (simp add: pack_le_bytes_into_def pack_words_nth div_mult2_eq [symmetric])
  moreover have "8 * (unat i div 8 mod 8) + unat i mod 8 = unat i mod 64"
    using mod_mult2_eq [of "unat i" 8 8] by simp
  ultimately show "bit (of_char (pack_le_bytes_into m buf ! (unat i div 8)) :: nat) (unat i mod 8)
      \<longleftrightarrow> bm_test m i"
    using assms(2) by (simp add: to_le_bytes_bit bm_test_iff)
qed

section \<open>Properties of the mask\<close>

text \<open>setting or clearing an id changes the membership of that id alone, an id past the
  length is ignored, and the intersection of two masks of one length is the intersection of
  their members.\<close>

theorem mask_operations_membership:
  assumes "bm_ok m" and "bm_ok n" and "bm_len m = bm_len n"
  shows "(bm_test (bm_set m i) j \<longleftrightarrow> bm_test m j \<or> j = i \<and> unat i < bm_len m) \<and>
    (bm_test (bm_clear m i) j \<longleftrightarrow> bm_test m j \<and> j \<noteq> i) \<and>
    (bm_test (bm_intersect m n) j \<longleftrightarrow> bm_test m j \<and> bm_test n j) \<and>
    bm_ok (bm_set m i) \<and> bm_ok (bm_clear m i) \<and> bm_ok (bm_intersect m n)"
  using assms by (simp add: mask.laws)

theorem mask_operations_membership_witness:
  "bm_test (bm_set (with_len 70) 69) 69"
  using mask_operations_membership [of "with_len 70" "with_len 70" 69 69]
  by (simp add: bm_ok_with_len)

text \<open>in the packed little-endian bytes, bit \<open>i mod 8\<close> of byte \<open>i div 8\<close> is the
  membership of id \<open>i\<close>, for every id the mask spans, whatever the buffer held before.\<close>

theorem pack_le_bytes_roundtrip:
  assumes "bm_ok m" and "unat i < bm_len m"
  shows "length (pack_le_bytes_into m buf) = div_ceil (bm_len m) 8 \<and>
    (bit (of_char (pack_le_bytes_into m buf ! (unat i div 8)) :: nat) (unat i mod 8) \<longleftrightarrow> bm_test m i)"
  using assms by (rule packed_bit)

theorem pack_le_bytes_roundtrip_witness:
  "bit (of_char (pack_le_bytes_into (bm_set (with_len 70) 69) [] ! 8) :: nat) 5"
  using pack_le_bytes_roundtrip [of "bm_set (with_len 70) 69" 69 "[]"]
  by (simp add: bm_ok_with_len bm_set_laws)

text \<open>iteration lists the members in ascending order, each once, and nothing else.\<close>

theorem iter_ones_members:
  assumes "bm_ok m" and "bm_len m \<le> 2 ^ 32"
  shows "map unat (iter_ones m) = filter (\<lambda>x. bm_test m (word_of_nat x)) [0..<bm_len m]"
proof -
  have size: "bm_len m \<le> 64 * length (bm_words m)" "64 * length (bm_words m) \<le> 2 ^ 32"
    using assms div_ceil_ge [of 64 "bm_len m"] div_ceil_exact [of 64 "bm_len m" "2 ^ 26"]
    by (simp_all add: bm_ok_def mult.commute)
  let ?P = "\<lambda>x. bit (bm_words m ! (x div 64)) (x mod 64)"
  have "filter ?P [0..<64 * length (bm_words m)] =
      filter ?P [0..<bm_len m] @ filter ?P [bm_len m..<64 * length (bm_words m)]"
    using size(1) upt_add_eq_append [of 0 "bm_len m" "64 * length (bm_words m) - bm_len m"] by simp
  also have "filter ?P [bm_len m..<64 * length (bm_words m)] = []"
  proof (rule filter_False, rule ballI)
    fix x assume x: "x \<in> set [bm_len m..<64 * length (bm_words m)]"
    then have "x div 64 < length (bm_words m)" by auto
    then have "?P x \<longrightarrow> 64 * (x div 64) + x mod 64 < bm_len m"
      using bm_ok_bit [OF assms(1), of "x div 64" "x mod 64"] by simp
    with x show "\<not> ?P x" by simp
  qed
  also have "filter ?P [0..<bm_len m] = filter (\<lambda>x. bm_test m (word_of_nat x)) [0..<bm_len m]"
    using assms(2) by (intro filter_cong) (auto simp: bm_test_iff unat_word_of_nat_u32)
  finally show ?thesis using iter_ones_words [OF size(2)] by simp
qed

theorem iter_ones_members_witness:
  "map unat (iter_ones (bm_set (with_len 3) 2)) = [2]"
  using iter_ones_members [of "bm_set (with_len 3) 2"]
  by (simp add: bm_ok_with_len bm_set_laws bm_test_with_len upt_rec)

lemma upt_64:
  "[0..<64] = [0, 1, 2, 3, 4, 5, 6, 7, 8, 9, 10, 11, 12, 13, 14, 15, 16, 17, 18, 19, 20, 21, 22, 23,
    24, 25, 26, 27, 28, 29, 30, 31, 32, 33, 34, 35, 36, 37, 38, 39, 40, 41, 42, 43, 44, 45, 46, 47,
    48, 49, 50, 51, 52, 53, 54, 55, 56, 57, 58, 59, 60, 61, 62, 63 :: nat]"
  by code_simp

text \<open>Copying from a longer mask does set ids past the receiver's length, which
  iteration then lists: the type's remark that no path can do so does not hold of it.\<close>

theorem copy_from_longer_leaks:
  "iter_ones (bm_copy_from (with_len 1) (bm_set (with_len 8) 5)) = [5] \<and>
   bm_len (bm_copy_from (with_len 1) (bm_set (with_len 8) 5)) = 1 \<and>
   \<not> bm_test (bm_copy_from (with_len 1) (bm_set (with_len 8) 5)) 5"
  by (simp add: iter_ones_def bm_copy_from_def bm_set_def with_len_def locate_def div_ceil_def
      u32_range_def WORD_BITS_def upt_64 bm_test_def Let_def)

end
