(* ===== verification/Pda.thy ===== *)
theory Pda
  imports Prelude
begin

text \<open>
  The byte automaton of \<open>src/src/grammar/pda.rs\<close>: the enumerations \<open>State\<close>, \<open>Frame\<close>,
  \<open>Step\<close> and \<open>LexKind\<close>, the transition function \<open>step\<close> (one definition per arm of its
  match, in the order of the source), and the driver \<open>Pda\<close> with its methods.  The frame
  stack is a list in the order of the \<open>Vec\<close>, its top at the end.
\<close>

section \<open>States, frames, steps\<close>

datatype state =
    Start | ExpectSource | AfterBraceOpen | BlockStmt | BlockStmtClose | InSourceIdent
  | SourceColon | SourceColon2 | SourceDash | LetL | LetLe | LetLet | ExpectBinder
  | InBinder | AfterBinder | InMultiplicity | ExpectBraceBinder | AfterColonWs
  | ExpectValue | ExpectValueReq | AfterValue | InIdent | SawNumSign | InNumberInt
  | NeedFracDigit | InNumberFrac | SawExp | NeedExpDigit | InExp | InStrLit bool
  | SawPercent | InDateLit | InMilestoneLit | AfterDollar | AfterDot | AfterArrow
  | AfterColon | AfterColon2 | SawDash | SawPipe | SawEq | SawBang | SawGt | SawLt
  | SawAmp | SawTilde

datatype lex_kind = LkIdent | LkNumber | LkStr | LkDate

datatype frame = Paren | Bracket | Brace | BraceLambda

datatype pda_step = Next state | Push frame state | Pop state | Dead

fun state_name :: "state \<Rightarrow> string" where
  "state_name Start = ''Start''"
| "state_name ExpectSource = ''ExpectSource''"
| "state_name AfterBraceOpen = ''AfterBraceOpen''"
| "state_name BlockStmt = ''BlockStmt''"
| "state_name BlockStmtClose = ''BlockStmtClose''"
| "state_name InSourceIdent = ''InSourceIdent''"
| "state_name SourceColon = ''SourceColon''"
| "state_name SourceColon2 = ''SourceColon2''"
| "state_name SourceDash = ''SourceDash''"
| "state_name LetL = ''LetL''"
| "state_name LetLe = ''LetLe''"
| "state_name LetLet = ''LetLet''"
| "state_name ExpectBinder = ''ExpectBinder''"
| "state_name InBinder = ''InBinder''"
| "state_name AfterBinder = ''AfterBinder''"
| "state_name InMultiplicity = ''InMultiplicity''"
| "state_name ExpectBraceBinder = ''ExpectBraceBinder''"
| "state_name AfterColonWs = ''AfterColonWs''"
| "state_name ExpectValue = ''ExpectValue''"
| "state_name ExpectValueReq = ''ExpectValueReq''"
| "state_name AfterValue = ''AfterValue''"
| "state_name InIdent = ''InIdent''"
| "state_name SawNumSign = ''SawNumSign''"
| "state_name InNumberInt = ''InNumberInt''"
| "state_name NeedFracDigit = ''NeedFracDigit''"
| "state_name InNumberFrac = ''InNumberFrac''"
| "state_name SawExp = ''SawExp''"
| "state_name NeedExpDigit = ''NeedExpDigit''"
| "state_name InExp = ''InExp''"
| "state_name (InStrLit False) = ''InStrLit''"
| "state_name (InStrLit True) = ''InStrLit(pendingQuote)''"
| "state_name SawPercent = ''SawPercent''"
| "state_name InDateLit = ''InDateLit''"
| "state_name InMilestoneLit = ''InMilestoneLit''"
| "state_name AfterDollar = ''AfterDollar''"
| "state_name AfterDot = ''AfterDot''"
| "state_name AfterArrow = ''AfterArrow''"
| "state_name AfterColon = ''AfterColon''"
| "state_name AfterColon2 = ''AfterColon2''"
| "state_name SawDash = ''SawDash''"
| "state_name SawPipe = ''SawPipe''"
| "state_name SawEq = ''SawEq''"
| "state_name SawBang = ''SawBang''"
| "state_name SawGt = ''SawGt''"
| "state_name SawLt = ''SawLt''"
| "state_name SawAmp = ''SawAmp''"
| "state_name SawTilde = ''SawTilde''"

fun state_index :: "state \<Rightarrow> usize" where
  "state_index Start = 0"
| "state_index ExpectSource = 1"
| "state_index AfterBraceOpen = 2"
| "state_index BlockStmt = 3"
| "state_index BlockStmtClose = 4"
| "state_index InSourceIdent = 5"
| "state_index SourceColon = 6"
| "state_index SourceColon2 = 7"
| "state_index SourceDash = 8"
| "state_index LetL = 9"
| "state_index LetLe = 10"
| "state_index LetLet = 11"
| "state_index ExpectBinder = 12"
| "state_index InBinder = 13"
| "state_index AfterBinder = 14"
| "state_index InMultiplicity = 15"
| "state_index ExpectBraceBinder = 16"
| "state_index AfterColonWs = 17"
| "state_index ExpectValue = 18"
| "state_index ExpectValueReq = 19"
| "state_index AfterValue = 20"
| "state_index InIdent = 21"
| "state_index SawNumSign = 22"
| "state_index InNumberInt = 23"
| "state_index NeedFracDigit = 24"
| "state_index InNumberFrac = 25"
| "state_index (InStrLit False) = 26"
| "state_index (InStrLit True) = 27"
| "state_index SawPercent = 28"
| "state_index InDateLit = 29"
| "state_index AfterDollar = 30"
| "state_index AfterDot = 31"
| "state_index AfterArrow = 32"
| "state_index AfterColon = 33"
| "state_index AfterColon2 = 34"
| "state_index SawDash = 35"
| "state_index SawPipe = 36"
| "state_index SawEq = 37"
| "state_index SawBang = 38"
| "state_index SawGt = 39"
| "state_index SawLt = 40"
| "state_index SawAmp = 41"
| "state_index InMilestoneLit = 42"
| "state_index SawTilde = 43"
| "state_index SawExp = 44"
| "state_index NeedExpDigit = 45"
| "state_index InExp = 46"

definition state_count :: usize where
  "state_count = 47"

fun lexeme_kind :: "state \<Rightarrow> lex_kind option" where
  "lexeme_kind InIdent = Some LkIdent"
| "lexeme_kind InSourceIdent = Some LkIdent"
| "lexeme_kind InBinder = Some LkIdent"
| "lexeme_kind SourceColon = Some LkIdent"
| "lexeme_kind SourceColon2 = Some LkIdent"
| "lexeme_kind SawNumSign = Some LkNumber"
| "lexeme_kind InNumberInt = Some LkNumber"
| "lexeme_kind NeedFracDigit = Some LkNumber"
| "lexeme_kind InNumberFrac = Some LkNumber"
| "lexeme_kind SawExp = Some LkNumber"
| "lexeme_kind NeedExpDigit = Some LkNumber"
| "lexeme_kind InExp = Some LkNumber"
| "lexeme_kind SawPercent = Some LkDate"
| "lexeme_kind InDateLit = Some LkDate"
| "lexeme_kind InMilestoneLit = Some LkDate"
| "lexeme_kind (InStrLit _) = Some LkStr"
| "lexeme_kind _ = None"

definition ALL_FRAMES :: "frame list" where
  "ALL_FRAMES = [Paren, Bracket, Brace, BraceLambda]"

fun frame_name :: "frame \<Rightarrow> string" where
  "frame_name Paren = ''Paren''"
| "frame_name Bracket = ''Bracket''"
| "frame_name Brace = ''Brace''"
| "frame_name BraceLambda = ''BraceLambda''"

section \<open>Character classes\<close>

definition WS :: bytes where
  "WS = [CHR '' '', CHR 0x09, CHR 0x0A, CHR 0x0D]"

definition VALUE_BOUNDARY :: u8 where
  "VALUE_BOUNDARY = CHR '' ''"

definition is_ws :: "u8 \<Rightarrow> bool" where
  "is_ws b \<longleftrightarrow> b \<in> set WS"

definition is_ident_start :: "u8 \<Rightarrow> bool" where
  "is_ident_start b = (is_ascii_alphabetic b \<or> b = CHR ''_'')"

definition is_ident_tail :: "u8 \<Rightarrow> bool" where
  "is_ident_tail b = (is_ascii_alphanumeric b \<or> b = CHR ''_'')"

definition is_date_char :: "u8 \<Rightarrow> bool" where
  "is_date_char b = (is_ascii_digit b \<or> b \<in> {CHR ''-'', CHR ''T'', CHR '':''})"

lemmas lex_class_defs = WS_def is_ws_def is_ident_start_def is_ident_tail_def is_date_char_def

section \<open>The transition function\<close>

definition close :: "frame option \<Rightarrow> u8 \<Rightarrow> pda_step" where [hub_defs]:
  "close tp b =
    (case tp of
       Some Paren \<Rightarrow> if b = CHR '')'' then Pop AfterValue else Dead
     | Some Bracket \<Rightarrow> if b = CHR '']'' then Pop AfterValue else Dead
     | Some Brace \<Rightarrow> if b = CHR ''}'' then Pop AfterValue else Dead
     | Some BraceLambda \<Rightarrow> if b = CHR ''}'' then Pop AfterValue else Dead
     | None \<Rightarrow> Dead)"

definition value_position :: "frame option \<Rightarrow> u8 \<Rightarrow> bool \<Rightarrow> pda_step" where [hub_defs]:
  "value_position stack_top b allow_close =
    (let ws_state = (if allow_close then ExpectValue else ExpectValueReq) in
     if is_ws b then Next ws_state
     else if is_ident_start b then Next InIdent
     else if is_ascii_digit b then Next InNumberInt
     else if b = CHR ''-'' then Next SawNumSign
     else if b = CHR ''.'' then Next NeedFracDigit
     else if b = CHR 0x27 then Next (InStrLit False)
     else if b = CHR ''%'' then Next SawPercent
     else if b = CHR ''$'' then Next AfterDollar
     else if b = CHR ''~'' then Next SawTilde
     else if b = CHR ''('' then Push Paren ExpectValue
     else if b = CHR ''['' then Push Bracket ExpectValue
     else if b = CHR ''{'' then Push BraceLambda ExpectBraceBinder
     else if b = CHR ''|'' then Next ExpectValueReq
     else if b = CHR ''!'' then Next ExpectValueReq
     else if b = CHR ''*'' \<and> allow_close \<and> stack_top = Some Bracket then Next InMultiplicity
     else if (b = CHR '')'' \<or> b = CHR '']'' \<or> b = CHR ''}'') \<and> allow_close
       then close stack_top b
     else Dead)"

definition block_stmt :: "frame option \<Rightarrow> u8 \<Rightarrow> bool \<Rightarrow> pda_step" where [hub_defs]:
  "block_stmt stack_top b allow_close =
    (let ws_state = (if allow_close then BlockStmtClose else BlockStmt) in
     if is_ws b then Next ws_state
     else if b = CHR ''l'' then Next LetL
     else if is_ident_start b then Next InSourceIdent
     else if b = CHR ''$'' then Next AfterDollar
     else if b = CHR ''}'' \<and> allow_close then close stack_top b
     else Dead)"

definition step_Start :: "u8 \<Rightarrow> pda_step" where [step_defs]:
  "step_Start b =
    (if is_ws b then Next Start
     else if b = CHR ''|'' then Next ExpectSource
     else if b = CHR ''{'' then Push Brace AfterBraceOpen
     else Dead)"

definition step_ExpectSource :: "u8 \<Rightarrow> pda_step" where [step_defs]:
  "step_ExpectSource b =
    (if is_ws b then Next ExpectSource
     else if is_ident_start b then Next InSourceIdent
     else Dead)"

definition step_AfterBraceOpen :: "u8 \<Rightarrow> pda_step" where [step_defs]:
  "step_AfterBraceOpen b =
    (if is_ws b then Next AfterBraceOpen
     else if b = CHR ''|'' then Next BlockStmt
     else Dead)"

definition step_AfterValue :: "frame option \<Rightarrow> u8 \<Rightarrow> pda_step" where [hub_defs]:
  "step_AfterValue stack_top b =
    (if is_ws b then Next AfterValue
     else if b = CHR ''-'' then Next SawDash
     else if b = CHR ''>'' then Next SawGt
     else if b = CHR ''<'' then Next SawLt
     else if b = CHR ''='' then Next SawEq
     else if b = CHR ''!'' then Next SawBang
     else if b = CHR ''&'' then Next SawAmp
     else if b = CHR ''|'' then Next SawPipe
     else if b = CHR ''+'' \<or> b = CHR ''*'' \<or> b = CHR ''/'' then Next ExpectValueReq
     else if b = CHR ''.'' then Next AfterDot
     else if b = CHR '':'' then Next AfterColon
     else if b = CHR ''('' then Push Paren ExpectValue
     else if b = CHR ''['' then Push Bracket ExpectValue
     else if b = CHR '','' \<and> stack_top \<noteq> None then Next ExpectValueReq
     else if b = CHR '';'' \<and> stack_top = Some Brace then Next BlockStmtClose
     else if b = CHR '')'' \<or> b = CHR '']'' \<or> b = CHR ''}'' then close stack_top b
     else Dead)"

definition step_InIdent :: "frame option \<Rightarrow> u8 \<Rightarrow> pda_step" where [step_defs]:
  "step_InIdent stack_top b =
    (if is_ident_tail b then Next InIdent else step_AfterValue stack_top b)"

definition step_InSourceIdent :: "u8 \<Rightarrow> pda_step" where [hub_defs]:
  "step_InSourceIdent b =
    (if is_ident_tail b then Next InSourceIdent
     else if b = CHR ''.'' then Next AfterDot
     else if b = CHR ''-'' then Next SourceDash
     else if b = CHR '':'' then Next SourceColon
     else Dead)"

definition step_SourceColon :: "u8 \<Rightarrow> pda_step" where [step_defs]:
  "step_SourceColon b = (if b = CHR '':'' then Next SourceColon2 else Dead)"

definition step_SourceColon2 :: "u8 \<Rightarrow> pda_step" where [step_defs]:
  "step_SourceColon2 b = (if is_ident_start b then Next InSourceIdent else Dead)"

definition step_SourceDash :: "u8 \<Rightarrow> pda_step" where [step_defs]:
  "step_SourceDash b = (if b = CHR ''>'' then Next AfterArrow else Dead)"

definition step_LetL :: "u8 \<Rightarrow> pda_step" where [step_defs]:
  "step_LetL b = (if b = CHR ''e'' then Next LetLe else step_InSourceIdent b)"

definition step_LetLe :: "u8 \<Rightarrow> pda_step" where [step_defs]:
  "step_LetLe b = (if b = CHR ''t'' then Next LetLet else step_InSourceIdent b)"

definition step_LetLet :: "u8 \<Rightarrow> pda_step" where [step_defs]:
  "step_LetLet b = (if is_ws b then Next ExpectBinder else step_InSourceIdent b)"

definition step_ExpectBinder :: "u8 \<Rightarrow> pda_step" where [step_defs]:
  "step_ExpectBinder b =
    (if is_ws b then Next ExpectBinder
     else if is_ident_start b then Next InBinder
     else Dead)"

definition step_InBinder :: "u8 \<Rightarrow> pda_step" where [step_defs]:
  "step_InBinder b =
    (if is_ident_tail b then Next InBinder
     else if is_ws b then Next AfterBinder
     else if b = CHR ''='' then Next ExpectSource
     else Dead)"

definition step_AfterBinder :: "u8 \<Rightarrow> pda_step" where [step_defs]:
  "step_AfterBinder b =
    (if is_ws b then Next AfterBinder
     else if b = CHR ''='' then Next ExpectSource
     else Dead)"

definition step_InMultiplicity :: "frame option \<Rightarrow> u8 \<Rightarrow> pda_step" where [step_defs]:
  "step_InMultiplicity stack_top b = (if b = CHR '']'' then close stack_top b else Dead)"

definition step_ExpectBraceBinder :: "u8 \<Rightarrow> pda_step" where [step_defs]:
  "step_ExpectBraceBinder b =
    (if is_ws b then Next ExpectBraceBinder
     else if is_ident_start b then Next InIdent
     else Dead)"

definition step_SawNumSign :: "u8 \<Rightarrow> pda_step" where [step_defs]:
  "step_SawNumSign b =
    (if is_ascii_digit b then Next InNumberInt
     else if b = CHR ''.'' then Next NeedFracDigit
     else Dead)"

definition step_InNumberInt :: "frame option \<Rightarrow> u8 \<Rightarrow> pda_step" where [step_defs]:
  "step_InNumberInt stack_top b =
    (if is_ascii_digit b then Next InNumberInt
     else if b = CHR ''.'' then Next NeedFracDigit
     else step_AfterValue stack_top b)"

definition step_NeedFracDigit :: "u8 \<Rightarrow> pda_step" where [step_defs]:
  "step_NeedFracDigit b = (if is_ascii_digit b then Next InNumberFrac else Dead)"

definition step_InNumberFrac :: "frame option \<Rightarrow> u8 \<Rightarrow> pda_step" where [step_defs]:
  "step_InNumberFrac stack_top b =
    (if is_ascii_digit b then Next InNumberFrac
     else if b = CHR ''e'' \<or> b = CHR ''E'' then Next SawExp
     else step_AfterValue stack_top b)"

definition step_SawExp :: "u8 \<Rightarrow> pda_step" where [step_defs]:
  "step_SawExp b =
    (if b = CHR ''+'' \<or> b = CHR ''-'' then Next NeedExpDigit
     else if is_ascii_digit b then Next InExp
     else Dead)"

definition step_NeedExpDigit :: "u8 \<Rightarrow> pda_step" where [step_defs]:
  "step_NeedExpDigit b = (if is_ascii_digit b then Next InExp else Dead)"

definition step_InExp :: "frame option \<Rightarrow> u8 \<Rightarrow> pda_step" where [step_defs]:
  "step_InExp stack_top b =
    (if is_ascii_digit b then Next InExp else step_AfterValue stack_top b)"

definition step_InStrLit :: "bool \<Rightarrow> frame option \<Rightarrow> u8 \<Rightarrow> pda_step" where [step_defs]:
  "step_InStrLit escaped stack_top b =
    (if escaped then
       (if b = CHR 0x27 then Next (InStrLit False) else step_AfterValue stack_top b)
     else if b = CHR 0x27 then Next (InStrLit True)
     else Next (InStrLit False))"

definition step_SawPercent :: "u8 \<Rightarrow> pda_step" where [step_defs]:
  "step_SawPercent b =
    (if is_date_char b then Next InDateLit
     else if is_ascii_lowercase b then Next InMilestoneLit
     else Dead)"

definition step_InDateLit :: "frame option \<Rightarrow> u8 \<Rightarrow> pda_step" where [step_defs]:
  "step_InDateLit stack_top b =
    (if is_date_char b \<or> b = CHR ''.'' then Next InDateLit else step_AfterValue stack_top b)"

definition step_InMilestoneLit :: "frame option \<Rightarrow> u8 \<Rightarrow> pda_step" where [step_defs]:
  "step_InMilestoneLit stack_top b =
    (if is_ascii_lowercase b then Next InMilestoneLit else step_AfterValue stack_top b)"

definition step_AfterDollar :: "u8 \<Rightarrow> pda_step" where [step_defs]:
  "step_AfterDollar b = (if is_ident_start b then Next InIdent else Dead)"

definition step_AfterDot :: "u8 \<Rightarrow> pda_step" where [step_defs]:
  "step_AfterDot b =
    (if is_ws b then Next AfterDot
     else if is_ident_start b then Next InIdent
     else if b = CHR 0x27 then Next (InStrLit False)
     else Dead)"

definition step_AfterArrow :: "u8 \<Rightarrow> pda_step" where [step_defs]:
  "step_AfterArrow b =
    (if is_ws b then Next AfterArrow
     else if is_ident_start b then Next InIdent
     else Dead)"

definition step_AfterColon :: "u8 \<Rightarrow> pda_step" where [step_defs]:
  "step_AfterColon b =
    (if is_ws b then Next AfterColonWs
     else if b = CHR '':'' then Next AfterColon2
     else if is_ident_start b then Next InIdent
     else if b = CHR ''{'' then Push BraceLambda ExpectBraceBinder
     else Dead)"

definition step_AfterColonWs :: "u8 \<Rightarrow> pda_step" where [step_defs]:
  "step_AfterColonWs b =
    (if is_ws b then Next AfterColonWs
     else if is_ident_start b then Next InIdent
     else if b = CHR ''{'' then Push BraceLambda ExpectBraceBinder
     else Dead)"

definition step_AfterColon2 :: "u8 \<Rightarrow> pda_step" where [step_defs]:
  "step_AfterColon2 b = (if is_ident_start b then Next InIdent else Dead)"

definition step_SawDash :: "frame option \<Rightarrow> u8 \<Rightarrow> pda_step" where [step_defs]:
  "step_SawDash stack_top b =
    (if b = CHR ''>'' then Next AfterArrow else value_position stack_top b False)"

definition step_SawPipe :: "frame option \<Rightarrow> u8 \<Rightarrow> pda_step" where [step_defs]:
  "step_SawPipe stack_top b =
    (if b = CHR ''|'' then Next ExpectValueReq else value_position stack_top b False)"

definition step_SawEq :: "u8 \<Rightarrow> pda_step" where [step_defs]:
  "step_SawEq b = (if b = CHR ''='' then Next ExpectValueReq else Dead)"

definition step_SawBang :: "u8 \<Rightarrow> pda_step" where [step_defs]:
  "step_SawBang b = (if b = CHR ''='' then Next ExpectValueReq else Dead)"

definition step_SawGt :: "frame option \<Rightarrow> u8 \<Rightarrow> pda_step" where [step_defs]:
  "step_SawGt stack_top b =
    (if b = CHR ''='' then Next ExpectValueReq else value_position stack_top b False)"

definition step_SawLt :: "frame option \<Rightarrow> u8 \<Rightarrow> pda_step" where [step_defs]:
  "step_SawLt stack_top b =
    (if b = CHR ''='' then Next ExpectValueReq else value_position stack_top b False)"

definition step_SawAmp :: "u8 \<Rightarrow> pda_step" where [step_defs]:
  "step_SawAmp b = (if b = CHR ''&'' then Next ExpectValueReq else Dead)"

definition step_SawTilde :: "u8 \<Rightarrow> pda_step" where [step_defs]:
  "step_SawTilde b =
    (if b = CHR ''['' then Push Bracket ExpectValue
     else if b = CHR 0x27 then Next (InStrLit False)
     else if is_ident_start b then Next InIdent
     else Dead)"

text \<open>\<open>step\<close>: the arms that delegate a byte re-invoke \<open>step\<close> at a hub in the source
  (\<open>AfterValue\<close>, \<open>ExpectValueReq\<close>, \<open>InSourceIdent\<close>); no hub delegates further, so the
  recursion is one level deep and each delegating arm above calls the hub's own arm.\<close>

fun step :: "state \<Rightarrow> frame option \<Rightarrow> u8 \<Rightarrow> pda_step" where
  "step Start tp b = step_Start b"
| "step ExpectSource tp b = step_ExpectSource b"
| "step AfterBraceOpen tp b = step_AfterBraceOpen b"
| "step BlockStmt tp b = block_stmt tp b False"
| "step BlockStmtClose tp b = block_stmt tp b True"
| "step ExpectValue tp b = value_position tp b True"
| "step ExpectValueReq tp b = value_position tp b False"
| "step AfterValue tp b = step_AfterValue tp b"
| "step InIdent tp b = step_InIdent tp b"
| "step InSourceIdent tp b = step_InSourceIdent b"
| "step SourceColon tp b = step_SourceColon b"
| "step SourceColon2 tp b = step_SourceColon2 b"
| "step SourceDash tp b = step_SourceDash b"
| "step LetL tp b = step_LetL b"
| "step LetLe tp b = step_LetLe b"
| "step LetLet tp b = step_LetLet b"
| "step ExpectBinder tp b = step_ExpectBinder b"
| "step InBinder tp b = step_InBinder b"
| "step AfterBinder tp b = step_AfterBinder b"
| "step InMultiplicity tp b = step_InMultiplicity tp b"
| "step ExpectBraceBinder tp b = step_ExpectBraceBinder b"
| "step SawNumSign tp b = step_SawNumSign b"
| "step InNumberInt tp b = step_InNumberInt tp b"
| "step NeedFracDigit tp b = step_NeedFracDigit b"
| "step InNumberFrac tp b = step_InNumberFrac tp b"
| "step SawExp tp b = step_SawExp b"
| "step NeedExpDigit tp b = step_NeedExpDigit b"
| "step InExp tp b = step_InExp tp b"
| "step (InStrLit escaped) tp b = step_InStrLit escaped tp b"
| "step SawPercent tp b = step_SawPercent b"
| "step InDateLit tp b = step_InDateLit tp b"
| "step InMilestoneLit tp b = step_InMilestoneLit tp b"
| "step AfterDollar tp b = step_AfterDollar b"
| "step AfterDot tp b = step_AfterDot b"
| "step AfterArrow tp b = step_AfterArrow b"
| "step AfterColon tp b = step_AfterColon b"
| "step AfterColonWs tp b = step_AfterColonWs b"
| "step AfterColon2 tp b = step_AfterColon2 b"
| "step SawDash tp b = step_SawDash tp b"
| "step SawPipe tp b = step_SawPipe tp b"
| "step SawEq tp b = step_SawEq b"
| "step SawBang tp b = step_SawBang b"
| "step SawGt tp b = step_SawGt tp b"
| "step SawLt tp b = step_SawLt tp b"
| "step SawAmp tp b = step_SawAmp b"
| "step SawTilde tp b = step_SawTilde b"

section \<open>The driver\<close>

record dead_state =
  ds_state :: string
  ds_stack_top :: string

record probe_result =
  alive :: bool
  consulted_ambient :: bool

record pda =
  pda_st :: state
  pda_stack :: "frame list"

definition pda_new :: pda where
  "pda_new = \<lparr>pda_st = Start, pda_stack = []\<rparr>"

definition advance :: "pda \<Rightarrow> u8 \<Rightarrow> (dead_state + unit) \<times> pda" where
  "advance p b =
    (let tp = vec_last (pda_stack p) in
     case step (pda_st p) tp b of
       Next n \<Rightarrow> (Inr (), p\<lparr>pda_st := n\<rparr>)
     | Push f n \<Rightarrow> (Inr (), p\<lparr>pda_st := n, pda_stack := vec_push (pda_stack p) f\<rparr>)
     | Pop n \<Rightarrow> (Inr (), p\<lparr>pda_st := n, pda_stack := vec_pop (pda_stack p)\<rparr>)
     | Dead \<Rightarrow>
        (Inl \<lparr>ds_state = state_name (pda_st p),
              ds_stack_top = (case tp of None \<Rightarrow> ''none'' | Some f \<Rightarrow> frame_name f)\<rparr>, p))"

definition is_accepting :: "pda \<Rightarrow> bool" where
  "is_accepting p \<longleftrightarrow>
    pda_stack p = [] \<and> step (pda_st p) None VALUE_BOUNDARY = Next AfterValue"

definition pda_reset :: "pda \<Rightarrow> pda" where
  "pda_reset p = p\<lparr>pda_st := Start, pda_stack := []\<rparr>"

definition pda_at :: "state \<Rightarrow> pda" where
  "pda_at st = \<lparr>pda_st = st, pda_stack = []\<rparr>"

definition stack_top :: "pda \<Rightarrow> frame option" where
  "stack_top p = vec_last (pda_stack p)"

text \<open>\<open>admits\<close> and \<open>probe\<close> return the answer and the contents they leave in the caller's
  scratch vector.\<close>

fun admits_loop :: "state \<Rightarrow> frame list \<Rightarrow> bytes \<Rightarrow> bool \<times> frame list" where
  "admits_loop st scratch [] = (True, scratch)"
| "admits_loop st scratch (b # bs) =
    (case step st (vec_last scratch) b of
       Next n \<Rightarrow> admits_loop n scratch bs
     | Push f n \<Rightarrow> admits_loop n (vec_push scratch f) bs
     | Pop n \<Rightarrow> admits_loop n (vec_pop scratch) bs
     | Dead \<Rightarrow> (False, scratch))"

definition admits :: "pda \<Rightarrow> bytes \<Rightarrow> frame list \<Rightarrow> bool \<times> frame list" where
  "admits p bs scratch = admits_loop (pda_st p) (pda_stack p) bs"

fun probe_loop :: "state \<Rightarrow> frame list \<Rightarrow> bytes \<Rightarrow> probe_result \<times> frame list" where
  "probe_loop st scratch [] = (\<lparr>alive = True, consulted_ambient = False\<rparr>, scratch)"
| "probe_loop st scratch (b # bs) =
    (case step st (vec_last scratch) b of
       Next n \<Rightarrow> probe_loop n scratch bs
     | Push f n \<Rightarrow> probe_loop n (vec_push scratch f) bs
     | Pop n \<Rightarrow> probe_loop n (vec_pop scratch) bs
     | Dead \<Rightarrow>
        (\<lparr>alive = False,
          consulted_ambient =
            (scratch = [] \<and> list_ex (\<lambda>f. step st (Some f) b \<noteq> Dead) ALL_FRAMES)\<rparr>,
         scratch))"

definition probe :: "pda \<Rightarrow> bytes \<Rightarrow> frame list \<Rightarrow> probe_result \<times> frame list" where
  "probe p bs scratch = probe_loop (pda_st p) (pda_stack p) bs"

end
