(* ===== verification/Pda_Props.thy ===== *)
theory Pda_Props
  imports Pda
begin

text \<open>
  What the transition function of the byte automaton guarantees.  The laws of \<open>step\<close> that
  every later proof uses (a \<open>Pop\<close> only for the closer of the top frame, the openers that
  push, independence of the stack below the top) come first; \<open>cfg_run\<close> is the reference
  semantics, a plain fold of \<open>step\<close> over a configuration, to which the three loops of the
  driver (\<open>advance\<close>, \<open>admits\<close>, \<open>probe\<close>) are related; then the reachable-configuration
  invariant, the completion of every reachable configuration to an accepted query, and the
  balance of delimiters.
\<close>

section \<open>Laws of the transition function\<close>

definition closer :: "frame \<Rightarrow> u8" where
  "closer f = (case f of Paren \<Rightarrow> CHR '')'' | Bracket \<Rightarrow> CHR '']''
                       | Brace \<Rightarrow> CHR ''}'' | BraceLambda \<Rightarrow> CHR ''}'')"

definition opener :: "frame \<Rightarrow> u8" where
  "opener f = (case f of Paren \<Rightarrow> CHR ''('' | Bracket \<Rightarrow> CHR ''[''
                       | Brace \<Rightarrow> CHR ''{'' | BraceLambda \<Rightarrow> CHR ''{'')"

lemma closer_simps [simp]:
  "closer Paren = CHR '')''" "closer Bracket = CHR '']''"
  "closer Brace = CHR ''}''" "closer BraceLambda = CHR ''}''"
  by (simp_all add: closer_def)

lemma opener_simps [simp]:
  "opener Paren = CHR ''(''" "opener Bracket = CHR ''[''"
  "opener Brace = CHR ''{''" "opener BraceLambda = CHR ''{''"
  by (simp_all add: opener_def)

lemma close_eq:
  "close tp b = (case tp of None \<Rightarrow> Dead | Some f \<Rightarrow> if b = closer f then Pop AfterValue else Dead)"
  by (simp add: close_def closer_def split: option.split frame.split)

lemma close_Pop_iff [simp]:
  "close tp b = Pop n \<longleftrightarrow> n = AfterValue \<and> (\<exists>f. tp = Some f \<and> b = closer f)"
  by (auto simp: close_eq split: option.splits)

lemma close_neq [simp]: "close tp b \<noteq> Next n" "close tp b \<noteq> Push f n" "close None b = Dead"
  by (auto simp: close_eq split: option.splits)

text \<open>The states whose configurations carry no constraint on the frames beyond the
  position of \<open>Brace\<close>.\<close>

definition special :: "state list" where
  "special = [Start, ExpectSource, AfterBraceOpen, BlockStmt, BlockStmtClose, InSourceIdent,
     SourceColon, SourceColon2, SourceDash, LetL, LetLe, LetLet, ExpectBinder, InBinder,
     AfterBinder, InMultiplicity]"

definition generic :: "state \<Rightarrow> bool" where
  "generic st \<longleftrightarrow> st \<notin> set special"

lemmas generic_simps = generic_def special_def

subsection \<open>The hubs\<close>

lemma value_position_Pop:
  "value_position tp b ac = Pop n \<Longrightarrow> n = AfterValue \<and> (\<exists>f. tp = Some f \<and> b = closer f)"
  by (auto simp: value_position_def Let_def split: if_splits)

lemma value_position_Next:
  "value_position tp b ac = Next n \<Longrightarrow> generic n \<or> (n = InMultiplicity \<and> tp = Some Bracket)"
  by (auto simp: value_position_def generic_simps Let_def split: if_splits)

lemma value_position_Push:
  "value_position tp b ac = Push f n \<Longrightarrow>
    b = opener f \<and> f \<noteq> Brace \<and> n \<in> {ExpectValue, ExpectBraceBinder}"
  by (auto simp: value_position_def Let_def split: if_splits)

lemma block_stmt_Pop:
  "block_stmt tp b ac = Pop n \<Longrightarrow> n = AfterValue \<and> (\<exists>f. tp = Some f \<and> b = closer f)"
  by (auto simp: block_stmt_def Let_def split: if_splits)

lemma block_stmt_Next:
  "block_stmt tp b ac = Next n \<Longrightarrow> n \<in> {BlockStmt, BlockStmtClose, LetL, InSourceIdent, AfterDollar}"
  by (auto simp: block_stmt_def Let_def split: if_splits)

lemma block_stmt_Push [simp]: "block_stmt tp b ac \<noteq> Push f n"
  by (auto simp: block_stmt_def Let_def split: if_splits)

lemma step_AfterValue_Pop:
  "step_AfterValue tp b = Pop n \<Longrightarrow> n = AfterValue \<and> (\<exists>f. tp = Some f \<and> b = closer f)"
  by (auto simp: step_AfterValue_def split: if_splits)

lemma step_AfterValue_Next:
  "step_AfterValue tp b = Next n \<Longrightarrow> generic n \<or> (n = BlockStmtClose \<and> tp = Some Brace)"
  by (auto simp: step_AfterValue_def generic_simps split: if_splits)

lemma step_AfterValue_Push:
  "step_AfterValue tp b = Push f n \<Longrightarrow>
    b = opener f \<and> f \<noteq> Brace \<and> n \<in> {ExpectValue, ExpectBraceBinder}"
  by (auto simp: step_AfterValue_def split: if_splits)

lemma step_InSourceIdent_cases [simp]: "step_InSourceIdent b \<noteq> Pop n" "step_InSourceIdent b \<noteq> Push f n"
  by (auto simp: step_InSourceIdent_def split: if_splits)

lemma step_InSourceIdent_Next:
  "step_InSourceIdent b = Next n \<Longrightarrow> n \<in> {InSourceIdent, AfterDot, SourceDash, SourceColon}"
  by (auto simp: step_InSourceIdent_def split: if_splits)

lemma if_mono:
  "(if c then a else x) \<noteq> Dead \<Longrightarrow> (x \<noteq> Dead \<Longrightarrow> y = x)
    \<Longrightarrow> (if c then a else y) = (if c then a else x)"
  by auto

lemma value_position_mono:
  "value_position None b ac \<noteq> Dead \<Longrightarrow> value_position (Some f) b ac = value_position None b ac"
  by (auto simp: value_position_def Let_def split: if_splits)

lemma block_stmt_mono:
  "block_stmt None b ac \<noteq> Dead \<Longrightarrow> block_stmt (Some f) b ac = block_stmt None b ac"
  by (auto simp: block_stmt_def Let_def split: if_splits)

lemma step_AfterValue_mono:
  "step_AfterValue None b \<noteq> Dead \<Longrightarrow> step_AfterValue (Some f) b = step_AfterValue None b"
  unfolding step_AfterValue_def by (erule if_mono | simp split: if_split_asm)+

subsection \<open>The whole function\<close>

lemma step_Pop: "step st tp b = Pop n \<Longrightarrow> n = AfterValue \<and> (\<exists>f. tp = Some f \<and> b = closer f)"
  by (cases st)
    (auto simp: step_defs split: if_splits
      dest: value_position_Pop block_stmt_Pop step_AfterValue_Pop)

lemma step_Push:
  "step st tp b = Push f n \<Longrightarrow>
    b = opener f \<and> (f = Brace \<longrightarrow> st = Start) \<and>
    n \<in> {ExpectValue, ExpectBraceBinder, AfterBraceOpen}"
  by (cases st)
    (auto simp: step_defs split: if_splits dest: value_position_Push step_AfterValue_Push)

lemma step_mono: "step st None b \<noteq> Dead \<Longrightarrow> step st (Some f) b = step st None b"
  by (cases st)
    (auto simp: step_defs value_position_mono block_stmt_mono step_AfterValue_mono
      split: if_splits)

lemma step_None_not_Pop [simp]: "step st None b \<noteq> Pop n"
  using step_Pop by fastforce

lemma step_live_mono: "step st None b \<noteq> Dead \<Longrightarrow> step st tp b = step st None b"
  by (cases tp) (simp_all add: step_mono)

section \<open>Reference semantics: a fold over configurations\<close>

type_synonym config = "state \<times> frame list"

definition cfg_step :: "config \<Rightarrow> u8 \<Rightarrow> config option" where
  "cfg_step c b =
    (case step (fst c) (vec_last (snd c)) b of
       Next n \<Rightarrow> Some (n, snd c)
     | Push f n \<Rightarrow> Some (n, snd c @ [f])
     | Pop n \<Rightarrow> Some (n, butlast (snd c))
     | Dead \<Rightarrow> None)"

fun cfg_run :: "config \<Rightarrow> bytes \<Rightarrow> config option" where
  "cfg_run c [] = Some c"
| "cfg_run c (b # bs) = (case cfg_step c b of None \<Rightarrow> None | Some c' \<Rightarrow> cfg_run c' bs)"

definition cfg_of :: "pda \<Rightarrow> config" where
  "cfg_of p = (pda_st p, pda_stack p)"

lemma cfg_of_simps [simp]:
  "cfg_of pda_new = (Start, [])" "cfg_of (pda_reset p) = (Start, [])" "cfg_of (pda_at st) = (st, [])"
  by (simp_all add: cfg_of_def pda_new_def pda_reset_def pda_at_def)

lemma cfg_of_eq_iff: "cfg_of p = cfg_of q \<longleftrightarrow> p = q"
  by (cases p; cases q) (simp add: cfg_of_def)

lemma cfg_run_append:
  "cfg_run c (xs @ ys) = (case cfg_run c xs of None \<Rightarrow> None | Some c' \<Rightarrow> cfg_run c' ys)"
  by (induction c xs rule: cfg_run.induct) (auto split: option.split)

lemma cfg_run_appendI:
  "cfg_run c xs = Some c' \<Longrightarrow> cfg_run c' ys = r \<Longrightarrow> cfg_run c (xs @ ys) = r"
  by (simp add: cfg_run_append)

text \<open>Dead configurations stay dead: the live streams are closed under prefixes.\<close>

lemma cfg_run_prefix_live: "cfg_run c (xs @ ys) \<noteq> None \<Longrightarrow> cfg_run c xs \<noteq> None"
  by (auto simp: cfg_run_append split: option.splits)

subsection \<open>The driver's loops compute the fold\<close>

lemma advance_ok_iff: "fst (advance p b) = Inr () \<longleftrightarrow> cfg_step (cfg_of p) b \<noteq> None"
  by (simp add: advance_def cfg_step_def cfg_of_def Let_def split: pda_step.split)

lemma advance_cfg:
  "cfg_of (snd (advance p b)) = (case cfg_step (cfg_of p) b of None \<Rightarrow> cfg_of p | Some c \<Rightarrow> c)"
  by (simp add: advance_def cfg_step_def cfg_of_def Let_def split: pda_step.split)

lemma advance_Inl_unchanged: "fst (advance p b) = Inl e \<Longrightarrow> snd (advance p b) = p"
  by (simp add: advance_def Let_def split: pda_step.splits)

lemma advance_Inl_names:
  "fst (advance p b) = Inl e \<Longrightarrow>
    e = \<lparr>ds_state = state_name (pda_st p),
         ds_stack_top = (case stack_top p of None \<Rightarrow> ''none'' | Some f \<Rightarrow> frame_name f)\<rparr>"
  by (simp add: advance_def stack_top_def Let_def split: pda_step.splits)

lemma admits_loop_cfg: "fst (admits_loop st fs bs) \<longleftrightarrow> cfg_run (st, fs) bs \<noteq> None"
  by (induction st fs bs rule: admits_loop.induct) (auto simp: cfg_step_def split: pda_step.split)

lemma admits_cfg: "fst (admits p bs scratch) \<longleftrightarrow> cfg_run (cfg_of p) bs \<noteq> None"
  by (simp add: admits_def cfg_of_def admits_loop_cfg)

lemma probe_loop_alive: "alive (fst (probe_loop st fs bs)) \<longleftrightarrow> cfg_run (st, fs) bs \<noteq> None"
  by (induction st fs bs rule: probe_loop.induct) (auto simp: cfg_step_def split: pda_step.split)

subsection \<open>Frames below the top are never read\<close>

lemma cfg_step_ambient:
  assumes "cfg_step (st, fs) b = Some (st', fs')"
  shows "cfg_step (st, amb @ fs) b = Some (st', amb @ fs')"
proof (cases "fs = []")
  case True
  with assms show ?thesis
    by (auto simp: cfg_step_def vec_last_append step_live_mono [of st b] split: pda_step.splits)
next
  case False
  with assms show ?thesis
    by (auto simp: cfg_step_def vec_last_append butlast_append split: pda_step.splits)
qed

lemma cfg_run_ambient:
  "cfg_run (st, fs) bs = Some (st', fs') \<Longrightarrow> cfg_run (st, amb @ fs) bs = Some (st', amb @ fs')"
proof (induction bs arbitrary: st fs)
  case Nil
  then show ?case by simp
next
  case (Cons b bs)
  from Cons.prems obtain st1 fs1 where one: "cfg_step (st, fs) b = Some (st1, fs1)"
    and rest: "cfg_run (st1, fs1) bs = Some (st', fs')"
    by (auto split: option.splits)
  from one have "cfg_step (st, amb @ fs) b = Some (st1, amb @ fs1)" by (rule cfg_step_ambient)
  with Cons.IH [OF rest] show ?case by simp
qed

text \<open>The context-dependence classifier of \<open>probe\<close> over an empty scratch decides exactly
  the tokens whose fate the ambient stack cannot change.\<close>

lemma in_ALL_FRAMES [simp]: "f \<in> set ALL_FRAMES"
  by (cases f) (simp_all add: ALL_FRAMES_def)

lemma ALL_FRAMES_ex: "list_ex P ALL_FRAMES \<longleftrightarrow> (\<exists>f. P f)"
  by (auto simp: list_ex_iff)

lemma probe_loop_dead:
  assumes "\<not> alive (fst (probe_loop st fs bs))"
    and "\<not> consulted_ambient (fst (probe_loop st fs bs))"
  shows "cfg_run (st, amb @ fs) bs = None"
  using assms
proof (induction st fs bs rule: probe_loop.induct)
  case (1 st scratch)
  then show ?case by simp
next
  case (2 st scratch b bs)
  show ?case
  proof (cases "cfg_step (st, scratch) b")
    case (Some c)
    moreover obtain st1 fs1 where c: "c = (st1, fs1)" by (cases c)
    ultimately have amb: "cfg_step (st, amb @ scratch) b = Some (st1, amb @ fs1)"
      by (simp add: cfg_step_ambient)
    from Some c 2 have "cfg_run (st1, amb @ fs1) bs = None"
      by (auto simp: cfg_step_def split: pda_step.splits)
    with amb show ?thesis by simp
  next
    case None
    then have dead: "step st (vec_last scratch) b = Dead"
      by (simp add: cfg_step_def split: pda_step.splits)
    have "step st (vec_last (amb @ scratch)) b = Dead"
    proof (cases "scratch = []")
      case True
      with 2 dead have "\<forall>f. step st (Some f) b = Dead"
        by (auto simp: ALL_FRAMES_ex)
      with True dead show ?thesis by (cases "vec_last amb") (auto simp: vec_last_append)
    next
      case False
      with dead show ?thesis by (simp add: vec_last_append)
    qed
    then show ?thesis by (simp add: cfg_step_def)
  qed
qed

section \<open>Reachable configurations\<close>

text \<open>The frame stacks a state can be reached with.  A \<open>Brace\<close> (block query) can only be the
  bottom frame; the block-statement states sit directly on it; the states of a pipeline
  source sit on it or on the empty stack; \<open>InMultiplicity\<close> sits on a \<open>Bracket\<close>.\<close>

definition brace_bottom :: "frame list \<Rightarrow> bool" where
  "brace_bottom fs \<longleftrightarrow> Brace \<notin> set (tl fs)"

fun cfg_ok :: "state \<Rightarrow> frame list \<Rightarrow> bool" where
  "cfg_ok Start fs = (fs = [])"
| "cfg_ok ExpectSource fs = (fs \<in> {[], [Brace]})"
| "cfg_ok InSourceIdent fs = (fs \<in> {[], [Brace]})"
| "cfg_ok SourceColon fs = (fs \<in> {[], [Brace]})"
| "cfg_ok SourceColon2 fs = (fs \<in> {[], [Brace]})"
| "cfg_ok SourceDash fs = (fs \<in> {[], [Brace]})"
| "cfg_ok AfterBraceOpen fs = (fs = [Brace])"
| "cfg_ok BlockStmt fs = (fs = [Brace])"
| "cfg_ok BlockStmtClose fs = (fs = [Brace])"
| "cfg_ok LetL fs = (fs = [Brace])"
| "cfg_ok LetLe fs = (fs = [Brace])"
| "cfg_ok LetLet fs = (fs = [Brace])"
| "cfg_ok ExpectBinder fs = (fs = [Brace])"
| "cfg_ok InBinder fs = (fs = [Brace])"
| "cfg_ok AfterBinder fs = (fs = [Brace])"
| "cfg_ok InMultiplicity fs = (vec_last fs = Some Bracket \<and> brace_bottom fs)"
| "cfg_ok _ fs = brace_bottom fs"

lemma brace_bottom_simps [simp]:
  "brace_bottom []" "brace_bottom [f]"
  by (simp_all add: brace_bottom_def)

lemma brace_bottom_push: "brace_bottom fs \<Longrightarrow> f \<noteq> Brace \<Longrightarrow> brace_bottom (fs @ [f])"
  by (cases fs) (auto simp: brace_bottom_def)

lemma brace_bottom_pop: "brace_bottom fs \<Longrightarrow> brace_bottom (butlast fs)"
  by (cases fs rule: rev_cases) (auto simp: brace_bottom_def tl_append split: list.splits)

lemma brace_bottom_top:
  assumes "brace_bottom fs" and "vec_last fs = Some Brace"
  shows "fs = [Brace]"
proof -
  from assms(2) obtain gs where "fs = gs @ [Brace]" by (elim vec_last_SomeE)
  with assms(1) show ?thesis by (cases gs) (auto simp: brace_bottom_def)
qed

lemma cfg_ok_generic: "generic st \<Longrightarrow> cfg_ok st fs = brace_bottom fs"
  by (cases st) (simp_all add: generic_simps)

lemma cfg_ok_brace_bottom: "cfg_ok st fs \<Longrightarrow> brace_bottom fs"
  by (cases st) auto

text \<open>Where a \<open>Next\<close> can lead, stated through \<open>cfg_ok\<close>.\<close>

lemma hub_Next_ok:
  "value_position (vec_last fs) b ac = Next n \<Longrightarrow> brace_bottom fs \<Longrightarrow> cfg_ok n fs"
  "step_AfterValue (vec_last fs) b = Next n \<Longrightarrow> brace_bottom fs \<Longrightarrow> cfg_ok n fs"
  "block_stmt (vec_last fs) b ac = Next n \<Longrightarrow> fs = [Brace] \<Longrightarrow> cfg_ok n fs"
  "step_InSourceIdent b = Next n \<Longrightarrow> fs \<in> {[], [Brace]} \<Longrightarrow> cfg_ok n fs"
  by (auto dest!: value_position_Next step_AfterValue_Next block_stmt_Next step_InSourceIdent_Next
      simp: cfg_ok_generic brace_bottom_top)

lemma step_Next_ok: "step st (vec_last fs) b = Next n \<Longrightarrow> cfg_ok st fs \<Longrightarrow> cfg_ok n fs"
  by (cases st) (auto simp: step_defs split: if_splits intro: hub_Next_ok)

lemma step_Push_ok: "step st tp b = Push f n \<Longrightarrow> cfg_ok st fs \<Longrightarrow> cfg_ok n (fs @ [f])"
  by (cases st)
    (auto simp: step_defs cfg_ok_generic brace_bottom_push split: if_splits
      dest!: value_position_Push step_AfterValue_Push)

lemma cfg_step_ok:
  assumes "cfg_step (st, fs) b = Some (st', fs')" and "cfg_ok st fs"
  shows "cfg_ok st' fs'"
  using assms step_Next_ok [of st fs b] step_Push_ok [of st "vec_last fs" b]
    step_Pop [of st "vec_last fs" b] brace_bottom_pop [of fs] cfg_ok_brace_bottom [of st fs]
  by (auto simp: cfg_step_def split: pda_step.splits)

lemma cfg_run_ok:
  "cfg_run (st, fs) bs = Some (st', fs') \<Longrightarrow> cfg_ok st fs \<Longrightarrow> cfg_ok st' fs'"
proof (induction bs arbitrary: st fs)
  case Nil
  then show ?case by simp
next
  case (Cons b bs)
  then show ?case
    by (auto split: option.splits intro: cfg_step_ok)
qed

inductive reachable :: "state \<Rightarrow> frame list \<Rightarrow> bool" where
  reach_init: "reachable Start []"
| reach_step: "reachable st fs \<Longrightarrow> cfg_step (st, fs) b = Some (st', fs') \<Longrightarrow> reachable st' fs'"

lemma reachable_ok: "reachable st fs \<Longrightarrow> cfg_ok st fs"
  by (induction rule: reachable.induct) (auto intro: cfg_step_ok)

lemma reachable_run:
  "cfg_run (st, fs) bs = Some (st', fs') \<Longrightarrow> reachable st fs \<Longrightarrow> reachable st' fs'"
proof (induction bs arbitrary: st fs)
  case Nil
  then show ?case by simp
next
  case (Cons b bs)
  then show ?case by (auto split: option.splits intro: reach_step)
qed

lemma reachable_iff: "reachable st fs \<longleftrightarrow> (\<exists>bs. cfg_run (Start, []) bs = Some (st, fs))"
proof
  show "reachable st fs \<Longrightarrow> \<exists>bs. cfg_run (Start, []) bs = Some (st, fs)"
  proof (induction rule: reachable.induct)
    case reach_init
    have "cfg_run (Start, []) [] = Some (Start, [])" by simp
    then show ?case by blast
  next
    case (reach_step st fs b st' fs')
    then obtain bs where "cfg_run (Start, []) bs = Some (st, fs)" by blast
    then have "cfg_run (Start, []) (bs @ [b]) = Some (st', fs')"
      using reach_step.hyps(2) by (auto intro: cfg_run_appendI)
    then show ?case by blast
  qed
qed (auto intro: reachable_run reach_init)

section \<open>Every reachable configuration can be completed\<close>

text \<open>\<open>to_value st\<close> is a byte string that takes \<open>st\<close> to \<open>AfterValue\<close>.\<close>

fun to_value :: "state \<Rightarrow> bytes" where
  "to_value Start = ''|X.a ''"
| "to_value ExpectSource = ''X.a ''"
| "to_value AfterBraceOpen = ''|X.a ''"
| "to_value BlockStmt = ''X.a ''"
| "to_value BlockStmtClose = ''X.a ''"
| "to_value InSourceIdent = ''.a ''"
| "to_value SourceColon = '':X.a ''"
| "to_value SourceColon2 = ''X.a ''"
| "to_value SourceDash = ''>a ''"
| "to_value LetL = ''.a ''"
| "to_value LetLe = ''.a ''"
| "to_value LetLet = ''.a ''"
| "to_value ExpectBinder = ''m=X.a ''"
| "to_value InBinder = ''=X.a ''"
| "to_value AfterBinder = ''=X.a ''"
| "to_value InMultiplicity = '']''"
| "to_value AfterValue = []"
| "to_value InIdent = '' ''"
| "to_value SawNumSign = ''1 ''"
| "to_value InNumberInt = '' ''"
| "to_value NeedFracDigit = ''1 ''"
| "to_value InNumberFrac = '' ''"
| "to_value SawExp = ''1 ''"
| "to_value NeedExpDigit = ''1 ''"
| "to_value InExp = '' ''"
| "to_value (InStrLit False) = [CHR 0x27, CHR '' '']"
| "to_value (InStrLit True) = '' ''"
| "to_value SawPercent = ''T ''"
| "to_value InDateLit = '' ''"
| "to_value InMilestoneLit = '' ''"
| "to_value SawEq = ''=a ''"
| "to_value SawBang = ''=a ''"
| "to_value SawAmp = ''&a ''"
| "to_value _ = ''a ''"

lemmas byte_eval = lex_class_defs byte_class_defs

lemma to_value_run:
  assumes "cfg_ok st fs"
  shows "\<exists>fs'. cfg_run (st, fs) (to_value st) = Some (AfterValue, fs')"
  using assms
  by (cases st rule: to_value.cases)
    (auto simp: cfg_step_def step_defs hub_defs byte_eval Let_def)

definition closers :: "frame list \<Rightarrow> bytes" where
  "closers fs = map closer (rev fs)"

lemma closers_run: "cfg_run (AfterValue, fs) (closers fs) = Some (AfterValue, [])"
proof (induction fs rule: rev_induct)
  case Nil
  then show ?case by (simp add: closers_def)
next
  case (snoc f fs)
  have "cfg_step (AfterValue, fs @ [f]) (closer f) = Some (AfterValue, fs)"
    by (cases f) (simp_all add: cfg_step_def step_AfterValue_def close_eq byte_eval)
  with snoc show ?case by (simp add: closers_def)
qed

lemma accepting_AfterValue: "is_accepting \<lparr>pda_st = AfterValue, pda_stack = []\<rparr>"
  by (simp add: is_accepting_def step_AfterValue_def VALUE_BOUNDARY_def byte_eval)

lemma completable:
  assumes "cfg_ok st fs"
  shows "\<exists>bs. cfg_run (st, fs) bs = Some (AfterValue, [])"
proof -
  from to_value_run [OF assms] obtain fs' where
    "cfg_run (st, fs) (to_value st) = Some (AfterValue, fs')" by blast
  with closers_run [of fs'] have "cfg_run (st, fs) (to_value st @ closers fs') = Some (AfterValue, [])"
    by (auto intro: cfg_run_appendI)
  then show ?thesis by blast
qed

section \<open>Accepting configurations\<close>

lemma step_space_iff:
  "step st None VALUE_BOUNDARY = Next AfterValue \<longleftrightarrow>
    st \<in> {AfterValue, InIdent, InNumberInt, InNumberFrac, InExp, InStrLit True, InDateLit, InMilestoneLit}"
  by (cases st) (simp_all add: VALUE_BOUNDARY_def step_defs hub_defs byte_eval Let_def)

lemma is_accepting_iff_states:
  "is_accepting p \<longleftrightarrow> pda_stack p = [] \<and>
    pda_st p \<in> {AfterValue, InIdent, InNumberInt, InNumberFrac, InExp, InStrLit True, InDateLit,
                InMilestoneLit}"
  unfolding is_accepting_def step_space_iff ..

section \<open>Feeding a byte string\<close>

fun feed :: "pda \<Rightarrow> bytes \<Rightarrow> (dead_state + unit) \<times> pda" where
  "feed p [] = (Inr (), p)"
| "feed p (b # bs) =
    (case advance p b of
       (Inr _, p') \<Rightarrow> feed p' bs
     | (Inl e, p') \<Rightarrow> (Inl e, p'))"

lemma advance_eq:
  "advance p b =
    (case cfg_step (cfg_of p) b of
       Some c \<Rightarrow> (Inr (), \<lparr>pda_st = fst c, pda_stack = snd c\<rparr>)
     | None \<Rightarrow> (Inl \<lparr>ds_state = state_name (pda_st p),
                    ds_stack_top = (case stack_top p of None \<Rightarrow> ''none''
                                    | Some f \<Rightarrow> frame_name f)\<rparr>, p))"
  by (cases p) (simp add: advance_def cfg_step_def cfg_of_def stack_top_def Let_def
      split: pda_step.split)

lemma feed_ok_iff: "feed p bs = (Inr (), q) \<longleftrightarrow> cfg_run (cfg_of p) bs = Some (cfg_of q)"
proof (induction p bs rule: feed.induct)
  case (1 p)
  then show ?case by (auto simp: cfg_of_eq_iff)
next
  case (2 p b bs)
  show ?case
  proof (cases "cfg_step (cfg_of p) b")
    case None
    then show ?thesis by (simp add: advance_eq)
  next
    case (Some c)
    define p' where "p' = \<lparr>pda_st = fst c, pda_stack = snd c\<rparr>"
    have adv: "advance p b = (Inr (), p')" by (simp add: advance_eq Some p'_def)
    moreover have "cfg_of p' = c" by (simp add: p'_def cfg_of_def)
    moreover have "feed p' bs = (Inr (), q) \<longleftrightarrow> cfg_run (cfg_of p') bs = Some (cfg_of q)"
      using 2 adv by metis
    ultimately show ?thesis by (simp add: Some)
  qed
qed

lemma feed_new_iff: "feed pda_new bs = (Inr (), q) \<longleftrightarrow> cfg_run (Start, []) bs = Some (cfg_of q)"
  by (simp add: feed_ok_iff)

definition accepts :: "bytes \<Rightarrow> bool" where
  "accepts q \<longleftrightarrow> (case feed pda_new q of (Inr _, p) \<Rightarrow> is_accepting p | _ \<Rightarrow> False)"

lemma accepts_iff: "accepts q \<longleftrightarrow> (\<exists>p. feed pda_new q = (Inr (), p) \<and> is_accepting p)"
  by (auto simp: accepts_def split: prod.split sum.split)

section \<open>Balanced delimiters\<close>

text \<open>The reference: scan the bytes with a quote flag and a stack of open delimiters.\<close>

fun delim_scan :: "bool \<Rightarrow> u8 list \<Rightarrow> bytes \<Rightarrow> (bool \<times> u8 list) option" where
  "delim_scan q ds [] = Some (q, ds)"
| "delim_scan q ds (b # bs) =
    (if b = CHR 0x27 then delim_scan (\<not> q) ds bs
     else if q then delim_scan q ds bs
     else if b \<in> {CHR ''('', CHR ''['', CHR ''{''} then delim_scan q (ds @ [b]) bs
     else if b \<in> {CHR '')'', CHR '']'', CHR ''}''} then
       (case vec_last ds of
          None \<Rightarrow> None
        | Some d \<Rightarrow>
            if (d, b) \<in> {(CHR ''('', CHR '')''), (CHR ''['', CHR '']''), (CHR ''{'', CHR ''}'')}
            then delim_scan q (butlast ds) bs else None)
     else delim_scan q ds bs)"

lemma hub_quote:
  "value_position tp (CHR 0x27) ac = Next (InStrLit False)"
  "step_AfterValue tp (CHR 0x27) = Dead"
  "block_stmt tp (CHR 0x27) ac = Dead"
  "step_InSourceIdent (CHR 0x27) = Dead"
  by (simp_all add: hub_defs byte_eval Let_def)

lemma step_quote:
  "step st tp (CHR 0x27) = r \<Longrightarrow> st \<noteq> InStrLit False \<Longrightarrow> r \<in> {Dead, Next (InStrLit False)}"
  by (cases st) (auto simp: step_defs hub_quote byte_eval split: if_splits)

lemma delim_class:
  assumes "b \<in> {CHR ''('', CHR ''['', CHR ''{'', CHR '')'', CHR '']'', CHR ''}''}"
  shows "\<not> is_ws b" "\<not> is_ident_start b" "\<not> is_ident_tail b" "\<not> is_ascii_digit b"
    "\<not> is_date_char b" "\<not> is_ascii_lowercase b"
  using assms by (elim insertE emptyE; simp add: byte_eval)+

lemma hub_delim:
  assumes "b \<in> {CHR ''('', CHR ''['', CHR ''{'', CHR '')'', CHR '']'', CHR ''}''}"
  shows "value_position tp b ac \<noteq> Next n" "step_AfterValue tp b \<noteq> Next n"
    "block_stmt tp b ac \<noteq> Next n" "step_InSourceIdent b \<noteq> Next n"
proof -
  note cls = delim_class [OF assms]
  show "value_position tp b ac \<noteq> Next n"
    using assms by (elim insertE emptyE) (insert cls, simp_all add: value_position_def Let_def)
  show "step_AfterValue tp b \<noteq> Next n"
    using assms by (elim insertE emptyE) (insert cls, simp_all add: step_AfterValue_def)
  show "block_stmt tp b ac \<noteq> Next n"
    using assms by (elim insertE emptyE) (insert cls, simp_all add: block_stmt_def Let_def)
  show "step_InSourceIdent b \<noteq> Next n"
    using assms by (elim insertE emptyE) (insert cls, simp_all add: step_InSourceIdent_def)
qed

lemma step_delim:
  assumes "b \<in> {CHR ''('', CHR ''['', CHR ''{'', CHR '')'', CHR '']'', CHR ''}''}"
    and "st \<noteq> InStrLit False"
  shows "step st tp b \<noteq> Next n"
proof -
  note facts = hub_delim [OF assms(1)] delim_class [OF assms(1)]
  have ne: "b \<notin> {CHR 0x27, CHR ''|'', CHR ''='', CHR ''>'', CHR ''-'', CHR ''+'', CHR ''.'',
      CHR ''e'', CHR ''E'', CHR ''t'', CHR ''&'', CHR '':''}"
    using assms(1) by (elim insertE emptyE) simp_all
  show ?thesis using assms(2) ne by (cases st) (simp_all add: step_defs facts)
qed

lemma value_position_string: "value_position tp b ac = Next (InStrLit e) \<Longrightarrow> b = CHR 0x27 \<and> \<not> e"
  by (auto simp: value_position_def Let_def split: if_splits)

lemma step_AfterValue_string: "step_AfterValue tp b \<noteq> Next (InStrLit e)"
  by (auto simp: step_AfterValue_def split: if_splits)

lemma hub_string [simp]: "block_stmt tp b ac \<noteq> Next (InStrLit e)" "step_InSourceIdent b \<noteq> Next (InStrLit e)"
  by (auto dest: block_stmt_Next step_InSourceIdent_Next)

lemma step_no_string:
  "step st tp b = Next n \<Longrightarrow> b \<noteq> CHR 0x27 \<Longrightarrow> st \<noteq> InStrLit False \<Longrightarrow> n \<noteq> InStrLit False"
  by (cases st)
    (auto simp: step_defs step_AfterValue_string split: if_splits dest: value_position_string)

lemma opener_in: "opener f \<in> {CHR ''('', CHR ''['', CHR ''{''}"
  by (cases f) simp_all

lemma opener_closer:
  "(opener f, closer f) \<in> {(CHR ''('', CHR '')''), (CHR ''['', CHR '']''), (CHR ''{'', CHR ''}'')}"
  by (cases f) simp_all

lemma delim_scan_step:
  assumes "cfg_step (st, fs) b = Some (st', fs')"
  shows "delim_scan (st = InStrLit False) (map opener fs) (b # bs) =
    delim_scan (st' = InStrLit False) (map opener fs') bs"
proof (cases "st = InStrLit False")
  case True
  with assms show ?thesis
    by (auto simp: cfg_step_def step_InStrLit_def split: if_splits)
next
  case False
  note st = False
  show ?thesis
  proof (cases "b = CHR 0x27")
    case True
    with st assms step_quote [of st "vec_last fs"] show ?thesis
      by (auto simp: cfg_step_def split: pda_step.splits)
  next
    case False
    show ?thesis
    proof (cases "step st (vec_last fs) b")
      case (Next n)
      with False st have "b \<notin> {CHR ''('', CHR ''['', CHR ''{'', CHR '')'', CHR '']'', CHR ''}''}"
        using step_delim by blast
      moreover have "n \<noteq> InStrLit False" using step_no_string Next False st by blast
      ultimately show ?thesis using Next assms st False by (auto simp: cfg_step_def)
    next
      case (Push f n)
      with step_Push have "b = opener f" and "n \<noteq> InStrLit False" by fastforce+
      with Push assms st False opener_in [of f] show ?thesis by (auto simp: cfg_step_def)
    next
      case (Pop n)
      with step_Pop obtain f where f: "vec_last fs = Some f" "b = closer f" "n = AfterValue"
        by blast
      with Pop assms st False opener_closer [of f] show ?thesis
        by (auto simp: cfg_step_def vec_last_map map_butlast)
    next
      case Dead
      with assms show ?thesis by (simp add: cfg_step_def)
    qed
  qed
qed

lemma delim_scan_run:
  "cfg_run (st, fs) bs = Some (st', fs') \<Longrightarrow>
    delim_scan (st = InStrLit False) (map opener fs) bs = Some (st' = InStrLit False, map opener fs')"
proof (induction bs arbitrary: st fs)
  case Nil
  then show ?case by simp
next
  case (Cons b bs)
  from Cons.prems obtain st1 fs1 where one: "cfg_step (st, fs) b = Some (st1, fs1)"
    and rest: "cfg_run (st1, fs1) bs = Some (st', fs')"
    by (auto split: option.splits)
  show ?case using delim_scan_step [OF one, of bs] Cons.IH [OF rest] by simp
qed

section \<open>The dense index\<close>

definition all_states :: "state list" where
  "all_states =
    [Start, ExpectSource, AfterBraceOpen, BlockStmt, BlockStmtClose, InSourceIdent, SourceColon,
     SourceColon2, SourceDash, LetL, LetLe, LetLet, ExpectBinder, InBinder, AfterBinder,
     InMultiplicity, ExpectBraceBinder, AfterColonWs, ExpectValue, ExpectValueReq, AfterValue,
     InIdent, SawNumSign, InNumberInt, NeedFracDigit, InNumberFrac, InStrLit False,
     InStrLit True, SawPercent, InDateLit, AfterDollar, AfterDot, AfterArrow, AfterColon,
     AfterColon2, SawDash, SawPipe, SawEq, SawBang, SawGt, SawLt, SawAmp, InMilestoneLit,
     SawTilde, SawExp, NeedExpDigit, InExp]"

lemma all_states_nth: "all_states ! state_index s = s"
  by (cases s rule: state_index.cases) (simp_all add: all_states_def)

lemma state_index_less [simp]: "state_index s < state_count"
  by (cases s rule: state_index.cases) (simp_all add: state_count_def)

lemma state_index_eq_iff [simp]: "state_index s = state_index t \<longleftrightarrow> s = t"
  by (metis all_states_nth)

text \<open>A verdict that did not consult the ambient stack is the verdict at every stack; one that did
  is a rejection at the empty stack.\<close>

lemma probe_verdict:
  assumes "\<not> consulted_ambient (fst (probe (pda_at (pda_st p)) bs scratch))"
  shows "fst (admits p bs scratch') = alive (fst (probe (pda_at (pda_st p)) bs scratch))"
proof (cases "alive (fst (probe (pda_at (pda_st p)) bs scratch))")
  case True
  then obtain st' fs' where "cfg_run (pda_st p, []) bs = Some (st', fs')"
    by (auto simp: probe_def pda_at_def probe_loop_alive)
  from cfg_run_ambient [OF this, of "pda_stack p"] True show ?thesis
    by (simp add: admits_cfg cfg_of_def)
next
  case False
  with assms have "cfg_run (pda_st p, pda_stack p @ []) bs = None"
    by (intro probe_loop_dead) (simp_all add: probe_def pda_at_def)
  with False show ?thesis by (simp add: admits_cfg cfg_of_def)
qed

lemma probe_consulted_dead:
  assumes "consulted_ambient (fst (probe (pda_at st) bs scratch))"
  shows "cfg_run (st, []) bs = None"
proof -
  have "consulted_ambient (fst (probe_loop st' fs bs)) \<Longrightarrow> \<not> alive (fst (probe_loop st' fs bs))" for st' fs
    by (induction bs arbitrary: st' fs) (auto split: pda_step.splits)
  from this [of st "[]"] assms have "\<not> alive (fst (probe_loop st [] bs))"
    by (simp add: probe_def pda_at_def)
  then show ?thesis unfolding probe_loop_alive by blast
qed

section \<open>Properties of the byte automaton\<close>

text \<open>C6: every stream the automaton has not rejected can be continued to a complete query,
  so a decoder that only ever feeds live bytes is never trapped.\<close>

theorem live_stream_completable:
  assumes "feed pda_new bs = (Inr (), p)"
  shows "\<exists>rest q. feed p rest = (Inr (), q) \<and> is_accepting q"
proof -
  from assms have "cfg_run (Start, []) bs = Some (pda_st p, pda_stack p)"
    by (simp add: feed_new_iff cfg_of_def)
  then have "cfg_ok (pda_st p) (pda_stack p)" by (rule cfg_run_ok) simp
  then obtain rest where "cfg_run (cfg_of p) rest = Some (AfterValue, [])"
    using completable by (auto simp: cfg_of_def)
  then have "feed p rest = (Inr (), \<lparr>pda_st = AfterValue, pda_stack = []\<rparr>)"
    by (simp add: feed_ok_iff cfg_of_def)
  with accepting_AfterValue show ?thesis by blast
qed

theorem live_stream_completable_witness:
  "\<exists>rest q. feed (snd (feed pda_new ''{|let m = A::B.all(); $m->f([*''))
     rest = (Inr (), q) \<and> is_accepting q"
proof -
  have "fst (feed pda_new ''{|let m = A::B.all(); $m->f([*'') = Inr ()" by code_simp
  then have "feed pda_new ''{|let m = A::B.all(); $m->f([*'' =
      (Inr (), snd (feed pda_new ''{|let m = A::B.all(); $m->f([*''))"
    by (metis prod.collapse)
  then show ?thesis by (rule live_stream_completable)
qed

text \<open>C13: in every accepted query the delimiters outside string literals are balanced and
  properly nested, and no string literal is left open.\<close>

theorem accepted_query_balanced:
  assumes "accepts q"
  shows "delim_scan False [] q = Some (False, [])"
proof -
  from assms obtain p where "feed pda_new q = (Inr (), p)" and acc: "is_accepting p"
    by (auto simp: accepts_iff)
  then have "cfg_run (Start, []) q = Some (pda_st p, pda_stack p)"
    by (simp add: feed_new_iff cfg_of_def)
  from delim_scan_run [OF this] acc show ?thesis
    by (auto simp: is_accepting_iff_states)
qed

theorem accepted_query_balanced_witness:
  "delim_scan False [] ''|X.all()->filter(x|$x.v == [(1)])'' = Some (False, [])"
  by (rule accepted_query_balanced) code_simp

text \<open>C38: when \<open>probe\<close> over the empty stack reports that a token's verdict did not depend on
  the ambient stack, that verdict is the one of \<open>admits\<close> at every live stack.\<close>

theorem probe_context_independent:
  assumes "\<not> consulted_ambient (fst (probe (pda_at (pda_st p)) bs scratch))"
  shows "fst (admits p bs scratch') = alive (fst (probe (pda_at (pda_st p)) bs scratch))"
  using assms by (rule probe_verdict)

theorem probe_context_independent_witness:
  "fst (admits \<lparr>pda_st = AfterDot, pda_stack = [Paren]\<rparr> ''name'' [Brace]) =
     alive (fst (probe (pda_at AfterDot) ''name'' []))"
  using probe_context_independent [of "\<lparr>pda_st = AfterDot, pda_stack = [Paren]\<rparr>" "''name''" "[]" "[Brace]"]
  by (simp add: probe_def pda_at_def step_defs byte_eval)

text \<open>The configurations in which end-of-stream is legal, spelled out.\<close>

lemma is_accepting_iff:
  "is_accepting p \<longleftrightarrow> pda_stack p = [] \<and>
    pda_st p \<in> {AfterValue, InIdent, InNumberInt, InNumberFrac, InExp, InStrLit True, InDateLit,
                InMilestoneLit}"
  by (rule is_accepting_iff_states)

text \<open>a rejected byte leaves the automaton as it was and reports the names of its state
  and of its top frame; an accepted byte moves it as the transition function says, and a
  frame is popped only when the byte is the closer of the frame on top.\<close>

theorem advance_cases:
  "case step (pda_st p) (stack_top p) b of
     Dead \<Rightarrow> advance p b = (Inl \<lparr>ds_state = state_name (pda_st p),
               ds_stack_top = (case stack_top p of None \<Rightarrow> ''none'' | Some f \<Rightarrow> frame_name f)\<rparr>, p)
   | Next n \<Rightarrow> advance p b = (Inr (), \<lparr>pda_st = n, pda_stack = pda_stack p\<rparr>)
   | Push f n \<Rightarrow> b = opener f \<and> advance p b = (Inr (), \<lparr>pda_st = n, pda_stack = pda_stack p @ [f]\<rparr>)
   | Pop n \<Rightarrow> (\<exists>fs f. pda_stack p = fs @ [f] \<and> b = closer f \<and>
                 advance p b = (Inr (), \<lparr>pda_st = AfterValue, pda_stack = fs\<rparr>))"
  using step_Pop [of "pda_st p" "stack_top p" b] step_Push [of "pda_st p" "stack_top p" b]
  by (cases p)
    (auto simp: advance_def stack_top_def Let_def elim!: vec_last_SomeE split: pda_step.split)

text \<open>C40: the frame-stack invariant: in every configuration a byte stream can reach, a block
  query's frame is the bottom one, the block-statement states sit directly on it, a pipeline
  source on it or on nothing, and a multiplicity star only inside a bracket.\<close>

theorem fed_configuration_ok:
  assumes "feed pda_new bs = (Inr (), p)"
  shows "cfg_ok (pda_st p) (pda_stack p)"
  using assms cfg_run_ok [of Start "[]" bs "pda_st p" "pda_stack p"]
  by (simp add: feed_new_iff cfg_of_def)

theorem fed_configuration_ok_witness:
  "cfg_ok (pda_st (snd (feed pda_new ''{|A.all();''))) (pda_stack (snd (feed pda_new ''{|A.all();'')))"
proof -
  have "fst (feed pda_new ''{|A.all();'') = Inr ()" by code_simp
  then have "feed pda_new ''{|A.all();'' = (Inr (), snd (feed pda_new ''{|A.all();''))"
    by (metis prod.collapse)
  then show ?thesis by (rule fed_configuration_ok)
qed

text \<open>The dense index is a bijection from the states onto \<open>0..COUNT\<close>, so the per-state
  cache of that length is never indexed out of range and no two states share an entry.\<close>

theorem state_index_bijective: "bij_betw state_index UNIV {0..<state_count}"
proof -
  have "inj state_index" by (rule injI) (metis all_states_nth)
  moreover have "{0..<state_count} = set (map state_index all_states)" by code_simp
  ultimately show ?thesis by (auto simp: bij_betw_def state_index_less)
qed

text \<open>a literal over the empty stack does end a query: a stream may stop inside a number
  or right after a string, contrary to the remark on \<open>is_accepting\<close> that top-level numbers
  and strings stay non-accepting in practice.\<close>

theorem top_level_literals_accept:
  "accepts ''|X.all() == 5'' \<and> pda_st (snd (feed pda_new ''|X.all() == 5'')) = InNumberInt \<and>
   accepts (''|X.'' @ [CHR 0x27] @ ''name'' @ [CHR 0x27])"
  by code_simp

end
