(* ===== verification/Compiled_Grammar.thy ===== *)
theory Compiled_Grammar
  imports Vocabulary Bit_Mask Pda_Props
begin

text \<open>
  The compiled grammar of \<open>src/src/grammar/compiled.rs\<close>: the vocabulary and one lazily
  filled partition of it per automaton state.  The \<open>OnceCell\<close> cells are options in a list
  indexed by \<open>state_index\<close>; \<open>cached_at\<close> returns the partition and the grammar with the cell
  filled, which is how the interior mutability of the source is threaded.
\<close>

record cached =
  ca_indep :: bit_mask
  ca_deferred :: "u32 list"

record compiled_grammar =
  cg_vocab :: vocab
  cg_cache :: "cached option list"

definition compile_grammar :: "vocab \<Rightarrow> compiled_grammar" where
  "compile_grammar v = \<lparr>cg_vocab = v, cg_cache = replicate state_count None\<rparr>"

definition from_spec :: "string \<Rightarrow> vocab \<Rightarrow> compiled_grammar" where
  "from_spec spec v = compile_grammar v"

definition eos_bit :: "compiled_grammar \<Rightarrow> u32" where
  "eos_bit g = word_of_nat (vocab_len (cg_vocab g))"

definition mask_len :: "compiled_grammar \<Rightarrow> usize" where
  "mask_len g = unat (eos_bit g) + 1"

definition build_token :: "pda \<Rightarrow> vocab \<Rightarrow> bit_mask \<times> u32 list \<times> frame list \<Rightarrow> u32
    \<Rightarrow> bit_mask \<times> u32 list \<times> frame list" where
  "build_token base v acc tok =
    (case acc of (indep, deferred, scratch) \<Rightarrow>
      (case probe base (token_bytes v tok) scratch of
         (pr, scratch') \<Rightarrow>
           if consulted_ambient pr then (indep, vec_push deferred tok, scratch')
           else if alive pr then (bm_set indep tok, deferred, scratch')
           else (indep, deferred, scratch')))"

definition build :: "state \<Rightarrow> vocab \<Rightarrow> usize \<Rightarrow> cached" where
  "build st v len =
    (case foldl (build_token (pda_at st) v) (with_len len, [], []) (token_ids v) of
       (indep, deferred, _) \<Rightarrow> \<lparr>ca_indep = indep, ca_deferred = deferred\<rparr>)"

definition cached_at :: "compiled_grammar \<Rightarrow> state \<Rightarrow> cached \<times> compiled_grammar" where
  "cached_at g st =
    (case cg_cache g ! state_index st of
       Some c \<Rightarrow> (c, g)
     | None \<Rightarrow>
        (let c = build st (cg_vocab g) (mask_len g)
         in (c, g\<lparr>cg_cache := (cg_cache g)[state_index st := Some c]\<rparr>)))"

section \<open>The partition\<close>

text \<open>The classification of one token at a state over the empty stack; the scratch vector's
  earlier contents are irrelevant.\<close>

definition classify_at :: "state \<Rightarrow> bytes \<Rightarrow> probe_result" where
  "classify_at st bs = fst (probe (pda_at st) bs [])"

lemma probe_at: "fst (probe (pda_at st) bs scratch) = classify_at st bs"
  by (simp add: classify_at_def probe_def)

lemma build_fold:
  assumes "bm_ok m"
  shows "\<exists>m' scratch'. foldl (build_token (pda_at st) v) (m, ds, scratch) ids =
      (m', ds @ filter (\<lambda>i. consulted_ambient (classify_at st (token_bytes v i))) ids, scratch') \<and>
    bm_ok m' \<and> bm_len m' = bm_len m \<and>
    (\<forall>j. bm_test m' j \<longleftrightarrow> bm_test m j \<or> j \<in> set ids \<and> unat j < bm_len m \<and>
      \<not> consulted_ambient (classify_at st (token_bytes v j)) \<and> alive (classify_at st (token_bytes v j)))"
  using assms
proof (induction ids arbitrary: m ds scratch)
  case Nil
  then show ?case by simp
next
  case (Cons i ids)
  obtain pr scratch1 where pr: "probe (pda_at st) (token_bytes v i) scratch = (pr, scratch1)"
    by fastforce
  then have cls: "classify_at st (token_bytes v i) = pr" using probe_at by (metis fst_conv)
  show ?case
    using Cons.IH [of m "ds @ [i]" scratch1] Cons.IH [of "bm_set m i" ds scratch1]
      Cons.IH [of m ds scratch1] Cons.prems
    by (cases "consulted_ambient pr"; cases "alive pr")
      (auto simp: build_token_def pr cls mask.laws)
qed

lemma build_laws:
  "bm_ok (ca_indep (build st v len))"
  "bm_len (ca_indep (build st v len)) = len"
  "bm_test (ca_indep (build st v len)) j \<longleftrightarrow> j \<in> set (token_ids v) \<and> unat j < len \<and>
     \<not> consulted_ambient (classify_at st (token_bytes v j)) \<and> alive (classify_at st (token_bytes v j))"
  "ca_deferred (build st v len) =
     filter (\<lambda>i. consulted_ambient (classify_at st (token_bytes v i))) (token_ids v)"
proof -
  let ?P = "\<lambda>j. \<not> consulted_ambient (classify_at st (token_bytes v j)) \<and>
    alive (classify_at st (token_bytes v j))"
  obtain m' scratch' where
    fold: "foldl (build_token (pda_at st) v) (with_len len, [], []) (token_ids v) =
      (m', [] @ filter (\<lambda>i. consulted_ambient (classify_at st (token_bytes v i))) (token_ids v), scratch')"
    and m': "bm_ok m'" "bm_len m' = len"
      "\<forall>j. bm_test m' j \<longleftrightarrow> bm_test (with_len len) j \<or> j \<in> set (token_ids v) \<and> unat j < len \<and> ?P j"
    using build_fold [OF bm_ok_with_len, of st v len "[]" "[]" "token_ids v"]
    unfolding bm_len_simps by blast
  have eq: "build st v len = \<lparr>ca_indep = m', ca_deferred =
      filter (\<lambda>i. consulted_ambient (classify_at st (token_bytes v i))) (token_ids v)\<rparr>"
    unfolding build_def fold by simp
  show "bm_ok (ca_indep (build st v len))" "bm_len (ca_indep (build st v len)) = len"
    "bm_test (ca_indep (build st v len)) j \<longleftrightarrow> j \<in> set (token_ids v) \<and> unat j < len \<and> ?P j"
    "ca_deferred (build st v len) =
      filter (\<lambda>i. consulted_ambient (classify_at st (token_bytes v i))) (token_ids v)"
    unfolding eq using m' by (simp_all add: bm_test_with_len)
qed

section \<open>The lazy cache\<close>

definition grammar_ok :: "compiled_grammar \<Rightarrow> bool" where
  "grammar_ok g \<longleftrightarrow> length (cg_cache g) = state_count \<and>
    (\<forall>st c. cg_cache g ! state_index st = Some c \<longrightarrow> c = build st (cg_vocab g) (mask_len g))"

lemma grammar_ok_compile: "grammar_ok (compile_grammar v)"
  by (simp add: grammar_ok_def compile_grammar_def)

lemma eos_bit_vocab: "cg_vocab g = cg_vocab h \<Longrightarrow> eos_bit g = eos_bit h \<and> mask_len g = mask_len h"
  by (simp add: eos_bit_def mask_len_def)

lemma cached_at_laws:
  assumes "grammar_ok g"
  shows "fst (cached_at g st) = build st (cg_vocab g) (mask_len g)"
    and "grammar_ok (snd (cached_at g st))"
    and "cg_vocab (snd (cached_at g st)) = cg_vocab g"
proof -
  show "fst (cached_at g st) = build st (cg_vocab g) (mask_len g)"
    using assms by (auto simp: cached_at_def grammar_ok_def Let_def split: option.splits)
  show "cg_vocab (snd (cached_at g st)) = cg_vocab g"
    by (simp add: cached_at_def Let_def split: option.splits)
  show "grammar_ok (snd (cached_at g st))"
    using assms unfolding grammar_ok_def
    by (auto simp: cached_at_def Let_def nth_list_update mask_len_def eos_bit_def
        split: option.splits if_splits)
qed

interpretation grammar_cache: lazy_table grammar_ok cg_vocab cached_at
  "\<lambda>v st. build st v (unat (word_of_nat (vocab_len v) :: u32) + 1)"
  by unfold_locales (simp_all add: cached_at_laws mask_len_def eos_bit_def)

section \<open>Property\<close>

text \<open>C39: The cache is invisible and exact: after any sequence of lookups at any states, the partition
  returned for a state is the one a fresh grammar computes; it puts a token into the
  context-independent mask exactly when the automaton survives the token's bytes from that state
  with no frame of the enclosing stack consulted, and defers exactly the tokens that consulted
  one, in strictly ascending order.\<close>

theorem cache_history_invisible:
  assumes "fst (cached_at (foldl (\<lambda>g st. snd (cached_at g st)) (compile_grammar v) history) st) = c"
    and "vocab_len v + 1 < 2 ^ 32"
  shows "c = fst (cached_at (compile_grammar v) st) \<and>
    (\<forall>i. bm_test (ca_indep c) i \<longleftrightarrow> unat i < vocab_len v \<and>
      \<not> consulted_ambient (classify_at st (token_bytes v i)) \<and> alive (classify_at st (token_bytes v i))) \<and>
    (\<forall>i. i \<in> set (ca_deferred c) \<longleftrightarrow> unat i < vocab_len v \<and>
      consulted_ambient (classify_at st (token_bytes v i))) \<and>
    sorted_wrt (<) (ca_deferred c)"
proof -
  let ?len = "unat (word_of_nat (vocab_len v) :: u32) + 1"
  have voc: "cg_vocab (compile_grammar v) = v" by (simp add: compile_grammar_def)
  have c: "c = build st v ?len"
    using grammar_cache.after_history(3) [OF grammar_ok_compile, of v history st] assms(1) by (simp add: voc)
  have fresh: "fst (cached_at (compile_grammar v) st) = build st v ?len"
    using grammar_cache.get_value [OF grammar_ok_compile, of v st] by (simp add: voc)
  have small: "vocab_len v < 2 ^ 32" "?len = vocab_len v + 1"
    using assms(2) by (simp_all add: unat_word_of_nat_u32)
  have ids: "i \<in> set (token_ids v) \<longleftrightarrow> unat i < vocab_len v" for i by (rule token_ids_iff [OF small(1)])
  have "sorted_wrt (<) (ca_deferred c)"
    unfolding c build_laws token_ids_def by (rule sorted_wrt_filter [OF sorted_u32_range])
  moreover have "bm_test (ca_indep c) i \<longleftrightarrow> unat i < vocab_len v \<and>
      \<not> consulted_ambient (classify_at st (token_bytes v i)) \<and> alive (classify_at st (token_bytes v i))" for i
    unfolding c build_laws(3) ids small(2) by auto
  moreover have "i \<in> set (ca_deferred c) \<longleftrightarrow> unat i < vocab_len v \<and>
      consulted_ambient (classify_at st (token_bytes v i))" for i
    unfolding c build_laws(4) by (simp add: ids)
  ultimately show ?thesis unfolding fresh c [symmetric] by blast
qed

theorem cache_history_invisible_witness:
  "\<not> bm_test (ca_indep (fst (cached_at (foldl (\<lambda>g st. snd (cached_at g st))
    (compile_grammar (from_byte_tokens [''x''] 1)) [Start, AfterDot]) Start))) 0"
proof -
  have "vocab_len (from_byte_tokens [''x''] 1) + 1 < 2 ^ 32"
    by (simp add: vocab_len_def from_byte_tokens_def)
  moreover have "token_bytes (from_byte_tokens [''x''] 1) 0 = ''x''"
    by (simp add: token_bytes_def vocab_bytes_def vec_get_def from_byte_tokens_def)
  moreover have "\<not> alive (classify_at Start ''x'')" by code_simp
  moreover note cache_history_invisible [OF refl, of "from_byte_tokens [''x''] 1" "[Start, AfterDot]" Start]
  ultimately show ?thesis by metis
qed

end
