(* ===== verification/Byte_Trie.thy ===== *)
theory Byte_Trie
  imports Interfaces Pda "HOL-Library.Sublist"
begin

text \<open>
  The byte trie of \<open>src/src/schema/trie.rs\<close>: nodes in a vector, edges sorted by byte and
  found by binary search, child ids of 32 bits.  The invariant \<open>trie_inv\<close> labels every node
  with the byte string that leads to it; from it follow the laws of \<open>child\<close>, \<open>insert\<close> and
  \<open>walk\<close>, and the interface \<open>name_index\<close> the narrowing rules use.
\<close>

record trie_node =
  tn_next :: "(u8 \<times> u32) list"
  tn_terminal :: bool

record trie =
  tr_nodes :: "trie_node list"

datatype walk_result = Stay u32 | Complete | Diverge

definition empty_node :: trie_node where
  "empty_node = \<lparr>tn_next = [], tn_terminal = False\<rparr>"

text \<open>\<open>binary_search_by_key\<close> on a slice sorted by byte: \<open>Inr\<close> the index of the key, or \<open>Inl\<close>
  the index where it can be inserted in order.\<close>

definition search_edge :: "u8 \<Rightarrow> (u8 \<times> u32) list \<Rightarrow> usize + usize" where
  "search_edge b es =
    (let i = length (takeWhile (\<lambda>(c, _). c < b) es)
     in if i < length es \<and> fst (es ! i) = b then Inr i else Inl i)"

definition child :: "trie \<Rightarrow> u32 \<Rightarrow> u8 \<Rightarrow> u32 option" where
  "child t node b =
    (let edges = tn_next (tr_nodes t ! unat node)
     in case search_edge b edges of Inr i \<Rightarrow> Some (snd (edges ! i)) | Inl _ \<Rightarrow> None)"

definition is_terminal :: "trie \<Rightarrow> u32 \<Rightarrow> bool" where
  "is_terminal t node = tn_terminal (tr_nodes t ! unat node)"

definition trie_root :: "trie \<Rightarrow> u32" where
  "trie_root t = 0"

definition add_child :: "trie \<Rightarrow> usize \<Rightarrow> u8 \<Rightarrow> u32 \<times> trie" where
  "add_child t node b =
    (let c = word_of_nat (length (tr_nodes t));
         nodes = vec_push (tr_nodes t) empty_node;
         edges = tn_next (nodes ! node);
         at = (case search_edge b edges of Inr i \<Rightarrow> i | Inl i \<Rightarrow> i)
     in (c, t\<lparr>tr_nodes := nodes[node := (nodes ! node)
              \<lparr>tn_next := take at edges @ (b, c) # drop at edges\<rparr>]\<rparr>))"

fun insert_loop :: "trie \<Rightarrow> usize \<Rightarrow> bytes \<Rightarrow> trie" where
  "insert_loop t node [] =
    t\<lparr>tr_nodes := (tr_nodes t)[node := (tr_nodes t ! node)\<lparr>tn_terminal := True\<rparr>]\<rparr>"
| "insert_loop t node (b # bs) =
    (case child t (word_of_nat node) b of
       Some c \<Rightarrow> insert_loop t (unat c) bs
     | None \<Rightarrow> (case add_child t node b of (c, t') \<Rightarrow> insert_loop t' (unat c) bs))"

definition trie_insert :: "trie \<Rightarrow> bytes \<Rightarrow> trie" where
  "trie_insert t bs = insert_loop t 0 bs"

definition from_names :: "bytes list \<Rightarrow> trie" where
  "from_names names = foldl trie_insert \<lparr>tr_nodes = [empty_node]\<rparr> names"

fun walk :: "trie \<Rightarrow> u32 \<Rightarrow> bytes \<Rightarrow> walk_result" where
  "walk t node [] = Stay node"
| "walk t node (b # bs) =
    (case child t node b of
       Some c \<Rightarrow> walk t c bs
     | None \<Rightarrow> if is_terminal t node \<and> \<not> is_ident_tail b then Complete else Diverge)"

section \<open>Sorted edges\<close>

definition edges_sorted :: "(u8 \<times> u32) list \<Rightarrow> bool" where
  "edges_sorted es \<longleftrightarrow> sorted_wrt (\<lambda>e f. fst e < fst f) es"

lemma search_edge_Inr:
  assumes "search_edge b es = Inr i"
  shows "i < length es" and "(b, snd (es ! i)) \<in> set es" and "fst (es ! i) = b"
proof -
  from assms show i: "i < length es" and b: "fst (es ! i) = b"
    by (auto simp: search_edge_def Let_def split: if_splits)
  from i b show "(b, snd (es ! i)) \<in> set es" by (metis nth_mem prod.collapse)
qed

lemma search_edge_Inl:
  assumes "search_edge b es = Inl i" and "edges_sorted es"
  shows "i \<le> length es" and "\<forall>e \<in> set (take i es). fst e < b" and "\<forall>e \<in> set (drop i es). b < fst e"
proof -
  let ?P = "\<lambda>(c, _ :: u32). c < b"
  have i: "i = length (takeWhile ?P es)" and ne: "i < length es \<longrightarrow> fst (es ! i) \<noteq> b"
    using assms(1) by (auto simp: search_edge_def Let_def split: if_splits)
  show "i \<le> length es" unfolding i by (rule length_takeWhile_le)
  have "take i es = takeWhile ?P es" unfolding i by (rule takeWhile_eq_take [symmetric])
  then show "\<forall>e \<in> set (take i es). fst e < b" by (auto dest: set_takeWhileD)
  show "\<forall>e \<in> set (drop i es). b < fst e"
  proof
    fix e assume "e \<in> set (drop i es)"
    then obtain j where "j < length (drop i es)" "drop i es ! j = e"
      by (auto simp: in_set_conv_nth)
    then have "i + j < length es" and "es ! (i + j) = e" using \<open>i \<le> length es\<close> by simp_all
    then obtain k where k: "k < length es" "i \<le> k" "e = es ! k" using le_add1 by blast
    have "\<not> fst (es ! i) < b"
      using nth_length_takeWhile [of ?P es] k by (auto simp: i split: prod.splits)
    with ne k have "b < fst (es ! i)" by auto
    with k assms(2) show "b < fst e"
      by (cases "k = i") (auto simp: edges_sorted_def sorted_wrt_iff_nth_less intro: less_trans)
  qed
qed

lemma search_edge_finds:
  assumes "edges_sorted es" and "(b, c) \<in> set es"
  shows "\<exists>i. search_edge b es = Inr i \<and> es ! i = (b, c)"
proof (cases "search_edge b es")
  case (Inl i)
  from assms(2) have "(b, c) \<in> set (take i es) \<or> (b, c) \<in> set (drop i es)"
    by (metis Un_iff append_take_drop_id set_append)
  with search_edge_Inl [OF Inl assms(1)] show ?thesis by fastforce
next
  case (Inr i)
  then have "es ! i \<in> set es" and "fst (es ! i) = b" using search_edge_Inr by auto
  with assms have "es ! i = (b, c)"
    by (auto simp: edges_sorted_def sorted_wrt_iff_nth_less in_set_conv_nth)
      (metis fst_conv less_irrefl linorder_neqE_nat)
  with Inr show ?thesis by blast
qed

lemma edges_sorted_insert:
  assumes "search_edge b es = Inl i" and "edges_sorted es"
  shows "edges_sorted (take i es @ (b, c) # drop i es)"
proof -
  note s = search_edge_Inl [OF assms]
  have "sorted_wrt (\<lambda>e f. fst e < fst f) (take i es @ drop i es)"
    using assms(2) by (simp add: edges_sorted_def)
  then show ?thesis
    using s by (auto simp: edges_sorted_def sorted_wrt_append intro: less_trans)
qed

section \<open>The labelling invariant\<close>

text \<open>\<open>ls ! n\<close> is the byte string that leads from the root to node \<open>n\<close>; \<open>T\<close> is the set of
  names that end at some node.\<close>

definition edge_at :: "bytes list \<Rightarrow> u32 \<Rightarrow> bytes \<Rightarrow> bool" where
  "edge_at ls e w \<longleftrightarrow> unat e < length ls \<and> ls ! unat e = w"

definition node_ok :: "trie_node \<Rightarrow> bytes list \<Rightarrow> bytes set \<Rightarrow> bytes \<Rightarrow> bool" where
  "node_ok nd ls T d \<longleftrightarrow> edges_sorted (tn_next nd) \<and>
    (\<forall>b c. (b, c) \<in> set (tn_next nd) \<longleftrightarrow> edge_at ls c (d @ [b])) \<and>
    (tn_terminal nd \<longleftrightarrow> d \<in> T)"

definition trie_inv :: "trie \<Rightarrow> bytes list \<Rightarrow> bytes set \<Rightarrow> bool" where
  "trie_inv t ls T \<longleftrightarrow>
    length ls = length (tr_nodes t) \<and> 0 < length ls \<and> length ls \<le> 2 ^ 32 \<and> ls ! 0 = [] \<and>
    distinct ls \<and> (\<forall>p x. p @ [x] \<in> set ls \<longrightarrow> p \<in> set ls) \<and> T \<subseteq> set ls \<and>
    (\<forall>n < length ls. node_ok (tr_nodes t ! n) ls T (ls ! n))"

lemma trie_invD:
  assumes "trie_inv t ls T"
  shows "length ls = length (tr_nodes t)" "0 < length ls" "length ls \<le> 2 ^ 32" "ls ! 0 = []"
    "distinct ls" "p @ [x] \<in> set ls \<Longrightarrow> p \<in> set ls" "T \<subseteq> set ls"
    "n < length ls \<Longrightarrow> node_ok (tr_nodes t ! n) ls T (ls ! n)"
  using assms by (auto simp: trie_inv_def)

lemma trie_inv_empty: "trie_inv \<lparr>tr_nodes = [empty_node]\<rparr> [[]] {}"
  by (auto simp: trie_inv_def node_ok_def empty_node_def edges_sorted_def edge_at_def)

lemma child_inv:
  assumes inv: "trie_inv t ls T" and node: "unat node < length ls"
  shows "child t node b = Some c \<longleftrightarrow> unat c < length ls \<and> ls ! unat c = ls ! unat node @ [b]"
    and "child t node b = None \<longleftrightarrow> ls ! unat node @ [b] \<notin> set ls"
proof -
  let ?es = "tn_next (tr_nodes t ! unat node)"
  note nd = trie_invD(8) [OF inv node, unfolded node_ok_def edge_at_def]
  have some: "child t node b = Some c \<longleftrightarrow> unat c < length ls \<and> ls ! unat c = ls ! unat node @ [b]" for c
  proof
    assume "child t node b = Some c"
    then have "(b, c) \<in> set ?es"
      by (auto simp: child_def Let_def split: sum.splits dest: search_edge_Inr(2))
    then show "unat c < length ls \<and> ls ! unat c = ls ! unat node @ [b]" using nd by blast
  next
    assume "unat c < length ls \<and> ls ! unat c = ls ! unat node @ [b]"
    then have "(b, c) \<in> set ?es" using nd by blast
    with nd obtain i where "search_edge b ?es = Inr i" "?es ! i = (b, c)"
      using search_edge_finds by blast
    then show "child t node b = Some c" by (simp add: child_def)
  qed
  show "child t node b = Some c \<longleftrightarrow> unat c < length ls \<and> ls ! unat c = ls ! unat node @ [b]"
    by (rule some)
  show "child t node b = None \<longleftrightarrow> ls ! unat node @ [b] \<notin> set ls"
  proof
    assume none: "child t node b = None"
    show "ls ! unat node @ [b] \<notin> set ls"
    proof
      assume "ls ! unat node @ [b] \<in> set ls"
      then obtain k where k: "k < length ls" "ls ! k = ls ! unat node @ [b]"
        by (auto simp: in_set_conv_nth)
      have "unat (word_of_nat k :: u32) = k"
        using k(1) trie_invD(3) [OF inv] by (intro unat_word_of_nat_u32) simp
      with k some [of "word_of_nat k"] none show False by simp
    qed
  next
    assume "ls ! unat node @ [b] \<notin> set ls"
    then show "child t node b = None" using some by (cases "child t node b") (auto simp: in_set_conv_nth)
  qed
qed

text \<open>A new node is labelled last, its parent has one edge more, the other nodes are as they were.\<close>

lemma node_ok_add:
  assumes inv: "trie_inv t ls T" and node: "node < length ls" and new: "ls ! node @ [b] \<notin> set ls"
    and c: "unat c = length ls" and i: "search_edge b (tn_next (tr_nodes t ! node)) = Inl i"
    and n: "n < Suc (length ls)"
  shows "node_ok ((tr_nodes t @ [empty_node])[node := (tr_nodes t ! node)
      \<lparr>tn_next := take i (tn_next (tr_nodes t ! node)) @ (b, c) # drop i (tn_next (tr_nodes t ! node))\<rparr>] ! n)
    (ls @ [ls ! node @ [b]]) T ((ls @ [ls ! node @ [b]]) ! n)"
proof -
  note D = trie_invD [OF inv]
  let ?es = "tn_next (tr_nodes t ! node)" and ?ls = "ls @ [ls ! node @ [b]]"
  have nd: "node_ok (tr_nodes t ! node) ls T (ls ! node)" using D(8) node by blast
  have len: "length (tr_nodes t) = length ls" using D(1) by simp
  have ext: "edge_at ?ls e w \<longleftrightarrow> edge_at ls e w \<or> (e = c \<and> w = ls ! node @ [b])" for e w
    using c word_unat_eq_iff [of e c] by (auto simp: edge_at_def nth_append less_Suc_eq)
  consider "n = node" | "n < length ls" "n \<noteq> node" | "n = length ls" using n by linarith
  then show ?thesis
  proof cases
    case 1
    have split: "(x, e) \<in> set (take i ?es @ (b, c) # drop i ?es) \<longleftrightarrow> (x, e) \<in> set ?es \<or> (x = b \<and> e = c)" for x e
      using set_append [of "take i ?es" "drop i ?es"] by auto
    have "edges_sorted (take i ?es @ (b, c) # drop i ?es)"
      using nd i by (intro edges_sorted_insert) (simp_all add: node_ok_def)
    then show ?thesis
      using nd 1 node len by (auto simp: nth_append node_ok_def split ext simp del: set_append)
  next
    case 2
    then have "node_ok (tr_nodes t ! n) ls T (ls ! n)" "ls ! n \<noteq> ls ! node"
      using D(5,8) node by (auto simp: nth_eq_iff_index_eq)
    then show ?thesis using 2 len by (simp add: nth_append node_ok_def ext)
  next
    case 3
    have no: "ls ! node @ [b, x] \<notin> set ls" for x using D(6) [of "ls ! node @ [b]" x] new by auto
    have "\<not> edge_at ls e (ls ! node @ [b, x])" for e x using no by (metis edge_at_def nth_mem)
    moreover have "ls ! node @ [b] \<notin> T" using new D(7) by blast
    ultimately show ?thesis
      using 3 node len by (simp add: nth_append node_ok_def ext empty_node_def edges_sorted_def)
  qed
qed

lemma add_child_inv:
  assumes inv: "trie_inv t ls T" and node: "node < length ls"
    and new: "ls ! node @ [b] \<notin> set ls" and room: "length ls < 2 ^ 32"
  shows "unat (fst (add_child t node b)) = length ls"
    and "trie_inv (snd (add_child t node b)) (ls @ [ls ! node @ [b]]) T"
proof -
  define c :: u32 where "c = word_of_nat (length ls)"
  note D = trie_invD [OF inv]
  have c: "unat c = length ls" using room by (simp add: c_def unat_word_of_nat_u32)
  let ?es = "tn_next (tr_nodes t ! node)" and ?ls = "ls @ [ls ! node @ [b]]"
  have "node_ok (tr_nodes t ! node) ls T (ls ! node)" using D(8) node by blast
  then have "(b, x) \<notin> set ?es" for x using new by (auto simp: node_ok_def edge_at_def in_set_conv_nth)
  then obtain i where i: "search_edge b ?es = Inl i"
    using search_edge_Inr(2) by (cases "search_edge b ?es") blast+
  let ?nodes = "(tr_nodes t @ [empty_node])[node := (tr_nodes t ! node)\<lparr>tn_next := take i ?es @ (b, c) # drop i ?es\<rparr>]"
  have eq: "add_child t node b = (c, \<lparr>tr_nodes = ?nodes\<rparr>)"
    using node D(1) i by (cases t) (simp add: add_child_def Let_def nth_append c_def)
  show "unat (fst (add_child t node b)) = length ls" by (simp add: eq c)
  have nodes: "\<forall>n < length ?ls. node_ok (?nodes ! n) ?ls T (?ls ! n)"
    using node_ok_add [OF inv node new c i] by simp
  have "ls ! node \<in> set ls" using node by simp
  then have closed: "\<forall>p x. p @ [x] \<in> set ?ls \<longrightarrow> p \<in> set ?ls" using D(6) by auto
  show "trie_inv (snd (add_child t node b)) ?ls T"
    unfolding trie_inv_def eq snd_conv trie.simps
    using nodes closed D(1,2,4,5,7) new room by (auto simp: nth_append)
qed

lemma end_insert_inv:
  assumes "trie_inv t ls T" and "node < length ls"
  shows "trie_inv (insert_loop t node []) ls (insert (ls ! node) T)"
proof -
  note D = trie_invD [OF assms(1)]
  have "node_ok (tr_nodes (insert_loop t node []) ! n) ls (insert (ls ! node) T) (ls ! n)"
    if "n < length ls" for n
  proof (cases "n = node")
    case True
    then show ?thesis using D(1) D(8) [of node] assms(2) by (auto simp: node_ok_def)
  next
    case False
    then have "ls ! n \<noteq> ls ! node" using D(5) that assms(2) by (simp add: nth_eq_iff_index_eq)
    then show ?thesis using D(1) D(8) [of n] that False by (auto simp: node_ok_def)
  qed
  then show ?thesis using assms D(1-7) unfolding trie_inv_def by auto
qed

lemma insert_loop_inv:
  "trie_inv t ls T \<Longrightarrow> node < length ls \<Longrightarrow> length ls + length bs \<le> 2 ^ 32 \<Longrightarrow>
    \<exists>ls'. trie_inv (insert_loop t node bs) ls' (insert (ls ! node @ bs) T) \<and>
      set ls' = set ls \<union> {ls ! node @ p |p. prefix p bs} \<and> length ls' \<le> length ls + length bs"
proof (induction bs arbitrary: t ls node)
  case Nil
  then show ?case using end_insert_inv [of t ls T node] by (intro exI [of _ ls]) auto
next
  case (Cons b bs)
  let ?d = "ls ! node"
  have node: "unat (word_of_nat node :: u32) = node"
    using Cons.prems(2) trie_invD(3) [OF Cons.prems(1)] by (intro unat_word_of_nat_u32) simp
  have step: "{?d @ p |p. prefix p (b # bs)} = insert ?d {(?d @ [b]) @ p |p. prefix p bs}"
    by (auto simp: prefix_Cons)
  show ?case
  proof (cases "child t (word_of_nat node) b")
    case (Some c)
    then have c: "unat c < length ls" "ls ! unat c = ?d @ [b]"
      using child_inv(1) [OF Cons.prems(1), of "word_of_nat node" b c] Cons.prems(2) by (auto simp: node)
    from Cons.IH [OF Cons.prems(1) c(1)] Cons.prems(3)
    obtain ls' where "trie_inv (insert_loop t (unat c) bs) ls' (insert (ls ! unat c @ bs) T)"
      "set ls' = set ls \<union> {ls ! unat c @ p |p. prefix p bs}" "length ls' \<le> length ls + length bs"
      by auto
    then show ?thesis using Some c Cons.prems(2) step by (intro exI [of _ ls']) auto
  next
    case None
    obtain c t' where add: "add_child t node b = (c, t')" by fastforce
    let ?ls = "ls @ [?d @ [b]]"
    have new: "?d @ [b] \<notin> set ls"
      using child_inv(2) [OF Cons.prems(1), of "word_of_nat node" b] None Cons.prems(2) by (auto simp: node)
    have "unat c = length ls" "trie_inv t' ?ls T"
      using add_child_inv [OF Cons.prems(1,2) new] Cons.prems(3) add by auto
    with Cons.IH [of t' ?ls "unat c"] Cons.prems(3)
    obtain ls' where "trie_inv (insert_loop t' (unat c) bs) ls' (insert (?ls ! unat c @ bs) T)"
      "set ls' = set ?ls \<union> {?ls ! unat c @ p |p. prefix p bs}" "length ls' \<le> length ?ls + length bs"
      by auto
    then show ?thesis
      using None add Cons.prems(2) step \<open>unat c = length ls\<close> by (intro exI [of _ ls']) auto
  qed
qed

lemma trie_insert_fold:
  "trie_inv t ls T \<Longrightarrow> length ls + sum_list (map length names) \<le> 2 ^ 32 \<Longrightarrow>
    \<exists>ls'. trie_inv (foldl trie_insert t names) ls' (T \<union> set names) \<and>
      set ls' = set ls \<union> {p. \<exists>nm \<in> set names. prefix p nm}"
proof (induction names arbitrary: t ls T)
  case Nil
  then show ?case by auto
next
  case (Cons nm names)
  from Cons.prems insert_loop_inv [of t ls T 0 nm] trie_invD(2,4) [OF Cons.prems(1)]
  obtain ls1 where one: "trie_inv (trie_insert t nm) ls1 (insert nm T)"
    "set ls1 = set ls \<union> {p. prefix p nm}" "length ls1 \<le> length ls + length nm"
    by (auto simp: trie_insert_def)
  with Cons.IH [of "trie_insert t nm" ls1 "insert nm T"] Cons.prems(2)
  obtain ls' where "trie_inv (foldl trie_insert (trie_insert t nm) names) ls' (insert nm T \<union> set names)"
    "set ls' = set ls1 \<union> {p. \<exists>nm \<in> set names. prefix p nm}"
    by auto
  then show ?case using one(2) by (intro exI [of _ ls']) auto
qed

definition names_fit :: "bytes list \<Rightarrow> bool" where
  "names_fit names \<longleftrightarrow> 1 + sum_list (map length names) \<le> 2 ^ 32"

lemma from_names_inv:
  assumes "names_fit names"
  obtains ls where "trie_inv (from_names names) ls (set names)"
    "set ls = insert [] {p. \<exists>nm \<in> set names. prefix p nm}"
  using trie_insert_fold [OF trie_inv_empty, of names] assms
  by (auto simp: from_names_def names_fit_def)

section \<open>The walk\<close>

lemma walk_append: "walk t node xs = Stay m \<Longrightarrow> walk t node (xs @ ys) = walk t m ys"
  by (induction xs arbitrary: node) (auto split: option.splits if_splits)

lemma walk_Stay_iff:
  assumes inv: "trie_inv t ls T"
  shows "unat node < length ls \<Longrightarrow>
    walk t node bs = Stay m \<longleftrightarrow> unat m < length ls \<and> ls ! unat m = ls ! unat node @ bs"
proof (induction bs arbitrary: node)
  case Nil
  then show ?case
    using trie_invD(5) [OF inv]
    by (auto simp: nth_eq_iff_index_eq) (metis nth_eq_iff_index_eq word_eq_iff_unsigned)
next
  case (Cons b bs)
  show ?case
  proof (cases "child t node b")
    case (Some c)
    then have c: "unat c < length ls" "ls ! unat c = ls ! unat node @ [b]"
      using child_inv(1) [OF inv Cons.prems] by auto
    with Cons.IH [OF c(1)] Some show ?thesis by simp
  next
    case None
    then have "ls ! unat node @ [b] \<notin> set ls" using child_inv(2) [OF inv Cons.prems] by auto
    moreover have "p @ q \<in> set ls \<Longrightarrow> p \<in> set ls" for p q
      by (induction q rule: rev_induct) (auto dest: trie_invD(6) [OF inv] simp flip: append_assoc)
    ultimately have "ls ! unat node @ b # bs \<notin> set ls" by (metis append.assoc append_Cons append_Nil)
    then have "\<not> (unat m < length ls \<and> ls ! unat m = ls ! unat node @ b # bs)" by (metis nth_mem)
    then show ?thesis using None by simp
  qed
qed

lemma walk_Complete_iff:
  assumes inv: "trie_inv t ls T"
  shows "unat node < length ls \<Longrightarrow>
    walk t node bs = Complete \<longleftrightarrow> (\<exists>p x s. bs = p @ x # s \<and> ls ! unat node @ p \<in> T \<and>
      ls ! unat node @ p @ [x] \<notin> set ls \<and> \<not> is_ident_tail x)"
    (is "_ \<Longrightarrow> _ \<longleftrightarrow> ?R node bs")
proof (induction bs arbitrary: node)
  case Nil
  then show ?case by simp
next
  case (Cons b bs)
  let ?d = "ls ! unat node"
  have tm: "is_terminal t node \<longleftrightarrow> ?d \<in> T"
    using trie_invD(8) [OF inv Cons.prems] by (simp add: is_terminal_def node_ok_def)
  have R: "?R node (b # bs) \<longleftrightarrow> (?d \<in> T \<and> ?d @ [b] \<notin> set ls \<and> \<not> is_ident_tail b) \<or>
      (\<exists>p x s. bs = p @ x # s \<and> ?d @ b # p \<in> T \<and> ?d @ b # p @ [x] \<notin> set ls \<and> \<not> is_ident_tail x)"
    (is "_ \<longleftrightarrow> ?A \<or> ?B")
  proof
    assume "?R node (b # bs)"
    then obtain p x s where *: "b # bs = p @ x # s" "?d @ p \<in> T" "?d @ p @ [x] \<notin> set ls"
      "\<not> is_ident_tail x" by blast
    then show "?A \<or> ?B" by (cases p) auto
  next
    assume "?A \<or> ?B"
    then show "?R node (b # bs)"
    proof
      assume ?A then show ?thesis by (intro exI [of _ "[]"] exI [of _ b] exI [of _ bs]) auto
    next
      assume ?B
      then obtain p x s where "bs = p @ x # s" "?d @ b # p \<in> T" "?d @ b # p @ [x] \<notin> set ls"
        "\<not> is_ident_tail x" by blast
      then show ?thesis by (intro exI [of _ "b # p"] exI [of _ x] exI [of _ s]) auto
    qed
  qed
  show ?case
  proof (cases "child t node b")
    case (Some c)
    then have c: "unat c < length ls" "ls ! unat c = ?d @ [b]"
      using child_inv(1) [OF inv Cons.prems] by auto
    then have "?d @ [b] \<in> set ls" by (metis nth_mem)
    with Cons.IH [OF c(1)] Some c(2) R show ?thesis by auto
  next
    case None
    then have gone: "?d @ [b] \<notin> set ls" using child_inv(2) [OF inv Cons.prems] by auto
    have closed: "p @ q \<in> set ls \<Longrightarrow> p \<in> set ls" for p q
      by (induction q rule: rev_induct) (auto dest: trie_invD(6) [OF inv] simp flip: append_assoc)
    have "?d @ b # p \<notin> T" for p
      using gone closed [of "?d @ [b]" p] trie_invD(7) [OF inv] by auto
    with None tm gone R show ?thesis by auto
  qed
qed

section \<open>Reachability of names\<close>

text \<open>A text is still on the way to one of the names: it is a prefix of a name, or it is a
  name followed by a byte that ends the identifier and extends no name.\<close>

definition name_prefix :: "bytes list \<Rightarrow> bytes \<Rightarrow> bool" where
  "name_prefix names xs = list_ex (\<lambda>nm. take (length xs) nm = xs) names"

definition name_done :: "bytes list \<Rightarrow> bytes \<Rightarrow> bool" where
  "name_done names xs = list_ex (\<lambda>k. List.member names (take k xs) \<and>
    \<not> name_prefix names (take (Suc k) xs) \<and> \<not> is_ident_tail (xs ! k)) [0..<length xs]"

lemma name_prefix_iff: "name_prefix names xs \<longleftrightarrow> (\<exists>nm \<in> set names. prefix xs nm)"
  by (simp add: name_prefix_def list_ex_iff take_is_prefix) (metis prefix_def append_eq_conv_conj)

lemma name_done_nth: "name_done names xs \<longleftrightarrow> (\<exists>k < length xs. take k xs \<in> set names \<and>
    \<not> name_prefix names (take (Suc k) xs) \<and> \<not> is_ident_tail (xs ! k))"
  by (auto simp: name_done_def list_ex_iff)

text \<open>What a client of the index relies on: a walk from the root keeps exactly the texts that
  are on the way to a name, and a walk can be suspended at a cursor and resumed.\<close>

locale name_index =
  fixes fits :: "bytes list \<Rightarrow> bool"
    and index :: "bytes list \<Rightarrow> 't"
    and root :: "'t \<Rightarrow> u32"
    and follow :: "'t \<Rightarrow> u32 \<Rightarrow> bytes \<Rightarrow> walk_result"
  assumes kept: "fits ns \<Longrightarrow> follow (index ns) (root (index ns)) xs \<noteq> Diverge \<longleftrightarrow>
      xs = [] \<or> name_prefix ns xs \<or> name_done ns xs"
    and complete: "fits ns \<Longrightarrow> follow (index ns) (root (index ns)) xs = Complete \<longleftrightarrow> name_done ns xs"
    and resume: "fits ns \<Longrightarrow> follow (index ns) (root (index ns)) xs = Stay m \<Longrightarrow>
      follow (index ns) m ys = follow (index ns) (root (index ns)) (xs @ ys)"
    and at_root: "fits ns \<Longrightarrow> follow (index ns) (root (index ns)) xs = Stay (root (index ns)) \<longleftrightarrow> xs = []"
begin

text \<open>A text on the way to a name reaches a cursor, and so does each of its beginnings.\<close>

lemma stays:
  assumes "fits ns" and "name_prefix ns xs"
  obtains m where "follow (index ns) (root (index ns)) xs = Stay m"
proof (cases "follow (index ns) (root (index ns)) xs")
  case (Stay m) then show ?thesis by (rule that)
next
  case Complete
  then obtain k where "k < length xs" "\<not> name_prefix ns (take (Suc k) xs)"
    using complete [OF assms(1)] by (auto simp: name_done_nth)
  moreover have "name_prefix ns (take (Suc k) xs)" for k
    using assms(2) take_is_prefix prefix_order.trans by (fastforce simp: name_prefix_iff)
  ultimately show ?thesis by blast
next
  case Diverge
  then show ?thesis using kept [OF assms(1), of xs] assms(2) by simp
qed

lemma stays_iff:
  assumes "fits ns"
  shows "(\<exists>m. follow (index ns) (root (index ns)) xs = Stay m) \<longleftrightarrow> xs = [] \<or> name_prefix ns xs"
proof
  assume "\<exists>m. follow (index ns) (root (index ns)) xs = Stay m"
  then have "\<not> name_done ns xs" "follow (index ns) (root (index ns)) xs \<noteq> Diverge"
    using complete [OF assms, of xs] by auto
  then show "xs = [] \<or> name_prefix ns xs" using kept [OF assms, of xs] by blast
next
  assume "xs = [] \<or> name_prefix ns xs"
  then show "\<exists>m. follow (index ns) (root (index ns)) xs = Stay m"
    using at_root [OF assms, of "[]"] stays [OF assms, of xs] by metis
qed

text \<open>From the cursor a text has reached, a further piece is kept exactly when the whole is on
  the way to a name.\<close>

lemma kept_from:
  assumes "fits ns" and "follow (index ns) (root (index ns)) xs = Stay m"
  shows "follow (index ns) m ys \<noteq> Diverge \<longleftrightarrow> xs @ ys = [] \<or> name_prefix ns (xs @ ys) \<or> name_done ns (xs @ ys)"
  using resume [OF assms] kept [OF assms(1)] by simp

text \<open>Every name can be spelled from the root in any two pieces.\<close>

lemma spelled_in_pieces:
  assumes "fits ns" and "xs @ ys \<in> set ns"
  obtains m k where "follow (index ns) (root (index ns)) xs = Stay m" and "follow (index ns) m ys = Stay k"
proof -
  have "name_prefix ns xs" "name_prefix ns (xs @ ys)"
    using assms(2) by (auto simp: name_prefix_iff intro: bexI [of _ "xs @ ys"])
  then show thesis using that stays [OF assms(1)] resume [OF assms(1)] by metis
qed

end

lemma name_done_iff:
  "name_done names xs \<longleftrightarrow> (\<exists>p x s. xs = p @ x # s \<and> p \<in> set names \<and>
    \<not> name_prefix names (p @ [x]) \<and> \<not> is_ident_tail x)"
proof
  assume "name_done names xs"
  then obtain k where "k < length xs" "take k xs \<in> set names"
    "\<not> name_prefix names (take (Suc k) xs)" "\<not> is_ident_tail (xs ! k)"
    by (auto simp: name_done_nth)
  then show "\<exists>p x s. xs = p @ x # s \<and> p \<in> set names \<and> \<not> name_prefix names (p @ [x]) \<and> \<not> is_ident_tail x"
    by (intro exI [of _ "take k xs"] exI [of _ "xs ! k"] exI [of _ "drop (Suc k) xs"])
      (simp add: take_Suc_conv_app_nth id_take_nth_drop [symmetric])
next
  assume "\<exists>p x s. xs = p @ x # s \<and> p \<in> set names \<and> \<not> name_prefix names (p @ [x]) \<and> \<not> is_ident_tail x"
  then obtain p x s where "xs = p @ x # s" "p \<in> set names" "\<not> name_prefix names (p @ [x])"
    "\<not> is_ident_tail x" by blast
  then show "name_done names xs" by (auto simp: name_done_nth intro!: exI [of _ "length p"])
qed

lemma walk_from_names:
  assumes "names_fit names"
  shows "walk (from_names names) 0 xs \<noteq> Diverge \<longleftrightarrow>
      xs = [] \<or> name_prefix names xs \<or> name_done names xs"
    and "walk (from_names names) 0 xs = Complete \<longleftrightarrow> name_done names xs"
    and "walk (from_names names) 0 xs = Stay m \<Longrightarrow>
      walk (from_names names) m ys = walk (from_names names) 0 (xs @ ys)"
    and "walk (from_names names) 0 xs = Stay 0 \<longleftrightarrow> xs = []"
proof -
  from assms obtain ls where inv: "trie_inv (from_names names) ls (set names)"
    and ls: "set ls = insert [] {p. \<exists>nm \<in> set names. prefix p nm}" by (rule from_names_inv)
  have root: "unat (0 :: u32) < length ls" "ls ! unat (0 :: u32) = []"
    using trie_invD(2,4) [OF inv] by simp_all
  have mem: "p \<in> set ls \<longleftrightarrow> p = [] \<or> name_prefix names p" for p
    by (simp add: ls name_prefix_iff)
  show fin: "walk (from_names names) 0 xs = Complete \<longleftrightarrow> name_done names xs"
    using walk_Complete_iff [OF inv root(1), of xs] by (simp add: root [simplified] name_done_iff mem)
  have stay: "(\<exists>m. walk (from_names names) 0 xs = Stay m) \<longleftrightarrow> xs \<in> set ls"
  proof
    assume "\<exists>m. walk (from_names names) 0 xs = Stay m"
    then show "xs \<in> set ls" using walk_Stay_iff [OF inv root(1), of xs] root(2) by (auto intro: nth_mem)
  next
    assume "xs \<in> set ls"
    then obtain k where k: "k < length ls" "ls ! k = xs" by (auto simp: in_set_conv_nth)
    then have "unat (word_of_nat k :: u32) = k"
      using trie_invD(3) [OF inv] by (intro unat_word_of_nat_u32) simp
    then show "\<exists>m. walk (from_names names) 0 xs = Stay m"
      using walk_Stay_iff [OF inv root(1), of xs "word_of_nat k"] k root(2) by auto
  qed
  show "walk (from_names names) 0 xs \<noteq> Diverge \<longleftrightarrow> xs = [] \<or> name_prefix names xs \<or> name_done names xs"
    using stay fin mem [of xs] by (cases "walk (from_names names) 0 xs") auto
  show "walk (from_names names) m ys = walk (from_names names) 0 (xs @ ys)"
    if "walk (from_names names) 0 xs = Stay m"
    using that walk_append by simp
  show "walk (from_names names) 0 xs = Stay 0 \<longleftrightarrow> xs = []"
    using walk_Stay_iff [OF inv root(1), of xs 0] root by auto
qed

interpretation names: name_index names_fit from_names trie_root walk
proof unfold_locales
  fix ns xs ys m assume fit: "names_fit ns"
  show "walk (from_names ns) (trie_root (from_names ns)) xs \<noteq> Diverge \<longleftrightarrow>
      xs = [] \<or> name_prefix ns xs \<or> name_done ns xs"
    unfolding trie_root_def by (rule walk_from_names(1) [OF fit])
  show "walk (from_names ns) (trie_root (from_names ns)) xs = Complete \<longleftrightarrow> name_done ns xs"
    unfolding trie_root_def by (rule walk_from_names(2) [OF fit])
  show "walk (from_names ns) m ys = walk (from_names ns) (trie_root (from_names ns)) (xs @ ys)"
    if "walk (from_names ns) (trie_root (from_names ns)) xs = Stay m"
    using that by (simp add: walk_append)
  show "walk (from_names ns) (trie_root (from_names ns)) xs = Stay (trie_root (from_names ns)) \<longleftrightarrow> xs = []"
    unfolding trie_root_def by (rule walk_from_names(4) [OF fit])
qed

section \<open>Properties\<close>

text \<open>C17: The trie that narrows a token, walked from its root, answers reachability: a byte string
  is kept (the walk does not diverge) exactly when it is empty, or a prefix of one of the legal
  names, or begins with a whole legal name that is followed by a byte that can neither extend
  the identifier nor continue towards a longer legal name; and it is reported complete exactly
  in the last case.  The names' total length has to leave every node an id of 32 bits.\<close>

theorem trie_walk_reachability:
  assumes "names_fit names"
  shows "(walk (from_names names) (trie_root (from_names names)) xs \<noteq> Diverge \<longleftrightarrow>
      xs = [] \<or> (\<exists>nm \<in> set names. prefix xs nm) \<or> name_done names xs) \<and>
    (walk (from_names names) (trie_root (from_names names)) xs = Complete \<longleftrightarrow> name_done names xs)"
  using names.kept [OF assms, of xs] names.complete [OF assms, of xs]
  by (simp add: name_prefix_iff)

theorem trie_walk_reachability_witness:
  "walk (from_names [''ab'', ''abc'']) 0 ''a'' \<noteq> Diverge \<and>
   walk (from_names [''ab'', ''abc'']) 0 ''ab('' = Complete \<and>
   walk (from_names [''ab'', ''abc'']) 0 ''abd'' = Diverge"
proof -
  let ?ns = "[''ab'', ''abc'']"
  have fit: "names_fit ?ns" by (simp add: names_fit_def)
  have "name_done ?ns ''ab(''" "\<not> name_done ?ns ''abd''"
    by code_simp+
  then show ?thesis
    using trie_walk_reachability [OF fit, of "''a''"] trie_walk_reachability [OF fit, of "''ab(''"]
      trie_walk_reachability [OF fit, of "''abd''"]
    by (simp add: trie_root_def del: walk.simps)
qed

text \<open>A name that arrives in pieces, token by token, meets the verdict it would meet in one
  piece: from the cursor where the first pieces left the trie, a further piece is kept exactly
  when the concatenation of all pieces is kept from the root.\<close>

theorem trie_walk_token_split:
  assumes "names_fit names"
    and "walk (from_names names) (trie_root (from_names names)) (concat pieces) = Stay cursor"
  shows "walk (from_names names) cursor piece =
      walk (from_names names) (trie_root (from_names names)) (concat (pieces @ [piece]))"
  using names.resume [OF assms] by simp

theorem trie_walk_token_split_witness:
  "walk (from_names [''countryName'']) 7 ''Name'' =
   walk (from_names [''countryName'']) 0 (concat [''coun'', ''try'', ''Name''])"
proof -
  have "walk (from_names [''countryName'']) (trie_root (from_names [''countryName'']))
      (concat [''coun'', ''try'']) = Stay 7"
    by code_simp
  moreover have "names_fit [''countryName'']" by (simp add: names_fit_def)
  ultimately show ?thesis
    using trie_walk_token_split [of "[''countryName'']" "[''coun'', ''try'']" 7 "''Name''"]
    by (simp add: trie_root_def del: walk.simps)
qed

end
