(* ===== verification/Schema_Model.thy ===== *)
theory Schema_Model
  imports Prelude
begin

text \<open>
  The schema contract of \<open>src/src/schema/model.rs\<close>: the pure data a schema-aware decode
  consults, the association-navigability map derived once from it, and the two traversals of
  the super-type graph, \<open>member_names\<close> and \<open>resolve\<close>, each with its list of visited classes.
  The map of classes is an association list, because \<open>source_paths\<close> iterates over its keys.
  The deserialisation of the JSON text is the library \<open>serde_json\<close>: a parameter of
  \<open>from_json\<close>.
\<close>

section \<open>The data contract\<close>

datatype prim_name =
  PnInteger | PnFloat | PnDecimal | PnNumber | PnString | PnBoolean | PnDate | PnStrictDate | PnDateTime

datatype type_cls = TcNumeric | TcStr | TcBoolean | TcTemporal

fun prim_type_cls :: "prim_name \<Rightarrow> type_cls" where
  "prim_type_cls PnInteger = TcNumeric"
| "prim_type_cls PnFloat = TcNumeric"
| "prim_type_cls PnDecimal = TcNumeric"
| "prim_type_cls PnNumber = TcNumeric"
| "prim_type_cls PnString = TcStr"
| "prim_type_cls PnBoolean = TcBoolean"
| "prim_type_cls PnDate = TcTemporal"
| "prim_type_cls PnStrictDate = TcTemporal"
| "prim_type_cls PnDateTime = TcTemporal"

datatype prop_type = PtPrimitive prim_name | PtClass bytes | PtEnum bytes

record multiplicity =
  mu_lower :: u32
  mu_upper :: "u32 option"

record property_spec =
  ps_name :: bytes
  ps_ty :: prop_type
  ps_mult :: multiplicity

record qualified_property_spec =
  qp_name :: bytes
  qp_return_type :: prop_type
  qp_return_mult :: multiplicity

record class_info =
  ci_simple_name :: bytes
  ci_properties :: "property_spec list"
  ci_qualified_properties :: "qualified_property_spec list"
  ci_super_types :: "bytes list"

record association_end =
  ae_property_name :: bytes
  ae_target_class :: bytes
  ae_mult :: multiplicity

record association_spec =
  as_path :: bytes
  as_ends :: "association_end \<times> association_end"

record nav_step =
  ns_prop :: bytes
  ns_target :: bytes
  ns_mult :: multiplicity

datatype resolved =
  ResPrimitive prim_name multiplicity
| ResClass bytes multiplicity
| ResEnum bytes multiplicity

record schema_data =
  sd_db_id :: bytes
  sd_db_path :: bytes
  sd_classes :: "(bytes \<times> class_info) list"
  sd_associations :: "association_spec list"
  sd_enums :: "bytes \<rightharpoonup> bytes list"

datatype 'e schema_error = SchemaJson 'e

record schema =
  sch_db_id :: bytes
  sch_db_path :: bytes
  sch_classes :: "(bytes \<times> class_info) list"
  sch_enums :: "bytes \<rightharpoonup> bytes list"
  sch_navigable :: "bytes \<rightharpoonup> nav_step list"

section \<open>Construction\<close>

text \<open>\<open>map.entry(k).or_default().push(v)\<close>\<close>

definition entry_push :: "('k \<rightharpoonup> 'v list) \<Rightarrow> 'k \<Rightarrow> 'v \<Rightarrow> ('k \<rightharpoonup> 'v list)" where
  "entry_push m k v = m(k \<mapsto> (case m k of Some vs \<Rightarrow> vec_push vs v | None \<Rightarrow> [v]))"

definition nav_of_end :: "association_end \<Rightarrow> nav_step" where
  "nav_of_end e = \<lparr>ns_prop = ae_property_name e, ns_target = ae_target_class e, ns_mult = ae_mult e\<rparr>"

definition build_navigable :: "association_spec list \<Rightarrow> (bytes \<rightharpoonup> nav_step list)" where
  "build_navigable associations =
    foldl (\<lambda>navigable assoc. case as_ends assoc of (e0, e1) \<Rightarrow>
        entry_push (entry_push navigable (ae_target_class e0) (nav_of_end e1))
          (ae_target_class e1) (nav_of_end e0))
      Map.empty associations"

definition schema_of_data :: "schema_data \<Rightarrow> schema" where
  "schema_of_data d =
    \<lparr>sch_db_id = sd_db_id d, sch_db_path = sd_db_path d, sch_classes = sd_classes d,
     sch_enums = sd_enums d, sch_navigable = build_navigable (sd_associations d)\<rparr>"

definition from_json :: "(bytes \<Rightarrow> 'e + schema_data) \<Rightarrow> bytes \<Rightarrow> 'e schema_error + schema" where
  "from_json from_str json =
    (case from_str json of
       Inl e \<Rightarrow> Inl (SchemaJson e)
     | Inr d \<Rightarrow> Inr (schema_of_data d))"

definition db_id :: "schema \<Rightarrow> bytes" where
  "db_id s = sch_db_id s"

section \<open>Lookups\<close>

definition class_get :: "schema \<Rightarrow> bytes \<Rightarrow> class_info option" where
  "class_get s = map_of (sch_classes s)"

definition has_class :: "schema \<Rightarrow> bytes \<Rightarrow> bool" where
  "has_class s path = (class_get s path \<noteq> None)"

definition source_paths :: "schema \<Rightarrow> bytes list" where
  "source_paths s = map fst (sch_classes s) @ [sch_db_path s]"

definition enum_values :: "schema \<Rightarrow> bytes \<Rightarrow> bytes list option" where
  "enum_values s path = sch_enums s path"

fun resolved_from :: "prop_type \<Rightarrow> multiplicity \<Rightarrow> resolved" where
  "resolved_from (PtPrimitive p) m = ResPrimitive p m"
| "resolved_from (PtClass path) m = ResClass path m"
| "resolved_from (PtEnum path) m = ResEnum path m"

text \<open>The three loops over one class's own declarations.\<close>

definition prop_names :: "class_info \<Rightarrow> bytes list" where
  "prop_names info = map ps_name (ci_properties info) @ map qp_name (ci_qualified_properties info)"

definition step_names :: "schema \<Rightarrow> bytes \<Rightarrow> bytes list" where
  "step_names s cls = (case sch_navigable s cls of Some steps \<Rightarrow> map ns_prop steps | None \<Rightarrow> [])"

definition find_prop :: "class_info \<Rightarrow> bytes \<Rightarrow> resolved option" where
  "find_prop info ident =
    (case find (\<lambda>p. ps_name p = ident) (ci_properties info) of
       Some p \<Rightarrow> Some (resolved_from (ps_ty p) (ps_mult p))
     | None \<Rightarrow>
         (case find (\<lambda>q. qp_name q = ident) (ci_qualified_properties info) of
            Some q \<Rightarrow> Some (resolved_from (qp_return_type q) (qp_return_mult q))
          | None \<Rightarrow> None))"

definition find_step :: "schema \<Rightarrow> bytes \<Rightarrow> bytes \<Rightarrow> resolved option" where
  "find_step s cls ident =
    (case sch_navigable s cls of
       Some steps \<Rightarrow> (case find (\<lambda>st. ns_prop st = ident) steps of
           Some st \<Rightarrow> Some (ResClass (ns_target st) (ns_mult st)) | None \<Rightarrow> None)
     | None \<Rightarrow> None)"

section \<open>The traversals\<close>

text \<open>Unvisited classes of the schema: the measure that makes the traversals end, also on a
  cyclic super-type graph.\<close>

definition unvisited :: "schema \<Rightarrow> bytes list \<Rightarrow> nat" where
  "unvisited s visited = card (fst ` set (sch_classes s) - set visited)"

lemma unvisited_mono: "set v \<subseteq> set v' \<Longrightarrow> unvisited s v' \<le> unvisited s v"
  unfolding unvisited_def by (intro card_mono) auto

lemma unvisited_push:
  assumes "class_get s c = Some info" and "c \<notin> set v"
  shows "unvisited s (vec_push v c) < unvisited s v"
  unfolding unvisited_def
proof (rule psubset_card_mono)
  have "c \<in> fst ` set (sch_classes s)"
    using assms(1) by (auto simp: class_get_def dest: map_of_SomeD intro: rev_image_eqI)
  with assms(2) show "fst ` set (sch_classes s) - set (vec_push v c) \<subset> fst ` set (sch_classes s) - set v"
    by auto
qed simp

function (sequential)
  collect_members :: "schema \<Rightarrow> bytes \<Rightarrow> bytes list \<times> bytes list \<Rightarrow> bytes list \<times> bytes list" and
  collect_parents :: "schema \<Rightarrow> bytes list \<Rightarrow> bytes list \<times> bytes list \<Rightarrow> bytes list \<times> bytes list"
where
  "collect_members s cls (names, visited) =
    (if cls \<in> set visited then (names, visited)
     else case (case class_get s cls of
                  Some info \<Rightarrow> collect_parents s (ci_super_types info)
                    (names @ prop_names info, vec_push visited cls)
                | None \<Rightarrow> (names, vec_push visited cls))
          of (names', visited') \<Rightarrow> (names' @ step_names s cls, visited'))"
| "collect_parents s [] acc = acc"
| "collect_parents s (parent # ps) acc = collect_parents s ps (collect_members s parent acc)"
  by pat_completeness auto

lemma collect_grows:
  "collect_members_collect_parents_dom (Inl (s, c, acc)) \<Longrightarrow>
     set (snd acc) \<subseteq> set (snd (collect_members s c acc))"
  "collect_members_collect_parents_dom (Inr (s, ps, acc)) \<Longrightarrow>
     set (snd acc) \<subseteq> set (snd (collect_parents s ps acc))"
  by (induction rule: collect_members_collect_parents.pinduct)
    (auto simp: collect_members.psimps collect_parents.psimps split: option.splits prod.splits)

lemma collect_unvisited:
  assumes "collect_members_collect_parents_dom (Inl (s, c, acc))"
  shows "unvisited s (snd (collect_members s c acc)) \<le> unvisited s (snd acc)"
  using collect_grows(1) [OF assms] by (rule unvisited_mono)

termination collect_members
  by (relation "inv_image (less_than <*lex*> less_than)
    (\<lambda>x. case x of Inl (s, c, acc) \<Rightarrow> (unvisited s (snd acc), 0)
              | Inr (s, ps, acc) \<Rightarrow> (unvisited s (snd acc), Suc (length ps)))")
    (auto simp: unvisited_push dest: collect_unvisited)

function (sequential)
  resolve_in :: "schema \<Rightarrow> bytes \<Rightarrow> bytes \<Rightarrow> bytes list \<Rightarrow> resolved option \<times> bytes list" and
  resolve_parents :: "schema \<Rightarrow> bytes list \<Rightarrow> bytes \<Rightarrow> bytes list \<Rightarrow> resolved option \<times> bytes list"
where
  "resolve_in s cls ident visited =
    (if cls \<in> set visited then (None, visited)
     else case (case class_get s cls of
                  Some info \<Rightarrow>
                    (case find_prop info ident of
                       Some r \<Rightarrow> (Some r, vec_push visited cls)
                     | None \<Rightarrow> resolve_parents s (ci_super_types info) ident (vec_push visited cls))
                | None \<Rightarrow> (None, vec_push visited cls))
          of (Some r, visited') \<Rightarrow> (Some r, visited')
           | (None, visited') \<Rightarrow> (find_step s cls ident, visited'))"
| "resolve_parents s [] ident visited = (None, visited)"
| "resolve_parents s (parent # ps) ident visited =
    (case resolve_in s parent ident visited of
       (Some r, visited') \<Rightarrow> (Some r, visited')
     | (None, visited') \<Rightarrow> resolve_parents s ps ident visited')"
  by pat_completeness auto

lemma resolve_grows:
  "resolve_in_resolve_parents_dom (Inl (s, c, i, v)) \<Longrightarrow> set v \<subseteq> set (snd (resolve_in s c i v))"
  "resolve_in_resolve_parents_dom (Inr (s, ps, i, v)) \<Longrightarrow> set v \<subseteq> set (snd (resolve_parents s ps i v))"
  by (induction rule: resolve_in_resolve_parents.pinduct)
    (auto simp: resolve_in.psimps resolve_parents.psimps split: option.splits prod.splits, blast)

lemma resolve_unvisited:
  assumes "(r, v') = resolve_in s c i v" and "resolve_in_resolve_parents_dom (Inl (s, c, i, v))"
  shows "unvisited s v' \<le> unvisited s v"
  using resolve_grows(1) [OF assms(2)] assms(1) by (intro unvisited_mono) (metis snd_conv)

termination resolve_in
  by (relation "inv_image (less_than <*lex*> less_than)
    (\<lambda>x. case x of Inl (s, c, i, v) \<Rightarrow> (unvisited s v, 0)
              | Inr (s, ps, i, v) \<Rightarrow> (unvisited s v, Suc (length ps)))")
    (auto simp: unvisited_push dest: resolve_unvisited)

definition member_names :: "schema \<Rightarrow> bytes \<Rightarrow> bytes list" where
  "member_names s cls = fst (collect_members s cls ([], []))"

definition resolve :: "schema \<Rightarrow> bytes \<Rightarrow> bytes \<Rightarrow> resolved option" where
  "resolve s cls ident = fst (resolve_in s cls ident [])"

section \<open>The super-type graph\<close>

text \<open>\<open>inherits s c d\<close>: \<open>d\<close> is declared a super-type of \<open>c\<close>; a class's own names and its own
  answer to a lookup.\<close>

definition inherits :: "schema \<Rightarrow> (bytes \<times> bytes) set" where
  "inherits s = {(c, d). \<exists>info. class_get s c = Some info \<and> d \<in> set (ci_super_types info)}"

definition own_names :: "schema \<Rightarrow> bytes \<Rightarrow> bytes set" where
  "own_names s c = (case class_get s c of Some info \<Rightarrow> set (prop_names info) | None \<Rightarrow> {})
    \<union> set (step_names s c)"

definition declares :: "schema \<Rightarrow> bytes \<Rightarrow> bytes \<Rightarrow> resolved \<Rightarrow> bool" where
  "declares s c ident r \<longleftrightarrow>
    (\<exists>info. class_get s c = Some info \<and> find_prop info ident = Some r) \<or> find_step s c ident = Some r"

lemma find_prop_None: "find_prop info ident = None \<longleftrightarrow> ident \<notin> set (prop_names info)"
  by (auto simp: find_prop_def prop_names_def find_None_iff find_Some_iff split: option.splits)

lemma find_step_None: "find_step s c ident = None \<longleftrightarrow> ident \<notin> set (step_names s c)"
  by (auto simp: find_step_def step_names_def find_None_iff find_Some_iff split: option.splits)

lemma own_names_iff: "ident \<in> own_names s c \<longleftrightarrow> (\<exists>r. declares s c ident r)"
  using find_step_None [of s c ident] find_prop_None [of _ ident]
  by (auto simp: own_names_def declares_def split: option.splits) (metis not_None_eq)+

text \<open>What one call of a traversal has visited, against the list \<open>v\<close> it began with: classes
  reachable from its roots, closed under super-types.\<close>

definition visits :: "schema \<Rightarrow> bytes set \<Rightarrow> bytes list \<Rightarrow> bytes list \<Rightarrow> bool" where
  "visits s roots v v' \<longleftrightarrow> set v \<subseteq> set v' \<and> roots \<subseteq> set v' \<and>
    (\<forall>d \<in> set v' - set v. d \<in> (inherits s)\<^sup>* `` roots \<and> inherits s `` {d} \<subseteq> set v') \<and>
    (distinct v \<longrightarrow> distinct v')"

lemma visits_refl: "roots \<subseteq> set v \<Longrightarrow> visits s roots v v"
  by (simp add: visits_def)

lemma visits_cons:
  assumes "visits s {p} v v1" and "visits s (set ps) v1 v2"
  shows "visits s (set (p # ps)) v v2"
  using assms unfolding visits_def by (auto simp: Image_def) blast+

lemma visits_node:
  assumes "c \<notin> set v" and "visits s (inherits s `` {c}) (vec_push v c) v'"
  shows "visits s {c} v v'"
proof -
  have reach: "d \<in> (inherits s)\<^sup>* `` {c}" if "d = c \<or> d \<in> (inherits s)\<^sup>* `` (inherits s `` {c})" for d
    using that by (auto intro: converse_rtrancl_into_rtrancl)
  have "d \<in> (inherits s)\<^sup>* `` {c} \<and> inherits s `` {d} \<subseteq> set v'" if "d \<in> set v' - set v" for d
    using assms that reach [of d] unfolding visits_def by (cases "d = c") (simp_all del: Image_singleton_iff)
  with assms show ?thesis unfolding visits_def by simp
qed

lemma visits_from_root:
  assumes "visits s {c} [] v"
  shows "set v = (inherits s)\<^sup>* `` {c}"
proof
  show "set v \<subseteq> (inherits s)\<^sup>* `` {c}" using assms by (auto simp: visits_def)
  have "d \<in> set v" if "(c, d) \<in> (inherits s)\<^sup>*" for d
    using that assms by (induction rule: rtrancl_induct) (auto simp: visits_def)
  then show "(inherits s)\<^sup>* `` {c} \<subseteq> set v" by auto
qed

lemma inherits_None: "class_get s c = None \<Longrightarrow> inherits s `` {c} = {}"
  by (auto simp: inherits_def)

lemma inherits_Some: "class_get s c = Some info \<Longrightarrow> inherits s `` {c} = set (ci_super_types info)"
  by (auto simp: inherits_def)

lemma collect_visits:
  "visits s {c} (snd acc) (snd (collect_members s c acc)) \<and>
    set (fst (collect_members s c acc)) = set (fst acc) \<union>
      \<Union> (own_names s ` (set (snd (collect_members s c acc)) - set (snd acc)))"
  "visits s (set ps) (snd acc) (snd (collect_parents s ps acc)) \<and>
    set (fst (collect_parents s ps acc)) = set (fst acc) \<union>
      \<Union> (own_names s ` (set (snd (collect_parents s ps acc)) - set (snd acc)))"
proof (induction s c acc and s ps acc rule: collect_members_collect_parents.induct)
  case (1 s c names v)
  show ?case
  proof (cases "c \<in> set v")
    case True
    then show ?thesis by (simp add: visits_refl)
  next
    case False
    show ?thesis
    proof (cases "class_get s c")
      case None
      have "visits s {c} v (vec_push v c)"
        using False by (intro visits_node visits_refl) (auto simp: inherits_None [OF None])
      then show ?thesis using False None by (auto simp: own_names_def)
    next
      case (Some info)
      obtain n' v' where p: "collect_parents s (ci_super_types info) (names @ prop_names info, vec_push v c)
          = (n', v')" by fastforce
      from 1 [OF False Some] p have ih: "visits s (inherits s `` {c}) (vec_push v c) v'"
        "set n' = set names \<union> set (prop_names info) \<union> \<Union> (own_names s ` (set v' - set (vec_push v c)))"
        by (auto simp: inherits_Some [OF Some])
      have "c \<in> set v'" using ih(1) by (auto simp: visits_def)
      then have "set v' - set v = insert c (set v' - set (vec_push v c))" using False by auto
      then show ?thesis
        using visits_node [OF False ih(1)] ih(2) False Some p by (auto simp: own_names_def)
    qed
  qed
next
  case (2 s acc)
  then show ?case by (simp add: visits_refl)
next
  case (3 s p ps acc)
  let ?a = "collect_members s p acc" and ?b = "collect_parents s ps (collect_members s p acc)"
  have "set (snd ?b) - set (snd acc) = (set (snd ?a) - set (snd acc)) \<union> (set (snd ?b) - set (snd ?a))"
    using 3 by (auto simp: visits_def)
  then show ?case using 3 visits_cons [of s p "snd acc" "snd ?a" ps "snd ?b"] by auto
qed

text \<open>What a lookup owes its caller: nothing found, and then no visited class has the name; or a
  declaration of the name in a class reachable from the roots.\<close>

definition answered :: "schema \<Rightarrow> bytes set \<Rightarrow> bytes \<Rightarrow> bytes list \<Rightarrow> resolved option \<times> bytes list \<Rightarrow> bool" where
  "answered s roots i v out \<longleftrightarrow>
    (case out of
       (None, v') \<Rightarrow> visits s roots v v' \<and> (\<forall>d \<in> set v' - set v. i \<notin> own_names s d)
     | (Some r, v') \<Rightarrow> \<exists>d \<in> (inherits s)\<^sup>* `` roots. declares s d i r)"

lemma answered_seen: "roots \<subseteq> set v \<Longrightarrow> answered s roots i v (None, v)"
  by (simp add: answered_def visits_refl)

lemma answered_here: "declares s c i r \<Longrightarrow> answered s {c} i v (Some r, v')"
  by (auto simp: answered_def)

lemma answered_node:
  assumes "c \<notin> set v" and "\<And>r. find_step s c i = None \<Longrightarrow> \<not> declares s c i r"
    and "answered s (inherits s `` {c}) i (vec_push v c) (None, v')"
  shows "answered s {c} i v (find_step s c i, v')"
proof (cases "find_step s c i")
  case None
  have "visits s {c} v v'" using visits_node [OF assms(1)] assms(3) by (simp add: answered_def)
  moreover have "i \<notin> own_names s d" if "d \<in> set v' - set v" for d
    using that assms(2) [OF None] assms(3) by (cases "d = c") (auto simp: own_names_iff answered_def)
  ultimately show ?thesis using None by (simp add: answered_def)
qed (simp add: answered_here declares_def)

lemma answered_above:
  assumes "answered s (inherits s `` {c}) i v (Some r, v')"
  shows "answered s {c} i v0 (Some r, v0')"
  using assms by (auto simp: answered_def intro: converse_rtrancl_into_rtrancl)

lemma answered_cons:
  assumes "answered s {p} i v (None, v1)" and "answered s (set ps) i v1 out"
  shows "answered s (set (p # ps)) i v out"
  using assms visits_cons [of s p v v1 ps] by (fastforce simp: answered_def split: option.splits)

lemma resolve_answered:
  "answered s {c} i v (resolve_in s c i v)"
  "answered s (set ps) i v (resolve_parents s ps i v)"
proof (induction s c i v and s ps i v rule: resolve_in_resolve_parents.induct)
  case (1 s c i v)
  show ?case
  proof (cases "c \<in> set v")
    case fresh: False
    show ?thesis
    proof (cases "class_get s c")
      case None
      have "answered s {c} i v (find_step s c i, vec_push v c)"
        using None by (intro answered_node [OF fresh] answered_seen)
          (auto simp: inherits_None declares_def)
      then show ?thesis using fresh None by simp
    next
      case (Some info)
      show ?thesis
      proof (cases "find_prop info i")
        case found: (Some r)
        then show ?thesis using fresh Some by (auto intro: answered_here simp: declares_def)
      next
        case none: None
        obtain r v' where p: "resolve_parents s (ci_super_types info) i (vec_push v c) = (r, v')"
          by fastforce
        have ih: "answered s (inherits s `` {c}) i (vec_push v c) (r, v')"
          using 1 [OF fresh Some none] p by (simp add: inherits_Some [OF Some])
        have "answered s {c} i v (find_step s c i, v')" if "r = None"
          using ih that none Some by (intro answered_node [OF fresh]) (auto simp: declares_def)
        then show ?thesis using fresh Some none p answered_above ih by (auto split: option.split)
      qed
    qed
  qed (simp add: answered_seen)
next
  case (3 s p ps i v)
  obtain r v1 where one: "resolve_in s p i v = (r, v1)" by fastforce
  show ?case
  proof (cases r)
    case None
    then show ?thesis using 3 one answered_cons [of s p i v v1 ps] by simp
  qed (use 3(1) one in \<open>fastforce simp: answered_def\<close>)
qed (simp add: answered_seen)

lemma set_member_names:
  "set (member_names s c) = (\<Union>d \<in> (inherits s)\<^sup>* `` {c}. own_names s d)"
  using collect_visits(1) [of s c "([], [])"] visits_from_root [of s c]
  by (auto simp: member_names_def)

lemma resolve_None_iff: "resolve s c i = None \<longleftrightarrow> i \<notin> set (member_names s c)"
proof -
  obtain r v where rv: "resolve_in s c i [] = (r, v)" by fastforce
  then have ans: "answered s {c} i [] (r, v)" using resolve_answered(1) [of s c i "[]"] by simp
  show ?thesis
  proof (cases r)
    case None
    with ans have "visits s {c} [] v" "\<forall>d \<in> set v. i \<notin> own_names s d" by (simp_all add: answered_def)
    then show ?thesis using visits_from_root rv None by (auto simp: resolve_def set_member_names)
  next
    case (Some r')
    with ans show ?thesis using rv by (auto simp: answered_def resolve_def set_member_names own_names_iff)
  qed
qed

lemma entry_push_set:
  "(case entry_push m k v c of Some vs \<Rightarrow> set vs | None \<Rightarrow> {}) =
    (case m c of Some vs \<Rightarrow> set vs | None \<Rightarrow> {}) \<union> (if c = k then {v} else {})"
  by (auto simp: entry_push_def split: option.splits)

lemma build_navigable_fold:
  "(case foldl (\<lambda>navigable assoc. case as_ends assoc of (e0, e1) \<Rightarrow>
        entry_push (entry_push navigable (ae_target_class e0) (nav_of_end e1))
          (ae_target_class e1) (nav_of_end e0)) m associations c of Some vs \<Rightarrow> set vs | None \<Rightarrow> {}) =
   (case m c of Some vs \<Rightarrow> set vs | None \<Rightarrow> {}) \<union>
   {nav_of_end far |near far. ae_target_class near = c \<and>
      (\<exists>a \<in> set associations. as_ends a = (near, far) \<or> as_ends a = (far, near))}"
proof (induction associations arbitrary: m)
  case Nil
  then show ?case by simp
next
  case (Cons a associations)
  obtain e0 e1 where e: "as_ends a = (e0, e1)" by fastforce
  show ?case unfolding foldl_Cons Cons.IH e prod.case entry_push_set
    by (auto simp: e)
qed

section \<open>Properties\<close>

text \<open>C15: The two traversals agree with the super-type graph of the schema, which may be cyclic: the
  member names of a class are exactly the stored, qualified and navigable names of the classes
  reachable from it through super-types; an identifier resolves exactly when it is one of those
  names; and what it resolves to is a declaration of that name in one of those classes.\<close>

theorem members_and_resolve_agree:
  "set (member_names s cls) = (\<Union>d \<in> {d. (cls, d) \<in> (inherits s)\<^sup>*}. own_names s d) \<and>
   (resolve s cls ident = None \<longleftrightarrow> ident \<notin> set (member_names s cls)) \<and>
   (resolve s cls ident = Some r \<longrightarrow> (\<exists>d. (cls, d) \<in> (inherits s)\<^sup>* \<and> declares s d ident r))"
proof (intro conjI impI)
  show "set (member_names s cls) = (\<Union>d \<in> {d. (cls, d) \<in> (inherits s)\<^sup>*}. own_names s d)"
    by (auto simp: set_member_names)
  show "resolve s cls ident = None \<longleftrightarrow> ident \<notin> set (member_names s cls)" by (rule resolve_None_iff)
  assume "resolve s cls ident = Some r"
  then obtain v where "resolve_in s cls ident [] = (Some r, v)"
    by (metis fst_conv resolve_def surj_pair)
  with resolve_answered(1) [of s cls ident "[]"]
  show "\<exists>d. (cls, d) \<in> (inherits s)\<^sup>* \<and> declares s d ident r" by (auto simp: answered_def)
qed

text \<open>A schema whose two classes inherit from each other.\<close>

definition one_one :: multiplicity where
  "one_one = \<lparr>mu_lower = 1, mu_upper = Some 1\<rparr>"

definition cyclic_data :: schema_data where
  "cyclic_data = \<lparr>sd_db_id = ''d'', sd_db_path = ''m::Db'',
     sd_classes =
       [(''m::A'', \<lparr>ci_simple_name = ''A'',
           ci_properties = [\<lparr>ps_name = ''age'', ps_ty = PtPrimitive PnInteger, ps_mult = one_one\<rparr>],
           ci_qualified_properties = [], ci_super_types = [''m::B'']\<rparr>),
        (''m::B'', \<lparr>ci_simple_name = ''B'',
           ci_properties = [\<lparr>ps_name = ''name'', ps_ty = PtPrimitive PnString, ps_mult = one_one\<rparr>],
           ci_qualified_properties = [], ci_super_types = [''m::A'']\<rparr>)],
     sd_associations = [\<lparr>as_path = ''m::AB'',
        as_ends = (\<lparr>ae_property_name = ''toA'', ae_target_class = ''m::A'', ae_mult = one_one\<rparr>,
                   \<lparr>ae_property_name = ''toB'', ae_target_class = ''m::B'', ae_mult = one_one\<rparr>)\<rparr>],
     sd_enums = Map.empty\<rparr>"

theorem members_and_resolve_agree_witness:
  "resolve (schema_of_data cyclic_data) ''m::A'' ''name'' = Some (ResPrimitive PnString one_one) \<and>
   (\<exists>d. (''m::A'', d) \<in> (inherits (schema_of_data cyclic_data))\<^sup>* \<and>
      declares (schema_of_data cyclic_data) d ''name'' (ResPrimitive PnString one_one))"
proof -
  have "resolve (schema_of_data cyclic_data) ''m::A'' ''name'' = Some (ResPrimitive PnString one_one)"
    by code_simp
  with members_and_resolve_agree [of "schema_of_data cyclic_data" "''m::A''" "''name''"]
  show ?thesis by blast
qed

text \<open>The navigability map has the direction of the associations: a step leads from a class exactly
  when some association has an end that targets the class, and the step carries the property
  name, the target and the multiplicity of the opposite end.\<close>

theorem navigable_directions:
  "st \<in> (case sch_navigable (schema_of_data d) cls of Some steps \<Rightarrow> set steps | None \<Rightarrow> {}) \<longleftrightarrow>
    (\<exists>a \<in> set (sd_associations d). \<exists>near far.
       (as_ends a = (near, far) \<or> as_ends a = (far, near)) \<and> ae_target_class near = cls \<and>
       st = \<lparr>ns_prop = ae_property_name far, ns_target = ae_target_class far, ns_mult = ae_mult far\<rparr>)"
  using build_navigable_fold [of Map.empty "sd_associations d" cls]
  by (auto simp: schema_of_data_def build_navigable_def nav_of_end_def)

end
