(* ===== verification/Scope_Tracker.thy ===== *)
theory Scope_Tracker
  imports Pda Schema_Model
begin

text \<open>
  The scope machine of \<open>src/src/schema/scope.rs\<close>: lexeme classification, the tracker's state,
  one definition per handler, the walk \<open>observe\<close> that cuts a committed token at its lexeme
  boundaries, and the positions the narrower reads.  The handlers take and return the tracker;
  \<open>on_ident\<close> and \<open>resolve_member\<close> also thread the out-parameter \<open>resolved_now\<close>.
\<close>

section \<open>Lexemes\<close>

definition is_two_byte_op :: "u8 \<Rightarrow> u8 \<Rightarrow> bool" where
  "is_two_byte_op a b = ((a, b) \<in> {(CHR ''-'', CHR ''>''), (CHR ''='', CHR ''=''),
     (CHR ''!'', CHR ''=''), (CHR ''<'', CHR ''=''), (CHR ''>'', CHR ''=''),
     (CHR ''&'', CHR ''&''), (CHR ''|'', CHR ''|'')})"

datatype lexeme =
  LxWs | LxIdent bytes | LxStr bytes | LxNumber | LxDate | LxArrow | LxDot | LxDollar
| LxPipe | LxCmp | LxOpen | LxClose | LxComma | LxOther

text \<open>The undoubling loop of \<open>unquote\<close>, and \<open>strip_prefix\<close>, \<open>strip_suffix\<close> of one quote.\<close>

fun undouble :: "bytes \<Rightarrow> bytes" where
  "undouble [] = []"
| "undouble (b # tail) =
    b # (case tail of
           [] \<Rightarrow> []
         | c # tail' \<Rightarrow> if b = CHR 0x27 \<and> c = CHR 0x27 then undouble tail' else undouble tail)"

definition strip_quotes :: "bytes \<Rightarrow> bytes option" where
  "strip_quotes bs =
    (case bs of
       [] \<Rightarrow> None
     | b # rest \<Rightarrow>
         if b = CHR 0x27 \<and> vec_last rest = Some (CHR 0x27) then Some (butlast rest) else None)"

definition unquote :: "bytes \<Rightarrow> bytes" where
  "unquote bs = undouble (case strip_quotes bs of Some inner \<Rightarrow> inner | None \<Rightarrow> bs)"

definition classify :: "bytes \<Rightarrow> lexeme" where
  "classify bs =
    (if list_all is_ascii_whitespace bs then LxWs
     else if bs = ''->'' then LxArrow
     else if bs \<in> {''=='', ''!='', ''<='', ''>='', ''<'', ''>''} then LxCmp
     else if bs = ''.'' then LxDot
     else if bs = ''$'' then LxDollar
     else if bs = ''|'' then LxPipe
     else if bs = '','' then LxComma
     else if bs \<in> {''('', ''['', ''{''} then LxOpen
     else if bs \<in> {'')'', '']'', ''}''} then LxClose
     else if hd bs = CHR 0x27 then LxStr (unquote bs)
     else if hd bs = CHR ''%'' then LxDate
     else if is_ascii_digit (hd bs) \<or>
       (hd bs = CHR ''-'' \<and> (case vec_get bs 1 of Some c \<Rightarrow> is_ascii_digit c | None \<Rightarrow> False))
     then LxNumber
     else if is_ident_start (hd bs) \<and> utf8_valid bs then LxIdent bs
     else LxOther)"

datatype l2_position =
  L2SourceIdent | L2Member bytes | L2ReValue type_cls | L2Column | L2RelationColumn | L2None

definition SOURCE_METHOD :: bytes where
  "SOURCE_METHOD = ''all''"

definition NESTED_SOURCE_MIN_DEPTH :: u32 where
  "NESTED_SOURCE_MIN_DEPTH = 2"

definition ESTABLISHING_METHODS :: "bytes list" where
  "ESTABLISHING_METHODS = [''project'', ''groupBy'', ''olapGroupBy'']"

definition REF_METHODS :: "bytes list" where
  "REF_METHODS = [''getInteger'', ''getFloat'', ''getString'', ''getBoolean'',
    ''sort'', ''asc'', ''desc'', ''restrict'']"

section \<open>The state\<close>

record pending_lexeme =
  pd_kind :: lex_kind
  pd_buf :: bytes
  pd_anchor :: state
  pd_pos :: l2_position

record binder_save =
  bs_depth :: u32
  bs_name :: bytes
  bs_prev_class :: "bytes option option"
  bs_prev_relation_row :: bool

record scope_save =
  ss_depth :: u32
  ss_prev_cur_class :: "bytes option"
  ss_prev_rel_explicit :: bool
  ss_prev_saw_tilde_bracket :: bool

record scope_tracker =
  tk_pending :: "pending_lexeme option"
  tk_cur_class :: "bytes option"
  tk_var_class :: "bytes \<rightharpoonup> bytes option"
  tk_pending_refvar :: "bytes option"
  tk_dot_base :: "bytes option"
  tk_nav_cursor :: "bytes option"
  tk_last_resolved :: "type_cls option"
  tk_last_nav_class :: "bytes option"
  tk_cmp_pending :: "type_cls option"
  tk_lambda_first_ident :: "bytes option"
  tk_pending_arrow_receiver :: "bytes option option"
  tk_paren_receiver :: "bytes option list"
  tk_est_stack :: "u32 list"
  tk_ref_stack :: "u32 list"
  tk_depth :: u32
  tk_last_ident :: "bytes option"
  tk_rel_explicit :: bool
  tk_saw_tilde_bracket :: bool
  tk_tilde_open :: "bool list"
  tk_relation_row_vars :: "bytes set"
  tk_binder_saves :: "binder_save list"
  tk_scope_saves :: "scope_save list"
  tk_dot_is_column :: bool
  tk_emitted_strings :: "bytes list"

definition tracker_new :: scope_tracker where
  "tracker_new =
    \<lparr>tk_pending = None, tk_cur_class = None, tk_var_class = Map.empty, tk_pending_refvar = None,
     tk_dot_base = None, tk_nav_cursor = None, tk_last_resolved = None, tk_last_nav_class = None,
     tk_cmp_pending = None, tk_lambda_first_ident = None, tk_pending_arrow_receiver = None,
     tk_paren_receiver = [], tk_est_stack = [], tk_ref_stack = [], tk_depth = 0,
     tk_last_ident = None, tk_rel_explicit = False, tk_saw_tilde_bracket = False,
     tk_tilde_open = [], tk_relation_row_vars = {}, tk_binder_saves = [], tk_scope_saves = [],
     tk_dot_is_column = False, tk_emitted_strings = []\<rparr>"

text \<open>\<open>opt.flatten()\<close>\<close>

definition flatten :: "'a option option \<Rightarrow> 'a option" where
  "flatten x = (case x of Some y \<Rightarrow> y | None \<Rightarrow> None)"

section \<open>Handlers\<close>

definition resolve_member :: "scope_tracker \<Rightarrow> bytes \<Rightarrow> schema \<Rightarrow> type_cls option
    \<Rightarrow> scope_tracker \<times> type_cls option" where [scope_defs]:
  "resolve_member t ident s resolved_now =
    (if tk_dot_is_column t
     then (t\<lparr>tk_dot_is_column := False, tk_nav_cursor := None, tk_last_nav_class := None\<rparr>, resolved_now)
     else (case tk_dot_base t of
        None \<Rightarrow> (t, resolved_now)
      | Some base \<Rightarrow>
          (let t = t\<lparr>tk_dot_base := None\<rparr> in
           case resolve s base ident of
             Some (ResClass path _) \<Rightarrow>
               (t\<lparr>tk_nav_cursor := Some path, tk_last_nav_class := Some path\<rparr>, resolved_now)
           | Some (ResPrimitive prim _) \<Rightarrow>
               (t\<lparr>tk_nav_cursor := None, tk_last_nav_class := None\<rparr>, Some (prim_type_cls prim))
           | _ \<Rightarrow> (t\<lparr>tk_nav_cursor := None, tk_last_nav_class := None\<rparr>, resolved_now))))"

definition on_ident :: "scope_tracker \<Rightarrow> bytes \<Rightarrow> state \<Rightarrow> schema \<Rightarrow> type_cls option
    \<Rightarrow> scope_tracker \<times> type_cls option" where [scope_defs]:
  "on_ident t ident pre s resolved_now =
    (let t = (if has_class s ident then t\<lparr>tk_cur_class := Some ident\<rparr> else t);
         (t, resolved_now) =
           (if pre = AfterDollar then (t\<lparr>tk_pending_refvar := Some ident\<rparr>, resolved_now)
            else if pre = AfterDot then resolve_member t ident s resolved_now
            else if pre = ExpectValue \<or> pre = ExpectValueReq
            then (t\<lparr>tk_lambda_first_ident := Some ident\<rparr>, resolved_now)
            else if (pre = AfterColon \<or> pre = AfterColonWs) \<and> \<not> has_class s ident
            then (t\<lparr>tk_lambda_first_ident := Some ident\<rparr>, resolved_now)
            else (t, resolved_now));
         in_tilde_key = (pre = ExpectValue \<or> pre = ExpectValueReq) \<and>
           vec_last (tk_tilde_open t) = Some True;
         t = (if pre = SawTilde \<or> in_tilde_key
              then t\<lparr>tk_emitted_strings := vec_push (tk_emitted_strings t) ident\<rparr> else t)
     in (t\<lparr>tk_last_ident := Some ident\<rparr>, resolved_now))"

definition on_dot :: "scope_tracker \<Rightarrow> scope_tracker" where [scope_defs]:
  "on_dot t =
    (let t = t\<lparr>tk_dot_is_column := False\<rparr> in
     case tk_pending_refvar t of
       Some var \<Rightarrow>
         (let t = t\<lparr>tk_pending_refvar := None\<rparr> in
          if var \<in> tk_relation_row_vars t then t\<lparr>tk_dot_is_column := True, tk_dot_base := None\<rparr>
          else t\<lparr>tk_dot_base := flatten (tk_var_class t var)\<rparr>)
     | None \<Rightarrow>
         (case tk_nav_cursor t of
            Some cursor \<Rightarrow> t\<lparr>tk_dot_base := Some cursor\<rparr>
          | None \<Rightarrow> t\<lparr>tk_dot_base := None\<rparr>))"

definition on_arrow :: "scope_tracker \<Rightarrow> scope_tracker" where [scope_defs]:
  "on_arrow t =
    (let receiver = (case tk_last_nav_class t of Some c \<Rightarrow> Some c | None \<Rightarrow> tk_cur_class t)
     in t\<lparr>tk_last_nav_class := None, tk_pending_arrow_receiver := Some receiver,
          tk_pending_refvar := None, tk_nav_cursor := None, tk_last_ident := None\<rparr>)"

definition bind_lambda :: "scope_tracker \<Rightarrow> bytes \<Rightarrow> scope_tracker" where [scope_defs]:
  "bind_lambda t name =
    (let t = t\<lparr>tk_binder_saves := vec_push (tk_binder_saves t)
           \<lparr>bs_depth = tk_depth t, bs_name = name, bs_prev_class = tk_var_class t name,
            bs_prev_relation_row = (name \<in> tk_relation_row_vars t)\<rparr>\<rparr>;
         receiver = flatten (vec_last (tk_paren_receiver t))
     in if receiver = None \<and> tk_rel_explicit t \<and> tk_saw_tilde_bracket t
        then t\<lparr>tk_var_class := (tk_var_class t)(name := None),
               tk_relation_row_vars := insert name (tk_relation_row_vars t)\<rparr>
        else t\<lparr>tk_relation_row_vars := tk_relation_row_vars t - {name},
               tk_var_class := (tk_var_class t)(name \<mapsto> receiver)\<rparr>)"

definition on_pipe :: "scope_tracker \<Rightarrow> state \<Rightarrow> scope_tracker" where [scope_defs]:
  "on_pipe t pre =
    (if pre = Start \<or> pre = ExpectSource then t
     else
       (let t = t\<lparr>tk_scope_saves := vec_push (tk_scope_saves t)
              \<lparr>ss_depth = tk_depth t, ss_prev_cur_class = tk_cur_class t,
               ss_prev_rel_explicit = tk_rel_explicit t,
               ss_prev_saw_tilde_bracket = tk_saw_tilde_bracket t\<rparr>\<rparr>
        in case tk_lambda_first_ident t of
             None \<Rightarrow> t
           | Some name \<Rightarrow>
               (let t = t\<lparr>tk_lambda_first_ident := None\<rparr>
                in if name = [] then t else bind_lambda t name)))"

definition enter_method :: "scope_tracker \<Rightarrow> bytes \<Rightarrow> scope_tracker" where [scope_defs]:
  "enter_method t name =
    (let t = (if List.member ESTABLISHING_METHODS name
              then t\<lparr>tk_est_stack := vec_push (tk_est_stack t) (tk_depth t)\<rparr> else t);
         t = (if List.member REF_METHODS name
              then t\<lparr>tk_ref_stack := vec_push (tk_ref_stack t) (tk_depth t)\<rparr> else t)
     in if name = SOURCE_METHOD \<and> NESTED_SOURCE_MIN_DEPTH \<le> tk_depth t
        then t\<lparr>tk_rel_explicit := False, tk_saw_tilde_bracket := False\<rparr> else t)"

definition on_open :: "scope_tracker \<Rightarrow> state \<Rightarrow> scope_tracker" where [scope_defs]:
  "on_open t pre =
    (let called = tk_last_ident t;
         is_tilde_bracket = (pre = SawTilde);
         t = t\<lparr>tk_last_ident := None, tk_depth := tk_depth t + 1,
               tk_saw_tilde_bracket := tk_saw_tilde_bracket t \<or> is_tilde_bracket,
               tk_tilde_open := vec_push (tk_tilde_open t) is_tilde_bracket\<rparr>;
         t = (case called of Some name \<Rightarrow> enter_method t name | None \<Rightarrow> t);
         receiver = (case tk_pending_arrow_receiver t of Some r \<Rightarrow> r | None \<Rightarrow> tk_cur_class t)
     in t\<lparr>tk_pending_arrow_receiver := None,
          tk_paren_receiver := vec_push (tk_paren_receiver t) receiver,
          tk_lambda_first_ident := None\<rparr>)"

text \<open>The two restoring loops of \<open>on_close\<close>, their bodies first.\<close>

definition restore_binder :: "scope_tracker \<Rightarrow> binder_save \<Rightarrow> scope_tracker" where [scope_defs]:
  "restore_binder t save =
    t\<lparr>tk_var_class := (tk_var_class t)(bs_name save := bs_prev_class save),
      tk_relation_row_vars :=
        (if bs_prev_relation_row save then insert (bs_name save) (tk_relation_row_vars t)
         else tk_relation_row_vars t - {bs_name save})\<rparr>"

definition restore_scope :: "scope_tracker \<Rightarrow> scope_save \<Rightarrow> scope_tracker" where [scope_defs]:
  "restore_scope t save =
    t\<lparr>tk_cur_class := ss_prev_cur_class save, tk_rel_explicit := ss_prev_rel_explicit save,
      tk_saw_tilde_bracket := ss_prev_saw_tilde_bracket save\<rparr>"

function restore_binders :: "scope_tracker \<Rightarrow> scope_tracker" where
  "restore_binders t =
    (case vec_last (tk_binder_saves t) of
       Some save \<Rightarrow>
         if bs_depth save = tk_depth t
         then restore_binders (restore_binder (t\<lparr>tk_binder_saves := vec_pop (tk_binder_saves t)\<rparr>) save)
         else t
     | None \<Rightarrow> t)"
  by pat_completeness auto
termination
  by (relation "measure (length \<circ> tk_binder_saves)")
    (auto simp: restore_binder_def vec_last_def split: if_splits)

function restore_scopes :: "scope_tracker \<Rightarrow> scope_tracker" where
  "restore_scopes t =
    (case vec_last (tk_scope_saves t) of
       Some save \<Rightarrow>
         if ss_depth save = tk_depth t
         then restore_scopes (restore_scope (t\<lparr>tk_scope_saves := vec_pop (tk_scope_saves t)\<rparr>) save)
         else t
     | None \<Rightarrow> t)"
  by pat_completeness auto
termination
  by (relation "measure (length \<circ> tk_scope_saves)")
    (auto simp: restore_scope_def vec_last_def split: if_splits)

declare restore_binders.simps [simp del] restore_scopes.simps [simp del]

definition saturating_dec :: "u32 \<Rightarrow> u32" where
  "saturating_dec n = (if n = 0 then 0 else n - 1)"

definition on_close :: "scope_tracker \<Rightarrow> scope_tracker" where
  "on_close t =
    (let t = restore_scopes (restore_binders t);
         t = t\<lparr>tk_tilde_open := vec_pop (tk_tilde_open t)\<rparr>;
         t = (if vec_last (tk_ref_stack t) = Some (tk_depth t)
              then t\<lparr>tk_ref_stack := vec_pop (tk_ref_stack t)\<rparr> else t);
         t = (if vec_last (tk_est_stack t) = Some (tk_depth t)
              then t\<lparr>tk_est_stack := vec_pop (tk_est_stack t),
                     tk_rel_explicit := True, tk_cur_class := None\<rparr> else t)
     in t\<lparr>tk_paren_receiver := vec_pop (tk_paren_receiver t),
          tk_depth := saturating_dec (tk_depth t), tk_pending_arrow_receiver := None\<rparr>)"

section \<open>Dispatching one lexeme\<close>

definition handle_lexeme :: "scope_tracker \<Rightarrow> lexeme \<Rightarrow> state \<Rightarrow> schema
    \<Rightarrow> scope_tracker \<times> type_cls option" where
  "handle_lexeme t lx pre s =
    (case lx of
       LxIdent ident \<Rightarrow> on_ident t ident pre s None
     | LxDot \<Rightarrow> (on_dot t, None)
     | LxArrow \<Rightarrow> (on_arrow t, None)
     | LxCmp \<Rightarrow>
         (case tk_last_resolved t of
            Some tc \<Rightarrow> (t\<lparr>tk_cmp_pending := Some tc\<rparr>, None)
          | None \<Rightarrow> (t, None))
     | LxPipe \<Rightarrow> (on_pipe t pre, None)
     | LxOpen \<Rightarrow> (on_open t pre, None)
     | LxClose \<Rightarrow> (on_close t, None)
     | LxComma \<Rightarrow> (t\<lparr>tk_lambda_first_ident := None, tk_last_ident := None\<rparr>, None)
     | LxStr content \<Rightarrow>
         (t\<lparr>tk_emitted_strings := vec_push (tk_emitted_strings t) content, tk_last_ident := None\<rparr>, None)
     | LxWs \<Rightarrow> (t, None)
     | _ \<Rightarrow> (t\<lparr>tk_last_ident := None\<rparr>, None))"

definition dispatch_token :: "scope_tracker \<Rightarrow> bytes \<Rightarrow> state \<Rightarrow> schema \<Rightarrow> scope_tracker" where
  "dispatch_token t bs pre s =
    (let lx = classify bs in
     if lx = LxWs then t
     else case handle_lexeme t lx pre s of
       (t, resolved_now) \<Rightarrow>
         (let t = t\<lparr>tk_last_resolved := resolved_now\<rparr>
          in if lx \<noteq> LxCmp then t\<lparr>tk_cmp_pending := None\<rparr> else t))"

section \<open>Positions\<close>

definition in_column_arg :: "scope_tracker \<Rightarrow> bool" where
  "in_column_arg t \<longleftrightarrow> tk_ref_stack t \<noteq> [] \<and> tk_rel_explicit t \<and> tk_est_stack t = []"

definition opening_position :: "scope_tracker \<Rightarrow> state \<Rightarrow> l2_position" where
  "opening_position t st =
    (if st \<in> {ExpectSource, BlockStmt, BlockStmtClose} then L2SourceIdent
     else if st = AfterDot then
       (if tk_dot_is_column t then L2RelationColumn
        else (case tk_dot_base t of Some base \<Rightarrow> L2Member base | None \<Rightarrow> L2None))
     else if st = ExpectValue \<or> st = ExpectValueReq then
       (case tk_cmp_pending t of
          Some tc \<Rightarrow> L2ReValue tc
        | None \<Rightarrow> if in_column_arg t then L2Column else L2None)
     else L2None)"

definition position :: "scope_tracker \<Rightarrow> state \<Rightarrow> l2_position" where
  "position t st =
    (if lexeme_kind st \<noteq> None
     then (case tk_pending t of Some p \<Rightarrow> pd_pos p | None \<Rightarrow> L2None)
     else opening_position t st)"

definition nav_from_var :: "scope_tracker \<Rightarrow> bytes \<Rightarrow> l2_position option" where
  "nav_from_var t var =
    (if var \<in> tk_relation_row_vars t then Some L2RelationColumn
     else map_option L2Member (flatten (tk_var_class t var)))"

definition nav_from_member :: "scope_tracker \<Rightarrow> bytes \<Rightarrow> schema \<Rightarrow> l2_position option" where
  "nav_from_member t member s =
    (case tk_dot_base t of
       None \<Rightarrow> None
     | Some base \<Rightarrow>
         (case resolve s base member of
            Some (ResClass path _) \<Rightarrow> Some (L2Member path)
          | _ \<Rightarrow> None))"

definition fused_nav_position :: "scope_tracker \<Rightarrow> schema \<Rightarrow> l2_position option" where
  "fused_nav_position t s =
    (case tk_pending t of
       Some p \<Rightarrow>
         if pd_kind p \<noteq> LkIdent then None
         else if \<not> utf8_valid (pd_buf p) then None
         else if pd_anchor p = AfterDollar then nav_from_var t (pd_buf p)
         else if pd_anchor p = AfterDot then nav_from_member t (pd_buf p) s
         else None
     | None \<Rightarrow>
         (case tk_pending_refvar t of
            Some var \<Rightarrow> nav_from_var t var
          | None \<Rightarrow> map_option L2Member (tk_nav_cursor t)))"

definition narrow_prefix :: "scope_tracker \<Rightarrow> bytes" where
  "narrow_prefix t = (case tk_pending t of Some p \<Rightarrow> pd_buf p | None \<Rightarrow> [])"

definition emitted_columns :: "scope_tracker \<Rightarrow> bytes list" where
  "emitted_columns t = tk_emitted_strings t"

section \<open>Observing a token\<close>

definition emit_lexeme :: "scope_tracker \<Rightarrow> bytes \<Rightarrow> state \<Rightarrow> bool \<Rightarrow> schema \<Rightarrow> scope_tracker" where
  "emit_lexeme t seg anchor continuing s =
    (case (continuing, tk_pending t) of
       (True, Some done) \<Rightarrow>
         dispatch_token (t\<lparr>tk_pending := None\<rparr>) (pd_buf done @ seg) (pd_anchor done) s
     | _ \<Rightarrow> dispatch_token t seg anchor s)"

function flush_gap :: "scope_tracker \<Rightarrow> bytes \<Rightarrow> state \<Rightarrow> schema \<Rightarrow> scope_tracker" where
  "flush_gap t [] anchor s = t"
| "flush_gap t (b # tail) anchor s =
    (if is_ascii_whitespace b then flush_gap t tail anchor s
     else if tail \<noteq> [] \<and> is_two_byte_op b (hd tail)
     then flush_gap (dispatch_token t [b, hd tail] anchor s) (tl tail) anchor s
     else if is_ident_start b then
       (let n = max (length (takeWhile is_ident_tail (b # tail))) 1
        in flush_gap (dispatch_token t (take n (b # tail)) anchor s) (drop n (b # tail)) anchor s)
     else flush_gap (dispatch_token t [b] anchor s) tail anchor s)"
  by pat_completeness auto
termination
  by (relation "measure (\<lambda>(t, gap, anchor, s). length gap)") (auto simp: max_def)

definition buffer_trailing :: "scope_tracker \<Rightarrow> lex_kind \<Rightarrow> bytes \<Rightarrow> state \<Rightarrow> bool \<Rightarrow> scope_tracker" where
  "buffer_trailing t kind seg anchor continuing =
    (if continuing
     then (case tk_pending t of
             Some p \<Rightarrow> t\<lparr>tk_pending := Some (p\<lparr>pd_buf := pd_buf p @ seg\<rparr>)\<rparr>
           | None \<Rightarrow> t)
     else t\<lparr>tk_pending := Some \<lparr>pd_kind = kind, pd_buf = seg, pd_anchor = anchor,
            pd_pos = (case opening_position t anchor of L2ReValue _ \<Rightarrow> L2None | p \<Rightarrow> p)\<rparr>\<rparr>)"

text \<open>The locals of the walk over one token.\<close>

record walk_locals =
  wl_state :: state
  wl_stack :: "frame list"
  wl_continuing :: bool
  wl_seg_anchor :: state
  wl_seg_start :: usize

definition apply_step :: "walk_locals \<Rightarrow> u8 \<Rightarrow> walk_locals option" where
  "apply_step w b =
    (case step (wl_state w) (vec_last (wl_stack w)) b of
       Next n \<Rightarrow> Some (w\<lparr>wl_state := n\<rparr>)
     | Push f n \<Rightarrow> Some (w\<lparr>wl_state := n, wl_stack := vec_push (wl_stack w) f\<rparr>)
     | Pop n \<Rightarrow> Some (w\<lparr>wl_state := n, wl_stack := vec_pop (wl_stack w)\<rparr>)
     | Dead \<Rightarrow> None)"

definition cut_segment :: "bytes \<Rightarrow> usize \<Rightarrow> state \<Rightarrow> walk_locals \<Rightarrow> scope_tracker \<Rightarrow> schema
    \<Rightarrow> walk_locals \<times> scope_tracker" where
  "cut_segment bs i prior w t s =
    (let cur_kind = lexeme_kind (wl_state w) in
     case lexeme_kind prior of
       Some k \<Rightarrow>
         if cur_kind \<noteq> Some k
         then (w\<lparr>wl_continuing := False, wl_seg_start := i, wl_seg_anchor := prior\<rparr>,
               emit_lexeme t (slice bs (wl_seg_start w) i) (wl_seg_anchor w) (wl_continuing w) s)
         else (w, t)
     | None \<Rightarrow>
         if cur_kind \<noteq> None
         then (w\<lparr>wl_continuing := False, wl_seg_start := i, wl_seg_anchor := prior\<rparr>,
               flush_gap t (slice bs (wl_seg_start w) i) (wl_seg_anchor w) s)
         else (w, t))"

text \<open>\<open>observe_loop\<close> returns \<open>Inl\<close> where the source returns early on a dead byte.\<close>

fun observe_loop :: "bytes \<Rightarrow> usize list \<Rightarrow> walk_locals \<times> scope_tracker \<Rightarrow> schema
    \<Rightarrow> scope_tracker + (walk_locals \<times> scope_tracker)" where
  "observe_loop bs [] (w, t) s = Inr (w, t)"
| "observe_loop bs (i # is) (w, t) s =
    (case apply_step w (bs ! i) of
       None \<Rightarrow> Inl t
     | Some w' \<Rightarrow> observe_loop bs is (cut_segment bs i (wl_state w) w' t s) s)"

text \<open>The trailing segment of the token.\<close>

fun finish_token :: "bytes \<Rightarrow> walk_locals \<times> scope_tracker \<Rightarrow> schema \<Rightarrow> scope_tracker" where
  "finish_token bs (w, t) s =
    (case lexeme_kind (wl_state w) of
       Some kind \<Rightarrow>
         buffer_trailing t kind (drop (wl_seg_start w) bs) (wl_seg_anchor w) (wl_continuing w)
     | None \<Rightarrow> flush_gap t (drop (wl_seg_start w) bs) (wl_seg_anchor w) s)"

text \<open>The three bindings that open \<open>observe\<close>: whether the token continues the buffered lexeme, the
  anchor of its first segment, and the defensive flush of a lexeme it does not continue.\<close>

definition continues :: "scope_tracker \<Rightarrow> state \<Rightarrow> bool" where
  "continues t st = (case tk_pending t of Some p \<Rightarrow> lexeme_kind st = Some (pd_kind p) | None \<Rightarrow> False)"

definition first_anchor :: "scope_tracker \<Rightarrow> state \<Rightarrow> state" where
  "first_anchor t st = (case tk_pending t of Some p \<Rightarrow> pd_anchor p | None \<Rightarrow> st)"

definition flush_pending :: "scope_tracker \<Rightarrow> schema \<Rightarrow> scope_tracker" where
  "flush_pending t s =
    (case tk_pending t of
       Some done \<Rightarrow> dispatch_token (t\<lparr>tk_pending := None\<rparr>) (pd_buf done) (pd_anchor done) s
     | None \<Rightarrow> t)"

definition walk_token :: "scope_tracker \<Rightarrow> bytes \<Rightarrow> walk_locals \<Rightarrow> schema \<Rightarrow> scope_tracker" where
  "walk_token t bs w s =
    (case observe_loop bs [0..<length bs] (w, t) s of
       Inl t' \<Rightarrow> t'
     | Inr wt \<Rightarrow> finish_token bs wt s)"

definition observe :: "scope_tracker \<Rightarrow> bytes \<Rightarrow> pda \<Rightarrow> schema \<Rightarrow> scope_tracker" where
  "observe t bs pre s =
    (if continues t (pda_st pre)
     then walk_token t bs
       \<lparr>wl_state = pda_st pre, wl_stack = pda_stack pre, wl_continuing = True,
        wl_seg_anchor = first_anchor t (pda_st pre), wl_seg_start = 0\<rparr> s
     else walk_token (flush_pending t s) bs
       \<lparr>wl_state = pda_st pre, wl_stack = pda_stack pre, wl_continuing = False,
        wl_seg_anchor = pda_st pre, wl_seg_start = 0\<rparr> s)"

end
