(* ===== verification/Scope_Props.thy ===== *)
theory Scope_Props
  imports Scope_Tracker Pda_Props "HOL-Library.Sublist"
begin

text \<open>
  The properties of the scope machine: its bookkeeping invariant and the restoration of a
  lambda's bindings, its lockstep with the automaton's frame stack, and the independence of
  the scope from the way a lexeme is cut into tokens.
\<close>

section \<open>The bookkeeping invariant\<close>

text \<open>One entry per open delimiter; the saves and the method stacks are ordered by depth and
  never deeper than the current depth.\<close>

definition scope_ok :: "scope_tracker \<Rightarrow> bool" where
  "scope_ok t \<longleftrightarrow>
    length (tk_paren_receiver t) = unat (tk_depth t) \<and>
    length (tk_tilde_open t) = unat (tk_depth t) \<and>
    sorted_wrt (\<le>) (map bs_depth (tk_binder_saves t) @ [tk_depth t]) \<and>
    sorted_wrt (\<le>) (map ss_depth (tk_scope_saves t) @ [tk_depth t]) \<and>
    sorted_wrt (<) (0 # tk_est_stack t) \<and> (\<forall>d \<in> set (tk_est_stack t). d \<le> tk_depth t) \<and>
    sorted_wrt (<) (0 # tk_ref_stack t) \<and> (\<forall>d \<in> set (tk_ref_stack t). d \<le> tk_depth t)"

lemma scope_ok_new: "scope_ok tracker_new"
  by (simp add: scope_ok_def tracker_new_def)

text \<open>The part of the tracker that only a pipe and the delimiters change.\<close>

definition book :: "scope_tracker \<Rightarrow> (bytes option list \<times> bool list \<times> u32 \<times> binder_save list \<times>
    scope_save list \<times> u32 list \<times> u32 list) \<times> (bytes \<rightharpoonup> bytes option) \<times> bytes set \<times> pending_lexeme option" where
  "book t = ((tk_paren_receiver t, tk_tilde_open t, tk_depth t, tk_binder_saves t,
    tk_scope_saves t, tk_est_stack t, tk_ref_stack t), tk_var_class t, tk_relation_row_vars t, tk_pending t)"

lemma scope_ok_cong: "book t = book u \<Longrightarrow> scope_ok t = scope_ok u"
  by (simp add: scope_ok_def book_def)

lemma book_fields:
  "book t = book u \<Longrightarrow> tk_depth t = tk_depth u"
  "book t = book u \<Longrightarrow> tk_var_class t = tk_var_class u"
  "book t = book u \<Longrightarrow> tk_relation_row_vars t = tk_relation_row_vars u"
  "book t = book u \<Longrightarrow> tk_binder_saves t = tk_binder_saves u"
  "book t = book u \<Longrightarrow> tk_pending t = tk_pending u"
  by (simp_all add: book_def)

lemma book_update [simp]:
  "book (t\<lparr>tk_cur_class := a\<rparr>) = book t"
  "book (t\<lparr>tk_pending_refvar := a\<rparr>) = book t"
  "book (t\<lparr>tk_dot_base := a\<rparr>) = book t"
  "book (t\<lparr>tk_nav_cursor := a\<rparr>) = book t"
  "book (t\<lparr>tk_last_resolved := b\<rparr>) = book t"
  "book (t\<lparr>tk_last_nav_class := a\<rparr>) = book t"
  "book (t\<lparr>tk_cmp_pending := b\<rparr>) = book t"
  "book (t\<lparr>tk_lambda_first_ident := a\<rparr>) = book t"
  "book (t\<lparr>tk_pending_arrow_receiver := c\<rparr>) = book t"
  "book (t\<lparr>tk_last_ident := a\<rparr>) = book t"
  "book (t\<lparr>tk_dot_is_column := d\<rparr>) = book t"
  "book (t\<lparr>tk_rel_explicit := d\<rparr>) = book t"
  "book (t\<lparr>tk_saw_tilde_bracket := d\<rparr>) = book t"
  "book (t\<lparr>tk_emitted_strings := e\<rparr>) = book t"
  by (simp_all add: book_def)

lemma resolve_member_book [simp]: "book (fst (resolve_member t ident s r)) = book t"
  by (simp add: resolve_member_def Let_def split: option.splits resolved.splits)

lemma on_ident_book [simp]: "book (fst (on_ident t ident pre s r)) = book t"
  by (simp add: on_ident_def Let_def case_prod_unfold)

lemma on_dot_book [simp]: "book (on_dot t) = book t"
  by (simp add: on_dot_def Let_def split: option.splits)

lemma on_arrow_book [simp]: "book (on_arrow t) = book t"
  by (simp add: on_arrow_def Let_def)

lemma on_pipe_ok:
  assumes "scope_ok t" shows "scope_ok (on_pipe t pre)" and "tk_depth (on_pipe t pre) = tk_depth t"
  using assms by (auto simp: scope_ok_def on_pipe_def bind_lambda_def sorted_wrt_append Let_def
      split: option.splits)

lemma enter_method_shape:
  "tk_depth (enter_method t name) = tk_depth t"
  "tk_paren_receiver (enter_method t name) = tk_paren_receiver t"
  "tk_tilde_open (enter_method t name) = tk_tilde_open t"
  "tk_binder_saves (enter_method t name) = tk_binder_saves t"
  "tk_scope_saves (enter_method t name) = tk_scope_saves t"
  "tk_var_class (enter_method t name) = tk_var_class t"
  "tk_relation_row_vars (enter_method t name) = tk_relation_row_vars t"
  "tk_pending (enter_method t name) = tk_pending t"
  by (simp_all add: enter_method_def Let_def)

lemma enter_method_stacks:
  "tk_est_stack (enter_method t name) = tk_est_stack t \<or>
     tk_est_stack (enter_method t name) = vec_push (tk_est_stack t) (tk_depth t)"
  "tk_ref_stack (enter_method t name) = tk_ref_stack t \<or>
     tk_ref_stack (enter_method t name) = vec_push (tk_ref_stack t) (tk_depth t)"
  by (simp_all add: enter_method_def Let_def)

text \<open>What \<open>on_open\<close> does to the book: the method stacks may grow by the new depth.\<close>

lemma on_open_fields:
  "tk_depth (on_open t pre) = tk_depth t + 1"
  "length (tk_paren_receiver (on_open t pre)) = Suc (length (tk_paren_receiver t))"
  "length (tk_tilde_open (on_open t pre)) = Suc (length (tk_tilde_open t))"
  "tk_binder_saves (on_open t pre) = tk_binder_saves t"
  "tk_scope_saves (on_open t pre) = tk_scope_saves t"
  "tk_var_class (on_open t pre) = tk_var_class t"
  "tk_relation_row_vars (on_open t pre) = tk_relation_row_vars t"
  "tk_pending (on_open t pre) = tk_pending t"
  by (simp_all add: on_open_def Let_def enter_method_shape split: option.split)

lemma on_open_stacks:
  "tk_est_stack (on_open t pre) = tk_est_stack t \<or>
     tk_est_stack (on_open t pre) = vec_push (tk_est_stack t) (tk_depth t + 1)"
  "tk_ref_stack (on_open t pre) = tk_ref_stack t \<or>
     tk_ref_stack (on_open t pre) = vec_push (tk_ref_stack t) (tk_depth t + 1)"
  unfolding on_open_def Let_def
  by (cases "tk_last_ident t"; simp add: enter_method_def Let_def)+

lemma u32_inc: "unat (d :: u32) + 1 < 2 ^ 32 \<Longrightarrow> unat (d + 1) = unat d + 1 \<and> d < d + 1"
  by (simp add: unat_word_ariths word_less_nat_alt)

lemma sorted_push_depth:
  assumes "sorted_wrt (<) (0 # ds)" and "\<forall>x \<in> set ds. x \<le> d" and "d < (e :: u32)"
    and "ds' = ds \<or> ds' = vec_push ds e"
  shows "sorted_wrt (<) (0 # ds') \<and> (\<forall>x \<in> set ds'. x \<le> e)"
proof -
  have "0 < e" using assms(3) by (metis le_less_trans word_zero_le)
  moreover have "\<forall>x \<in> set ds. x < e" using assms(2,3) by (metis le_less_trans)
  ultimately show ?thesis using assms by (auto simp: sorted_wrt_append less_imp_le)
qed

lemma on_open_ok:
  assumes "scope_ok t" and "unat (tk_depth t) + 1 < 2 ^ 32"
  shows "scope_ok (on_open t pre)"
proof -
  note inc = u32_inc [OF assms(2)]
  have mono: "sorted_wrt (\<le>) (ds @ [tk_depth t]) \<Longrightarrow> sorted_wrt (\<le>) (ds @ [tk_depth t + 1])" for ds
    using inc by (auto simp: sorted_wrt_append intro: order_trans less_imp_le)
  from assms(1) have "sorted_wrt (<) (0 # tk_est_stack t)" "\<forall>d \<in> set (tk_est_stack t). d \<le> tk_depth t"
    "sorted_wrt (<) (0 # tk_ref_stack t)" "\<forall>d \<in> set (tk_ref_stack t). d \<le> tk_depth t"
    unfolding scope_ok_def by auto
  with sorted_push_depth [OF this(1,2) conjunct2 [OF inc] on_open_stacks(1)]
    sorted_push_depth [OF this(3,4) conjunct2 [OF inc] on_open_stacks(2)]
  show ?thesis using assms(1) inc mono
    unfolding scope_ok_def on_open_fields by simp
qed

text \<open>The restoring loops pop the saves of the closing depth; \<open>undo\<close> is what the popped binder
  saves, innermost first, do to the bindings.\<close>

fun undo :: "binder_save list \<Rightarrow> (bytes \<rightharpoonup> bytes option) \<times> bytes set \<Rightarrow> (bytes \<rightharpoonup> bytes option) \<times> bytes set" where
  "undo [] (vc, rows) = (vc, rows)"
| "undo (b # bs) (vc, rows) = undo bs (vc(bs_name b := bs_prev_class b),
     if bs_prev_relation_row b then insert (bs_name b) rows else rows - {bs_name b})"

definition bindings :: "scope_tracker \<Rightarrow> (bytes \<rightharpoonup> bytes option) \<times> bytes set" where
  "bindings t = (tk_var_class t, tk_relation_row_vars t)"

lemma undo_append: "undo (xs @ ys) b = undo ys (undo xs b)"
  by (induction xs b rule: undo.induct) (cases "undo ys (undo xs b)"; simp)+

lemma restore_binders_unfold:
  "tk_binder_saves t = [] \<Longrightarrow> restore_binders t = t"
  "tk_binder_saves t = xs @ [b] \<Longrightarrow> restore_binders t =
    (if bs_depth b = tk_depth t then restore_binders (restore_binder (t\<lparr>tk_binder_saves := xs\<rparr>) b) else t)"
  by (subst restore_binders.simps, simp)+

lemma restore_scopes_unfold:
  "tk_scope_saves t = [] \<Longrightarrow> restore_scopes t = t"
  "tk_scope_saves t = xs @ [b] \<Longrightarrow> restore_scopes t =
    (if ss_depth b = tk_depth t then restore_scopes (restore_scope (t\<lparr>tk_scope_saves := xs\<rparr>) b) else t)"
  by (subst restore_scopes.simps, simp)+

lemma restore_binders_eq:
  assumes "tk_binder_saves t = saves"
  shows "restore_binders t =
    (let d = tk_depth t; b = undo (takeWhile (\<lambda>b. bs_depth b = d) (rev saves)) (bindings t)
     in t\<lparr>tk_binder_saves := rev (dropWhile (\<lambda>b. bs_depth b = d) (rev saves)),
          tk_var_class := fst b, tk_relation_row_vars := snd b\<rparr>)"
  using assms
proof (induction saves arbitrary: t rule: rev_induct)
  case Nil
  then show ?case by (simp add: restore_binders_unfold(1) bindings_def)
next
  case (snoc b saves)
  show ?case
  proof (cases "bs_depth b = tk_depth t")
    case True
    have "restore_binders t = restore_binders (restore_binder (t\<lparr>tk_binder_saves := saves\<rparr>) b)"
      using restore_binders_unfold(2) [OF snoc.prems] True by simp
    also have "\<dots> = (let t' = restore_binder (t\<lparr>tk_binder_saves := saves\<rparr>) b; d = tk_depth t;
        bb = undo (takeWhile (\<lambda>b. bs_depth b = d) (rev saves)) (bindings t')
      in t'\<lparr>tk_binder_saves := rev (dropWhile (\<lambda>b. bs_depth b = d) (rev saves)),
          tk_var_class := fst bb, tk_relation_row_vars := snd bb\<rparr>)"
      by (subst snoc.IH) (simp_all add: restore_binder_def Let_def)
    finally show ?thesis using True by (simp add: restore_binder_def bindings_def Let_def)
  next
    case False
    then show ?thesis
      using restore_binders_unfold(2) [OF snoc.prems] snoc.prems by (simp add: bindings_def)
  qed
qed

lemma restore_scopes_eq:
  assumes "tk_scope_saves t = saves"
  shows "\<exists>c e w. restore_scopes t =
    t\<lparr>tk_scope_saves := rev (dropWhile (\<lambda>b. ss_depth b = tk_depth t) (rev saves)),
      tk_cur_class := c, tk_rel_explicit := e, tk_saw_tilde_bracket := w\<rparr>"
  using assms
proof (induction saves arbitrary: t rule: rev_induct)
  case Nil
  then show ?case
    by (intro exI [of _ "tk_cur_class t"] exI [of _ "tk_rel_explicit t"]
        exI [of _ "tk_saw_tilde_bracket t"]) (simp add: restore_scopes_unfold(1))
next
  case (snoc b saves)
  show ?case
  proof (cases "ss_depth b = tk_depth t")
    case True
    from snoc.IH [of "restore_scope (t\<lparr>tk_scope_saves := saves\<rparr>) b"]
    obtain c e w where "restore_scopes (restore_scope (t\<lparr>tk_scope_saves := saves\<rparr>) b) =
      (restore_scope (t\<lparr>tk_scope_saves := saves\<rparr>) b)
        \<lparr>tk_scope_saves := rev (dropWhile (\<lambda>b. ss_depth b = tk_depth t) (rev saves)),
         tk_cur_class := c, tk_rel_explicit := e, tk_saw_tilde_bracket := w\<rparr>"
      by (auto simp: restore_scope_def)
    then show ?thesis
      using restore_scopes_unfold(2) [OF snoc.prems] True
      by (intro exI [of _ c] exI [of _ e] exI [of _ w]) (simp add: restore_scope_def)
  next
    case False
    then show ?thesis
      using restore_scopes_unfold(2) [OF snoc.prems] snoc.prems
      by (intro exI [of _ "tk_cur_class t"] exI [of _ "tk_rel_explicit t"]
        exI [of _ "tk_saw_tilde_bracket t"]) simp
  qed
qed

lemma on_close_fields:
  "tk_depth (on_close t) = saturating_dec (tk_depth t)"
  "tk_paren_receiver (on_close t) = butlast (tk_paren_receiver t)"
  "tk_tilde_open (on_close t) = butlast (tk_tilde_open t)"
  "tk_binder_saves (on_close t) =
     rev (dropWhile (\<lambda>b. bs_depth b = tk_depth t) (rev (tk_binder_saves t)))"
  "tk_scope_saves (on_close t) =
     rev (dropWhile (\<lambda>b. ss_depth b = tk_depth t) (rev (tk_scope_saves t)))"
  "tk_est_stack (on_close t) = (if vec_last (tk_est_stack t) = Some (tk_depth t)
     then butlast (tk_est_stack t) else tk_est_stack t)"
  "tk_ref_stack (on_close t) = (if vec_last (tk_ref_stack t) = Some (tk_depth t)
     then butlast (tk_ref_stack t) else tk_ref_stack t)"
  "bindings (on_close t) =
     undo (takeWhile (\<lambda>b. bs_depth b = tk_depth t) (rev (tk_binder_saves t))) (bindings t)"
  "tk_pending (on_close t) = tk_pending t"
proof -
  note rb = restore_binders_eq [OF refl, of t]
  obtain c e w where rs: "restore_scopes (restore_binders t) = (restore_binders t)
      \<lparr>tk_scope_saves := rev (dropWhile (\<lambda>b. ss_depth b = tk_depth t) (rev (tk_scope_saves t))),
       tk_cur_class := c, tk_rel_explicit := e, tk_saw_tilde_bracket := w\<rparr>"
    using restore_scopes_eq [OF refl, of "restore_binders t"] by (auto simp: rb Let_def)
  show "tk_depth (on_close t) = saturating_dec (tk_depth t)"
    "tk_paren_receiver (on_close t) = butlast (tk_paren_receiver t)"
    "tk_tilde_open (on_close t) = butlast (tk_tilde_open t)"
    "tk_binder_saves (on_close t) =
       rev (dropWhile (\<lambda>b. bs_depth b = tk_depth t) (rev (tk_binder_saves t)))"
    "tk_scope_saves (on_close t) =
       rev (dropWhile (\<lambda>b. ss_depth b = tk_depth t) (rev (tk_scope_saves t)))"
    "tk_est_stack (on_close t) = (if vec_last (tk_est_stack t) = Some (tk_depth t)
       then butlast (tk_est_stack t) else tk_est_stack t)"
    "tk_ref_stack (on_close t) = (if vec_last (tk_ref_stack t) = Some (tk_depth t)
       then butlast (tk_ref_stack t) else tk_ref_stack t)"
    "bindings (on_close t) =
       undo (takeWhile (\<lambda>b. bs_depth b = tk_depth t) (rev (tk_binder_saves t))) (bindings t)"
    "tk_pending (on_close t) = tk_pending t"
    by (simp_all add: on_close_def rs Let_def, simp_all add: rb Let_def bindings_def)
qed

text \<open>Under the invariant the saves left after a close are those shallower than it.\<close>

lemma sorted_pop_depth:
  assumes "sorted_wrt (\<le>) (map key xs @ [d :: u32])"
  shows "set (rev (dropWhile (\<lambda>b. key b = d) (rev xs))) = {b \<in> set xs. key b < d}"
    and "set (takeWhile (\<lambda>b. key b = d) (rev xs)) = {b \<in> set xs. key b = d}"
    and "sorted_wrt (\<le>) (map key (rev (dropWhile (\<lambda>b. key b = d) (rev xs))))"
  using assms by (induction xs rule: rev_induct) (auto simp: sorted_wrt_append)

lemma less_saturating_dec: "(x :: u32) < d \<Longrightarrow> x \<le> saturating_dec d"
  by (auto simp: saturating_dec_def word_le_nat_alt word_less_nat_alt unat_minus_one)

lemma sorted_pop_le:
  assumes "sorted_wrt (\<le>) (map key xs @ [d :: u32])"
  shows "sorted_wrt (\<le>) (map key (rev (dropWhile (\<lambda>b. key b = d) (rev xs))) @ [saturating_dec d])"
  using sorted_pop_depth(1,3) [OF assms] by (auto simp: sorted_wrt_append less_saturating_dec)

lemma sorted_pop_stack:
  assumes "sorted_wrt (<) (0 # ds)" and "\<forall>x \<in> set ds. x \<le> (d :: u32)"
    and "ds' = (if vec_last ds = Some d then butlast ds else ds)"
  shows "sorted_wrt (<) (0 # ds') \<and> (\<forall>x \<in> set ds'. x \<le> saturating_dec d)"
proof (cases ds rule: rev_cases)
  case Nil
  with assms show ?thesis by simp
next
  case (snoc ys y)
  have "x < d" if "x \<in> set ds'" for x
    using that assms snoc by (auto simp: sorted_wrt_append split: if_splits intro: less_le_trans)
  then show ?thesis using assms snoc less_saturating_dec
    by (auto simp: sorted_wrt_append split: if_splits)
qed

lemma on_close_ok:
  assumes "scope_ok t"
  shows "scope_ok (on_close t)"
proof -
  have "unat (saturating_dec (tk_depth t)) = unat (tk_depth t) - 1"
    by (simp add: saturating_dec_def unat_minus_one)
  moreover from assms have est: "sorted_wrt (<) (0 # tk_est_stack t)" "\<forall>d \<in> set (tk_est_stack t). d \<le> tk_depth t"
    and ref: "sorted_wrt (<) (0 # tk_ref_stack t)" "\<forall>d \<in> set (tk_ref_stack t). d \<le> tk_depth t"
    unfolding scope_ok_def by auto
  moreover note sorted_pop_stack [OF est on_close_fields(6)] sorted_pop_stack [OF ref on_close_fields(7)]
  moreover have "sorted_wrt (\<le>) (map bs_depth (tk_binder_saves (on_close t)) @ [tk_depth (on_close t)])"
    "sorted_wrt (\<le>) (map ss_depth (tk_scope_saves (on_close t)) @ [tk_depth (on_close t)])"
    using assms unfolding on_close_fields scope_ok_def by (auto intro: sorted_pop_le)
  ultimately show ?thesis using assms
    unfolding scope_ok_def on_close_fields(1-3) by simp
qed

section \<open>One lexeme\<close>

text \<open>What a lexeme does to the nesting depth.\<close>

fun net_depth :: "lexeme \<Rightarrow> nat \<Rightarrow> nat" where
  "net_depth LxOpen n = Suc n"
| "net_depth LxClose n = n - 1"
| "net_depth _ n = n"

definition room :: "scope_tracker \<Rightarrow> bool" where
  "room t \<longleftrightarrow> unat (tk_depth t) + 1 < 2 ^ 32"

lemma handle_lexeme_other:
  assumes "lx \<notin> {LxPipe, LxOpen, LxClose}"
  shows "book (fst (handle_lexeme t lx pre s)) = book t"
  using assms by (cases lx) (simp_all add: handle_lexeme_def split: option.splits)

lemma on_pipe_pending [simp]: "tk_pending (on_pipe t pre) = tk_pending t"
  by (simp add: on_pipe_def bind_lambda_def Let_def split: option.split)

lemma handle_lexeme_ok:
  assumes "scope_ok t" and "room t"
  shows "scope_ok (fst (handle_lexeme t lx pre s))"
    and "unat (tk_depth (fst (handle_lexeme t lx pre s))) = net_depth lx (unat (tk_depth t))"
    and "tk_pending (fst (handle_lexeme t lx pre s)) = tk_pending t"
proof -
  consider "lx = LxPipe" | "lx = LxOpen" | "lx = LxClose" | "lx \<notin> {LxPipe, LxOpen, LxClose}" by blast
  then have "scope_ok (fst (handle_lexeme t lx pre s)) \<and>
    unat (tk_depth (fst (handle_lexeme t lx pre s))) = net_depth lx (unat (tk_depth t)) \<and>
    tk_pending (fst (handle_lexeme t lx pre s)) = tk_pending t"
  proof cases
    case 1
    then show ?thesis using on_pipe_ok [OF assms(1)] by (simp add: handle_lexeme_def)
  next
    case 2
    then show ?thesis
      using on_open_ok [OF assms(1)] u32_inc [of "tk_depth t"] assms(2)
      by (simp add: handle_lexeme_def on_open_fields room_def)
  next
    case 3
    then show ?thesis
      using on_close_ok [OF assms(1)]
      by (simp add: handle_lexeme_def on_close_fields saturating_dec_def unat_minus_one)
  next
    case 4
    note b = handle_lexeme_other [OF this, of t pre s]
    have "net_depth lx n = n" for n using 4 by (cases lx) simp_all
    then show ?thesis 
      using book_fields(1,5) [OF b] scope_ok_cong [OF b] assms(1) by simp
  qed
  then show "scope_ok (fst (handle_lexeme t lx pre s))"
    "unat (tk_depth (fst (handle_lexeme t lx pre s))) = net_depth lx (unat (tk_depth t))"
    "tk_pending (fst (handle_lexeme t lx pre s)) = tk_pending t" by auto
qed

lemma dispatch_book:
  "book (dispatch_token t bs pre s) =
    book (if classify bs = LxWs then t else fst (handle_lexeme t (classify bs) pre s))"
  by (simp add: dispatch_token_def Let_def case_prod_unfold)

lemma dispatch_ok:
  assumes "scope_ok t" and "room t"
  shows "scope_ok (dispatch_token t bs pre s)"
    and "unat (tk_depth (dispatch_token t bs pre s)) = net_depth (classify bs) (unat (tk_depth t))"
    and "tk_pending (dispatch_token t bs pre s) = tk_pending t"
proof -
  note h = handle_lexeme_ok [OF assms, of "classify bs" pre s]
  show "scope_ok (dispatch_token t bs pre s)"
    using scope_ok_cong [OF dispatch_book, of t bs pre s] h(1) assms(1) by simp
  show "unat (tk_depth (dispatch_token t bs pre s)) = net_depth (classify bs) (unat (tk_depth t))"
    using book_fields(1) [OF dispatch_book, of t bs pre s] h(2) by simp
  show "tk_pending (dispatch_token t bs pre s) = tk_pending t"
    using book_fields(5) [OF dispatch_book, of t bs pre s] h(3) by simp
qed

section \<open>Lambda scopes\<close>

text \<open>The bindings that remain once every delimiter of depth \<open>d\<close> or deeper has closed.\<close>

definition outer :: "u32 \<Rightarrow> scope_tracker \<Rightarrow> (bytes \<rightharpoonup> bytes option) \<times> bytes set" where
  "outer d t = undo (takeWhile (\<lambda>b. d \<le> bs_depth b) (rev (tk_binder_saves t))) (bindings t)"

lemma outer_book: "book t = book u \<Longrightarrow> outer d t = outer d u"
  by (simp add: outer_def bindings_def book_def)

lemma outer_shallow:
  assumes "scope_ok t" and "tk_depth t < d"
  shows "outer d t = bindings t"
proof -
  have "\<not> d \<le> bs_depth b" if "b \<in> set (tk_binder_saves t)" for b
    using assms that by (auto simp: scope_ok_def sorted_wrt_append dest: le_less_trans)
  then have "takeWhile (\<lambda>b. d \<le> bs_depth b) (rev (tk_binder_saves t)) = []"
    by (metis list.set_cases set_rev set_takeWhileD takeWhile_eq_Nil_iff list.set_sel(1))
  then show ?thesis by (simp add: outer_def bindings_def)
qed

lemma outer_bind:
  assumes "d \<le> tk_depth t"
  shows "outer d (bind_lambda t name) = outer d t"
  using assms by (auto simp: outer_def bindings_def bind_lambda_def Let_def insert_absorb)

lemma outer_pipe:
  assumes "d \<le> tk_depth t"
  shows "outer d (on_pipe t pre) = outer d t"
proof -
  have cong: "outer d (u\<lparr>tk_scope_saves := x\<rparr>) = outer d u"
    "outer d (u\<lparr>tk_lambda_first_ident := y\<rparr>) = outer d u" for u x y
    by (simp_all add: outer_def bindings_def)
  show ?thesis using assms
    by (auto simp: on_pipe_def Let_def outer_bind cong split: option.splits)
qed

lemma outer_open: "outer d (on_open t pre) = outer d t"
  by (simp add: outer_def bindings_def on_open_fields)

lemma outer_close:
  assumes "d \<le> tk_depth t"
  shows "outer d (on_close t) = outer d t"
proof -
  let ?P = "\<lambda>b. d \<le> bs_depth b" and ?Q = "\<lambda>b. bs_depth b = tk_depth t"
  let ?r = "rev (tk_binder_saves t)"
  have "takeWhile ?P ?r = takeWhile ?P (takeWhile ?Q ?r @ dropWhile ?Q ?r)" by simp
  also have "\<dots> = takeWhile ?Q ?r @ takeWhile ?P (dropWhile ?Q ?r)"
    using assms by (intro takeWhile_append2) (auto dest: set_takeWhileD)
  finally show ?thesis by (simp add: outer_def on_close_fields undo_append)
qed

lemma outer_dispatch:
  assumes "d \<le> tk_depth t"
  shows "outer d (dispatch_token t bs pre s) = outer d t"
proof -
  consider "classify bs = LxPipe" | "classify bs = LxOpen" | "classify bs = LxClose"
    | "classify bs \<notin> {LxPipe, LxOpen, LxClose}" by blast
  then have "outer d (if classify bs = LxWs then t else fst (handle_lexeme t (classify bs) pre s)) = outer d t"
  proof cases
    case 4
    from outer_book [OF handle_lexeme_other [OF this]] show ?thesis by simp
  qed (simp_all add: handle_lexeme_def outer_pipe outer_open outer_close assms)
  then show ?thesis using outer_book [OF dispatch_book] by metis
qed

text \<open>The nesting reached by a sequence of lexemes, \<open>None\<close> if it closes more than it opened.\<close>

fun nesting :: "nat \<Rightarrow> (bytes \<times> state) list \<Rightarrow> nat option" where
  "nesting n [] = Some n"
| "nesting n ((bs, pre) # evs) =
    (if classify bs = LxClose \<and> n = 0 then None else nesting (net_depth (classify bs) n) evs)"

definition run_lexemes :: "scope_tracker \<Rightarrow> (bytes \<times> state) list \<Rightarrow> schema \<Rightarrow> scope_tracker" where
  "run_lexemes t evs s = foldl (\<lambda>t (bs, pre). dispatch_token t bs pre s) t evs"

lemma run_lexemes_simps [simp]:
  "run_lexemes t [] s = t"
  "run_lexemes t ((bs, pre) # evs) s = run_lexemes (dispatch_token t bs pre s) evs s"
  "run_lexemes t (evs @ evs') s = run_lexemes (run_lexemes t evs s) evs' s"
  by (simp_all add: run_lexemes_def)

lemma net_depth_le: "net_depth lx n \<le> Suc n"
  by (cases lx) simp_all

lemma net_depth_shift: "\<not> (lx = LxClose \<and> n = 0) \<Longrightarrow> net_depth lx (n + k) = net_depth lx n + k"
  by (cases lx) auto

lemma run_lexemes_nested:
  assumes "scope_ok t" and "unat (tk_depth t) = k + n" and "nesting n evs = Some m"
    and "k + n + length evs < 2 ^ 32" and "unat d = k"
  shows "scope_ok (run_lexemes t evs s) \<and> unat (tk_depth (run_lexemes t evs s)) = k + m \<and>
    outer d (run_lexemes t evs s) = outer d t"
  using assms(1-4)
proof (induction evs arbitrary: t n)
  case Nil
  then show ?case by simp
next
  case (Cons ev evs)
  obtain bs pre where ev: "ev = (bs, pre)" by fastforce
  let ?t = "dispatch_token t bs pre s" and ?n = "net_depth (classify bs) n"
  have ok: "\<not> (classify bs = LxClose \<and> n = 0)" and rest: "nesting ?n evs = Some m"
    using Cons.prems(3) by (auto simp: ev split: if_splits)
  have "room t" using Cons.prems(2,4) by (simp add: room_def)
  note d = dispatch_ok [OF Cons.prems(1) this, of bs pre s]
  have "unat (tk_depth ?t) = k + ?n"
    using d(2) Cons.prems(2) net_depth_shift [OF ok, of k] by (simp add: add.commute)
  moreover have "k + ?n + length evs < 2 ^ 32"
    using Cons.prems(4) net_depth_le [of "classify bs" n] by simp
  moreover have "outer d ?t = outer d t"
    using Cons.prems(2) assms(5) by (intro outer_dispatch) (simp add: word_le_nat_alt)
  ultimately show ?case using Cons.IH [OF d(1) _ rest] by (simp add: ev)
qed

section \<open>The walk over a token by segments\<close>

text \<open>The loop of \<open>observe\<close> with the current segment in place of its start index.\<close>

fun seg_walk :: "bytes \<Rightarrow> state \<Rightarrow> frame list \<Rightarrow> bool \<Rightarrow> state \<Rightarrow> bytes \<Rightarrow> scope_tracker \<Rightarrow> schema
    \<Rightarrow> scope_tracker + (walk_locals \<times> bytes \<times> scope_tracker)" where
  "seg_walk [] st fs cont anchor seg t s =
    Inr (\<lparr>wl_state = st, wl_stack = fs, wl_continuing = cont, wl_seg_anchor = anchor, wl_seg_start = 0\<rparr>, seg, t)"
| "seg_walk (b # bs) st fs cont anchor seg t s =
    (case cfg_step (st, fs) b of
       None \<Rightarrow> Inl t
     | Some (st', fs') \<Rightarrow>
         if lexeme_kind st' = lexeme_kind st then seg_walk bs st' fs' cont anchor (seg @ [b]) t s
         else seg_walk bs st' fs' False st [b]
           (if lexeme_kind st = None then flush_gap t seg anchor s
            else emit_lexeme t seg anchor cont s) s)"

definition finish_walk :: "scope_tracker + (walk_locals \<times> bytes \<times> scope_tracker) \<Rightarrow> schema \<Rightarrow> scope_tracker" where
  "finish_walk r s = (case r of Inl t \<Rightarrow> t | Inr (w, seg, t) \<Rightarrow>
    (case lexeme_kind (wl_state w) of
       Some kind \<Rightarrow> buffer_trailing t kind seg (wl_seg_anchor w) (wl_continuing w)
     | None \<Rightarrow> flush_gap t seg (wl_seg_anchor w) s))"

lemma apply_step_cfg: "apply_step w b =
    map_option (\<lambda>(st, fs). w\<lparr>wl_state := st, wl_stack := fs\<rparr>) (cfg_step (wl_state w, wl_stack w) b)"
  by (cases w) (simp add: apply_step_def cfg_step_def split: pda_step.split)

lemma cut_segment_eq: "cut_segment bs i prior w t s =
    (if lexeme_kind (wl_state w) = lexeme_kind prior then (w, t)
     else (w\<lparr>wl_continuing := False, wl_seg_start := i, wl_seg_anchor := prior\<rparr>,
       if lexeme_kind prior = None then flush_gap t (slice bs (wl_seg_start w) i) (wl_seg_anchor w) s
       else emit_lexeme t (slice bs (wl_seg_start w) i) (wl_seg_anchor w) (wl_continuing w) s))"
  by (auto simp: cut_segment_def Let_def split: option.splits)

definition finish_loop :: "bytes \<Rightarrow> scope_tracker + (walk_locals \<times> scope_tracker) \<Rightarrow> schema \<Rightarrow> scope_tracker" where
  "finish_loop bs r s = (case r of Inl t \<Rightarrow> t | Inr wt \<Rightarrow> finish_token bs wt s)"

lemma observe_loop_seg_walk:
  assumes "wl_seg_start w \<le> i" and "i \<le> length bs"
  shows "finish_loop bs (observe_loop bs [i..<length bs] (w, t) s) s =
    finish_walk (seg_walk (drop i bs) (wl_state w) (wl_stack w) (wl_continuing w) (wl_seg_anchor w)
      (slice bs (wl_seg_start w) i) t s) s"
  using assms
proof (induction "length bs - i" arbitrary: i w t)
  case 0
  then have "i = length bs" by simp
  then show ?case by (simp add: finish_walk_def finish_loop_def slice_def split: option.split)
next
  case (Suc n)
  then have i: "i < length bs" and upt: "[i..<length bs] = i # [Suc i..<length bs]"
    and dr: "drop i bs = bs ! i # drop (Suc i) bs"
    by (simp_all add: upt_conv_Cons Cons_nth_drop_Suc)
  show ?case
  proof (cases "cfg_step (wl_state w, wl_stack w) (bs ! i)")
    case None
    then show ?thesis by (simp add: upt dr apply_step_cfg finish_walk_def finish_loop_def)
  next
    case (Some c)
    obtain st' fs' where c: "c = (st', fs')" by fastforce
    have n: "n = length bs - Suc i" "Suc i \<le> length bs" using Suc.hyps(2) i by simp_all
    have one: "[bs ! i] = slice bs i (Suc i)" using slice_append_nth [of i i bs] i by (simp add: slice_def)
    note ih = Suc.hyps(1) [OF n(1) _ n(2)]
    show ?thesis
      using Suc.prems(1) i slice_append_nth [OF Suc.prems(1) i]
      unfolding upt dr observe_loop.simps seg_walk.simps Some apply_step_cfg c cut_segment_eq
      by (simp add: ih one)
  qed
qed

lemma walk_token_seg_walk:
  assumes "wl_seg_start w = 0"
  shows "walk_token t bs w s = finish_walk (seg_walk bs (wl_state w) (wl_stack w) (wl_continuing w)
    (wl_seg_anchor w) [] t s) s"
  using observe_loop_seg_walk [of w 0 bs t s] assms
  by (simp add: walk_token_def finish_loop_def slice_def del: finish_token.simps)

lemma observe_seg_walk:
  "observe t bs p s =
    (if continues t (pda_st p)
     then finish_walk (seg_walk bs (pda_st p) (pda_stack p) True (first_anchor t (pda_st p)) [] t s) s
     else finish_walk (seg_walk bs (pda_st p) (pda_stack p) False (pda_st p) [] (flush_pending t s) s) s)"
  by (simp add: observe_def walk_token_seg_walk)

section \<open>Lockstep with the automaton\<close>

definition is_opener :: "u8 \<Rightarrow> bool" where
  "is_opener b = (b \<in> {CHR ''('', CHR ''['', CHR ''{''})"

definition is_closer :: "u8 \<Rightarrow> bool" where
  "is_closer b = (b \<in> {CHR '')'', CHR '']'', CHR ''}''})"

definition byte_depth :: "nat \<Rightarrow> u8 \<Rightarrow> nat" where
  "byte_depth n b = (if is_opener b then Suc n else if is_closer b then n - 1 else n)"

definition plain :: "u8 \<Rightarrow> bool" where
  "plain b \<longleftrightarrow> \<not> is_opener b \<and> \<not> is_closer b"

lemmas delim_defs = is_opener_def is_closer_def plain_def byte_depth_def

lemma byte_depth_plain [simp]: "plain b \<Longrightarrow> byte_depth n b = n"
  by (simp add: plain_def byte_depth_def)

lemma byte_depth_le: "byte_depth n b \<le> Suc n"
  by (auto simp: byte_depth_def)

text \<open>The lexeme kinds along a transition.\<close>

lemma lexeme_kind_targets:
  "lexeme_kind AfterValue = None"
  "step st tp b = Push f n \<Longrightarrow> lexeme_kind n = None"
  "step st tp b = Pop n \<Longrightarrow> lexeme_kind n = None"
  using step_Push [of st tp b f n] step_Pop [of st tp b n] by auto

lemma AfterValue_Next_kind: "step_AfterValue tp b = Next n \<Longrightarrow> lexeme_kind n = None"
  by (auto simp: step_AfterValue_def split: if_splits)

lemma InSourceIdent_Next_kind: "step_InSourceIdent b = Next n \<Longrightarrow> lexeme_kind n \<in> {None, Some LkIdent}"
  by (auto simp: step_InSourceIdent_def split: if_splits)

lemma step_same_kind:
  "step st tp b = Next n \<Longrightarrow> lexeme_kind st = Some k \<Longrightarrow> lexeme_kind n = Some k' \<Longrightarrow> k' = k"
  by (cases st)
    (auto simp: step_defs split: if_splits dest: AfterValue_Next_kind InSourceIdent_Next_kind)

lemma step_Next_plain:
  assumes "step st tp b = Next n" and "st \<noteq> InStrLit False"
  shows "plain b"
  using step_delim [OF _ assms(2), of b tp n] assms(1) by (auto simp: delim_defs)

lemma cfg_step_in_lexeme:
  assumes "cfg_step (st, fs) b = Some (st', fs')" and "lexeme_kind st' = Some k"
  shows "fs' = fs" and "lexeme_kind st = None \<Longrightarrow> plain b"
    and "lexeme_kind st = Some k' \<Longrightarrow> k' = k"
proof -
  from assms lexeme_kind_targets have n: "step st (vec_last fs) b = Next st'" and "fs' = fs"
    by (auto simp: cfg_step_def split: pda_step.splits)
  then show "fs' = fs" by simp
  show "plain b" if "lexeme_kind st = None"
    using step_Next_plain [OF n] that by (cases "st = InStrLit False") auto
  show "k' = k" if "lexeme_kind st = Some k'" using step_same_kind [OF n that assms(2)] by simp
qed

lemma cfg_step_gap_depth:
  assumes "cfg_step (st, fs) b = Some (st', fs')" and "lexeme_kind st' = None"
  shows "length fs' = byte_depth (length fs) b"
proof (cases "step st (vec_last fs) b")
  case (Next n)
  with assms have eq: "st' = n" "fs' = fs" by (auto simp: cfg_step_def)
  have "st \<noteq> InStrLit False" using assms(2) Next eq by (auto simp: step_InStrLit_def split: if_splits)
  then have "plain b" using step_Next_plain [OF Next] by blast
  then show ?thesis using eq by simp
next
  case (Push f n)
  then have "b = opener f" using step_Push by blast
  then show ?thesis using Push assms opener_in [of f] by (auto simp: cfg_step_def delim_defs)
next
  case (Pop n)
  then obtain f where "vec_last fs = Some f" "b = closer f" using step_Pop by blast
  then show ?thesis using Pop assms opener_closer [of f] by (auto simp: cfg_step_def delim_defs)
next
  case Dead
  with assms show ?thesis by (simp add: cfg_step_def)
qed

text \<open>Which bytes dispatch as delimiters.\<close>

lemma classify_delims:
  "classify bs = LxOpen \<Longrightarrow> bs \<in> {''('', ''['', ''{''}"
  "classify bs = LxClose \<Longrightarrow> bs \<in> {'')'', '']'', ''}''}"
  by (simp_all add: classify_def split: if_split_asm)

lemma classify_open [simp]: "classify ''('' = LxOpen" "classify ''['' = LxOpen" "classify ''{'' = LxOpen"
  by code_simp+

lemma classify_close [simp]: "classify '')'' = LxClose" "classify '']'' = LxClose" "classify ''}'' = LxClose"
  by code_simp+

lemma net_depth_other: "lx \<noteq> LxOpen \<Longrightarrow> lx \<noteq> LxClose \<Longrightarrow> net_depth lx n = n"
  by (cases lx) simp_all

lemma net_depth_classify_plain:
  assumes "bs \<noteq> []" and "plain (hd bs)"
  shows "net_depth (classify bs) n = n"
  using assms classify_delims [of bs] by (intro net_depth_other) (auto simp: plain_def is_opener_def is_closer_def)

lemma net_depth_classify_byte: "net_depth (classify [b]) n = byte_depth n b"
proof (cases "plain b")
  case True
  then show ?thesis by (simp add: net_depth_classify_plain)
next
  case False
  then have "b \<in> {CHR ''('', CHR ''['', CHR ''{'', CHR '')'', CHR '']'', CHR ''}''}"
    by (auto simp: delim_defs)
  then show ?thesis by (elim insertE emptyE) (simp_all add: byte_depth_def is_opener_def is_closer_def)
qed

lemma ident_tail_plain: "is_ident_tail b \<Longrightarrow> plain b"
  by (auto simp: delim_defs byte_eval)

lemma ident_start_tail: "is_ident_start b \<Longrightarrow> is_ident_tail b"
  by (auto simp: byte_eval)

lemma ws_plain: "is_ascii_whitespace b \<Longrightarrow> plain b"
  by (auto simp: delim_defs byte_class_defs)

lemma two_byte_op_plain: "is_two_byte_op a b \<Longrightarrow> plain a \<and> plain b"
  by (auto simp: is_two_byte_op_def delim_defs)

lemma fold_plain: "\<forall>b \<in> set bs. plain b \<Longrightarrow> foldl byte_depth n bs = n"
  by (induction bs arbitrary: n) simp_all

lemma fold_byte_depth_le: "foldl byte_depth n bs \<le> n + length bs"
proof (induction bs arbitrary: n)
  case (Cons b bs)
  show ?case using Cons.IH [of "byte_depth n b"] byte_depth_le [of n b] by simp
qed simp

text \<open>A round of \<open>flush_gap\<close> takes a piece off the gap; white space aside it dispatches the piece, whose effect
  on the depth is that of its bytes.\<close>

lemma plain_piece_depth:
  assumes "take n bs \<noteq> []" and "\<forall>b \<in> set (take n bs). plain b"
  shows "foldl byte_depth m bs = foldl byte_depth (net_depth (classify (take n bs)) m) (drop n bs)"
proof -
  have "net_depth (classify (take n bs)) m = m"
    using assms hd_in_set [OF assms(1)] by (intro net_depth_classify_plain) simp_all
  then show ?thesis by (metis append_take_drop_id foldl_append fold_plain [OF assms(2)])
qed

lemma flush_gap_round:
  obtains n where "0 < n" and "n \<le> length (b # tail)"
    and "\<And>t. flush_gap t (b # tail) anchor s =
      flush_gap (if is_ascii_whitespace b then t else dispatch_token t (take n (b # tail)) anchor s)
        (drop n (b # tail)) anchor s"
    and "\<And>m. foldl byte_depth m (b # tail) =
      foldl byte_depth (if is_ascii_whitespace b then m else net_depth (classify (take n (b # tail))) m)
        (drop n (b # tail))"
proof -
  let ?gap = "b # tail"
  consider (ws) "is_ascii_whitespace b"
    | (two) "\<not> is_ascii_whitespace b" "tail \<noteq> []" "is_two_byte_op b (hd tail)"
    | (ident) "\<not> is_ascii_whitespace b" "\<not> (tail \<noteq> [] \<and> is_two_byte_op b (hd tail))" "is_ident_start b"
    | (one) "\<not> is_ascii_whitespace b" "\<not> (tail \<noteq> [] \<and> is_two_byte_op b (hd tail))" "\<not> is_ident_start b"
    by blast
  then show thesis
  proof cases
    case ws
    then show thesis using ws_plain by (intro that [of 1]) simp_all
  next
    case two
    then obtain c cs where t: "tail = c # cs" by (cases tail) simp_all
    show thesis
      using two two_byte_op_plain [of b c] plain_piece_depth [of 2 ?gap] by (intro that [of 2]) (simp_all add: t)
  next
    case ident
    define n where "n = max (length (takeWhile is_ident_tail ?gap)) 1"
    have tw: "take n ?gap = takeWhile is_ident_tail ?gap"
      using ident_start_tail [OF ident(3)] by (simp add: n_def takeWhile_eq_take [symmetric])
    have "\<forall>x \<in> set (take n ?gap). plain x"
      unfolding tw by (auto dest!: set_takeWhileD intro: ident_tail_plain)
    moreover have "0 < n" "n \<le> length ?gap" using length_takeWhile_le [of is_ident_tail ?gap] by (simp_all add: n_def)
    moreover have "flush_gap t ?gap anchor s = flush_gap (dispatch_token t (take n ?gap) anchor s) (drop n ?gap) anchor s" for t
      by (simp only: flush_gap.simps(2) ident if_False if_True Let_def n_def)
    ultimately show thesis using ident(1) plain_piece_depth [of n ?gap] by (intro that [of n]) simp_all
  next
    case one
    then show thesis by (intro that [of 1]) (auto simp: net_depth_classify_byte)
  qed
qed

lemma flush_gap_ok:
  assumes "scope_ok t" and "unat (tk_depth t) + length gap < 2 ^ 32"
  shows "scope_ok (flush_gap t gap anchor s) \<and>
    unat (tk_depth (flush_gap t gap anchor s)) = foldl byte_depth (unat (tk_depth t)) gap \<and>
    tk_pending (flush_gap t gap anchor s) = tk_pending t"
  using assms
proof (induction "length gap" arbitrary: t gap rule: less_induct)
  case less
  show ?case
  proof (cases gap)
    case (Cons b tail)
    obtain n where n: "0 < n" "n \<le> length gap"
      and round: "flush_gap t gap anchor s =
        flush_gap (if is_ascii_whitespace b then t else dispatch_token t (take n gap) anchor s) (drop n gap) anchor s"
      and depth: "foldl byte_depth (unat (tk_depth t)) gap =
        foldl byte_depth (if is_ascii_whitespace b then unat (tk_depth t)
          else net_depth (classify (take n gap)) (unat (tk_depth t))) (drop n gap)"
      using flush_gap_round [of b tail anchor s] unfolding Cons by metis
    let ?t = "if is_ascii_whitespace b then t else dispatch_token t (take n gap) anchor s"
    have "room t" using less.prems(2) Cons by (simp add: room_def)
    note d = dispatch_ok [OF less.prems(1) this, of "take n gap" anchor s]
    have "unat (tk_depth ?t) \<le> unat (tk_depth t) + 1" using d(2) net_depth_le by simp
    then have "unat (tk_depth ?t) + length (drop n gap) < 2 ^ 32" using less.prems(2) n by simp
    moreover have "scope_ok ?t" using d(1) less.prems(1) by simp
    ultimately show ?thesis
      unfolding round depth using less.hyps [of "drop n gap" ?t] n d(2,3) by (simp split: if_splits)
  qed (use less.prems(1) in simp)
qed

text \<open>The tracker and the automaton are in step: every open delimiter is a frame, and a lexeme is
  pending exactly when the automaton is inside one.\<close>

definition buffered :: "scope_tracker \<Rightarrow> lex_kind \<Rightarrow> bool" where
  "buffered t k \<longleftrightarrow> (\<exists>pd. tk_pending t = Some pd \<and> pd_kind pd = k \<and> pd_buf pd \<noteq> [] \<and> plain (hd (pd_buf pd)))"

definition in_step :: "scope_tracker \<Rightarrow> state \<Rightarrow> frame list \<Rightarrow> bool" where
  "in_step t st fs \<longleftrightarrow> scope_ok t \<and> unat (tk_depth t) = length fs \<and>
    (case lexeme_kind st of Some k \<Rightarrow> buffered t k | None \<Rightarrow> tk_pending t = None)"

definition walk_ok :: "state \<Rightarrow> frame list \<Rightarrow> bool \<Rightarrow> bytes \<Rightarrow> scope_tracker \<Rightarrow> bool" where
  "walk_ok st fs cont seg t \<longleftrightarrow> scope_ok t \<and>
    (case lexeme_kind st of
       None \<Rightarrow> tk_pending t = None \<and> foldl byte_depth (unat (tk_depth t)) seg = length fs
     | Some k \<Rightarrow> unat (tk_depth t) = length fs \<and>
         (if cont then buffered t k else tk_pending t = None \<and> seg \<noteq> [] \<and> plain (hd seg)))"

lemma emit_lexeme_ok:
  assumes "walk_ok st fs cont seg t" and "lexeme_kind st = Some k" and "room t"
  shows "scope_ok (emit_lexeme t seg anchor cont s) \<and>
    unat (tk_depth (emit_lexeme t seg anchor cont s)) = length fs \<and>
    tk_pending (emit_lexeme t seg anchor cont s) = None"
proof (cases cont)
  case True
  with assms obtain pd where pd: "tk_pending t = Some pd" "pd_buf pd \<noteq> []" "plain (hd (pd_buf pd))"
    by (auto simp: walk_ok_def buffered_def)
  let ?u = "t\<lparr>tk_pending := None\<rparr>"
  have "scope_ok ?u" "room ?u" using assms by (simp_all add: walk_ok_def scope_ok_def room_def)
  note d = dispatch_ok [OF this, of "pd_buf pd @ seg" "pd_anchor pd" s]
  show ?thesis
    using d net_depth_classify_plain [of "pd_buf pd @ seg"] pd True assms(1,2)
    by (simp add: emit_lexeme_def walk_ok_def)
next
  case False
  have "scope_ok t" using assms(1) by (simp add: walk_ok_def)
  note d = dispatch_ok [OF this assms(3), of seg anchor s]
  show ?thesis
    using d net_depth_classify_plain [of seg] False assms(1,2)
    by (simp add: emit_lexeme_def walk_ok_def)
qed

text \<open>At a boundary the segment is flushed or emitted, and a new one begins with the byte.\<close>

lemma walk_ok_cut:
  assumes "walk_ok st fs cont seg t" and "unat (tk_depth t) + length seg + Suc n < 2 ^ 32"
    and "cfg_step (st, fs) b = Some (st1, fs1)" and "lexeme_kind st1 \<noteq> lexeme_kind st"
    and "u = (if lexeme_kind st = None then flush_gap t seg anchor s else emit_lexeme t seg anchor cont s)"
  shows "walk_ok st1 fs1 False [b] u \<and> unat (tk_depth u) + Suc n < 2 ^ 32"
proof (cases "lexeme_kind st")
  case None
  then obtain k where k: "lexeme_kind st1 = Some k" using assms(4) by (cases "lexeme_kind st1") auto
  have "scope_ok u \<and> unat (tk_depth u) = length fs \<and> tk_pending u = None"
    using flush_gap_ok [of t seg anchor s] assms(1,2,5) None by (simp add: walk_ok_def)
  moreover have "length fs \<le> unat (tk_depth t) + length seg"
    using assms(1) None fold_byte_depth_le [of "unat (tk_depth t)" seg] by (simp add: walk_ok_def)
  ultimately show ?thesis
    using k cfg_step_in_lexeme(1,2) [OF assms(3) k] None assms(2) by (simp add: walk_ok_def)
next
  case (Some k)
  have "room t" using assms(2) by (simp add: room_def)
  note e = emit_lexeme_ok [OF assms(1) Some this, of anchor s]
  have gap: "lexeme_kind st1 = None"
    using assms(4) Some cfg_step_in_lexeme(3) [OF assms(3) _ Some] by (cases "lexeme_kind st1") auto
  have "unat (tk_depth t) = length fs" using assms(1) Some by (simp add: walk_ok_def)
  then show ?thesis
    using e gap cfg_step_gap_depth [OF assms(3) gap] assms(2,5) Some by (simp add: walk_ok_def)
qed

lemma seg_walk_ok:
  assumes "walk_ok st fs cont seg t" and "unat (tk_depth t) + length seg + length bs < 2 ^ 32"
    and "cfg_run (st, fs) bs = Some (st', fs')"
  shows "\<exists>w seg' t'. seg_walk bs st fs cont anchor seg t s = Inr (w, seg', t') \<and>
    wl_state w = st' \<and> wl_stack w = fs' \<and> walk_ok st' fs' (wl_continuing w) seg' t' \<and>
    unat (tk_depth t') + length seg' < 2 ^ 32"
  using assms
proof (induction bs arbitrary: st fs cont anchor seg t)
  case Nil
  then show ?case by simp
next
  case (Cons b bs)
  from Cons.prems(3) obtain st1 fs1 where one: "cfg_step (st, fs) b = Some (st1, fs1)"
    and rest: "cfg_run (st1, fs1) bs = Some (st', fs')" by (auto split: option.splits)
  show ?case
  proof (cases "lexeme_kind st1 = lexeme_kind st")
    case True
    have "walk_ok st1 fs1 cont (seg @ [b]) t"
      using Cons.prems(1) True cfg_step_gap_depth [OF one] cfg_step_in_lexeme(1) [OF one]
      by (auto simp: walk_ok_def split: option.splits if_splits)
    from Cons.IH [OF this _ rest] Cons.prems(2) show ?thesis using one True by simp
  next
    case cut: False
    let ?u = "if lexeme_kind st = None then flush_gap t seg anchor s else emit_lexeme t seg anchor cont s"
    have "seg_walk (b # bs) st fs cont anchor seg t s = seg_walk bs st1 fs1 False st [b] ?u s"
      by (simp only: seg_walk.simps one option.case prod.case cut if_False)
    moreover have "walk_ok st1 fs1 False [b] ?u" "unat (tk_depth ?u) + length [b] + length bs < 2 ^ 32"
      using walk_ok_cut [OF Cons.prems(1) _ one cut refl, of "length bs" anchor s] Cons.prems(2) by simp_all
    ultimately show ?thesis using Cons.IH [OF _ _ rest] by metis
  qed
qed

lemma finish_walk_ok:
  assumes "walk_ok st fs cont seg t" and "unat (tk_depth t) + length seg < 2 ^ 32"
    and "wl_state w = st" and "wl_continuing w = cont"
  shows "in_step (finish_walk (Inr (w, seg, t)) s) st fs"
proof (cases "lexeme_kind st")
  case None
  then show ?thesis
    using assms flush_gap_ok [OF _ assms(2), of "wl_seg_anchor w" s]
    by (simp add: finish_walk_def in_step_def walk_ok_def)
next
  case (Some k)
  have ok: "scope_ok (t\<lparr>tk_pending := x\<rparr>) = scope_ok t" for x by (simp add: scope_ok_def)
  show ?thesis
    using assms Some
    by (auto simp: finish_walk_def in_step_def walk_ok_def buffer_trailing_def buffered_def ok
        split: if_splits)
qed

lemma in_step_walk:
  assumes "in_step t st fs"
  shows "walk_ok st fs (lexeme_kind st \<noteq> None) [] t"
  using assms by (auto simp: in_step_def walk_ok_def split: option.splits)

lemma observe_in_step_eq:
  assumes "in_step t (pda_st p) (pda_stack p)"
  shows "observe t bs p s = finish_walk (seg_walk bs (pda_st p) (pda_stack p)
    (lexeme_kind (pda_st p) \<noteq> None)
    (first_anchor t (pda_st p)) [] t s) s"
  using assms
  by (auto simp: observe_seg_walk in_step_def buffered_def continues_def first_anchor_def
      flush_pending_def split: option.splits)

lemma observe_in_step:
  assumes "in_step t (pda_st p) (pda_stack p)" and "cfg_run (cfg_of p) bs = Some (cfg_of q)"
    and "length (pda_stack p) + length bs < 2 ^ 32"
  shows "in_step (observe t bs p s) (pda_st q) (pda_stack q)"
proof -
  have "unat (tk_depth t) + length ([] :: bytes) + length bs < 2 ^ 32"
    using assms(1,3) by (simp add: in_step_def)
  from seg_walk_ok [OF in_step_walk [OF assms(1)] this, of "pda_st q" "pda_stack q"] assms(2)
  obtain w seg' t' where "seg_walk bs (pda_st p) (pda_stack p) (lexeme_kind (pda_st p) \<noteq> None)
      (first_anchor t (pda_st p)) [] t s = Inr (w, seg', t')"
    "wl_state w = pda_st q" "walk_ok (pda_st q) (pda_stack q) (wl_continuing w) seg' t'"
    "unat (tk_depth t') + length seg' < 2 ^ 32"
    unfolding cfg_of_def by blast
  then show ?thesis
    unfolding observe_in_step_eq [OF assms(1)] using finish_walk_ok by metis
qed

text \<open>The tracker over a stream of committed tokens, as a session drives it.\<close>

fun track_tokens :: "schema \<Rightarrow> pda \<Rightarrow> scope_tracker \<Rightarrow> bytes list \<Rightarrow> (pda \<times> scope_tracker) option" where
  "track_tokens s p t [] = Some (p, t)"
| "track_tokens s p t (bs # toks) =
    (case feed p bs of
       (Inr _, q) \<Rightarrow> track_tokens s q (observe t bs p s) toks
     | (Inl _, _) \<Rightarrow> None)"

lemma cfg_run_stack_length: "cfg_run (st, fs) bs = Some (st', fs') \<Longrightarrow> length fs' \<le> length fs + length bs"
proof (induction bs arbitrary: st fs)
  case (Cons b bs)
  then obtain st1 fs1 where one: "cfg_step (st, fs) b = Some (st1, fs1)"
    and rest: "cfg_run (st1, fs1) bs = Some (st', fs')" by (auto split: option.splits)
  from one have "length fs1 \<le> Suc (length fs)" by (auto simp: cfg_step_def split: pda_step.splits)
  with Cons.IH [OF rest] show ?case by simp
qed simp

lemma track_tokens_run:
  "track_tokens s p t toks = Some (q, u) \<Longrightarrow> cfg_run (cfg_of p) (concat toks) = Some (cfg_of q)"
  by (induction toks arbitrary: p t)
    (auto simp: feed_ok_iff cfg_run_append split: prod.splits sum.splits)

lemma track_tokens_in_step:
  assumes "track_tokens s p t toks = Some (q, u)" and "in_step t (pda_st p) (pda_stack p)"
    and "length (pda_stack p) + length (concat toks) < 2 ^ 32"
  shows "in_step u (pda_st q) (pda_stack q)"
  using assms
proof (induction toks arbitrary: p t)
  case Nil
  then show ?case by simp
next
  case (Cons bs toks)
  then obtain p1 where fd: "feed p bs = (Inr (), p1)"
    and rest: "track_tokens s p1 (observe t bs p s) toks = Some (q, u)"
    by (auto split: prod.splits sum.splits)
  from fd have run: "cfg_run (cfg_of p) bs = Some (cfg_of p1)" by (simp add: feed_ok_iff)
  have "in_step (observe t bs p s) (pda_st p1) (pda_stack p1)"
    using Cons.prems(2,3) run by (intro observe_in_step) auto
  moreover have "length (pda_stack p1) + length (concat toks) < 2 ^ 32"
    using cfg_run_stack_length [of "pda_st p" "pda_stack p" bs] run Cons.prems(3)
    by (simp add: cfg_of_def)
  ultimately show ?case using Cons.IH [OF rest] by blast
qed

lemma in_step_new: "in_step tracker_new (pda_st pda_new) (pda_stack pda_new)"
  by (simp add: in_step_def scope_ok_new) (simp add: tracker_new_def pda_new_def)

section \<open>Cutting a lexeme\<close>

lemma seg_walk_append:
  "seg_walk (xs @ ys) st fs cont anchor seg t s =
    (case seg_walk xs st fs cont anchor seg t s of
       Inl u \<Rightarrow> Inl u
     | Inr (w, seg', t') \<Rightarrow>
         seg_walk ys (wl_state w) (wl_stack w) (wl_continuing w) (wl_seg_anchor w) seg' t' s)"
  by (induction xs arbitrary: st fs cont anchor seg t) (auto split: option.split)

lemma tracker_pending_idem: "tk_pending t = x \<Longrightarrow> t\<lparr>tk_pending := x\<rparr> = t"
  by (cases t) simp

lemma emit_buffered:
  assumes "if cont then buffered t k else tk_pending t = None"
  shows "emit_lexeme (buffer_trailing t k seg anchor cont) seg' a True s =
    emit_lexeme t (seg @ seg') anchor cont s"
  using assms
  by (auto simp: buffered_def emit_lexeme_def buffer_trailing_def tracker_pending_idem split: if_splits)

lemma buffer_buffered:
  assumes "if cont then buffered t k else tk_pending t = None"
  shows "buffer_trailing (buffer_trailing t k seg anchor cont) k seg' a True =
    buffer_trailing t k (seg @ seg') anchor cont"
  using assms by (auto simp: buffered_def buffer_trailing_def split: if_splits)

lemma seg_walk_resume:
  assumes "if cont then buffered t k else tk_pending t = None" and "lexeme_kind st = Some k"
    and "cfg_run (st, fs) ys \<noteq> None"
  shows "finish_walk (seg_walk ys st fs True a seg' (buffer_trailing t k seg anchor cont) s) s =
    finish_walk (seg_walk ys st fs cont anchor (seg @ seg') t s) s"
  using assms(2,3)
proof (induction ys arbitrary: st fs seg')
  case Nil
  then show ?case using buffer_buffered [OF assms(1)] by (simp add: finish_walk_def)
next
  case (Cons b ys)
  then obtain st1 fs1 where one: "cfg_step (st, fs) b = Some (st1, fs1)"
    and rest: "cfg_run (st1, fs1) ys \<noteq> None" by (auto split: option.splits)
  show ?case
  proof (cases "lexeme_kind st1 = Some k")
    case True
    with Cons.IH [OF True rest, of "seg' @ [b]"] one Cons.prems(1) show ?thesis by simp
  next
    case False
    then show ?thesis using one Cons.prems(1) emit_buffered [OF assms(1)] by simp
  qed
qed

lemma observe_split:
  assumes sync: "in_step t (pda_st p) (pda_stack p)" and run: "cfg_run (cfg_of p) xs = Some (cfg_of q)"
    and inside: "lexeme_kind (pda_st q) \<noteq> None" and live: "cfg_run (cfg_of q) ys \<noteq> None"
    and bound: "length (pda_stack p) + length xs < 2 ^ 32"
  shows "observe (observe t xs p s) ys q s = observe t (xs @ ys) p s"
proof -
  let ?a = "first_anchor t (pda_st p)"
  let ?c = "lexeme_kind (pda_st p) \<noteq> None"
  have b: "unat (tk_depth t) + length ([] :: bytes) + length xs < 2 ^ 32"
    using sync bound by (simp add: in_step_def)
  obtain w seg u where w: "seg_walk xs (pda_st p) (pda_stack p) ?c ?a [] t s = Inr (w, seg, u)"
    and q: "wl_state w = pda_st q" "wl_stack w = pda_stack q"
    and ok: "walk_ok (pda_st q) (pda_stack q) (wl_continuing w) seg u"
    using seg_walk_ok [OF in_step_walk [OF sync] b run [unfolded cfg_of_def]] by blast
  obtain k where k: "lexeme_kind (pda_st q) = Some k" using inside by blast
  have obs: "observe t xs p s = buffer_trailing u k seg (wl_seg_anchor w) (wl_continuing w)"
    unfolding observe_in_step_eq [OF sync] w by (simp add: finish_walk_def q k)
  have sync': "in_step (observe t xs p s) (pda_st q) (pda_stack q)"
    using observe_in_step [OF sync run bound] .
  have "observe t (xs @ ys) p s = finish_walk (seg_walk ys (pda_st q) (pda_stack q) (wl_continuing w)
      (wl_seg_anchor w) (seg @ []) u s) s"
    unfolding observe_in_step_eq [OF sync] seg_walk_append w by (simp add: q)
  also have "\<dots> = finish_walk (seg_walk ys (pda_st q) (pda_stack q) True
      (first_anchor (observe t xs p s) (pda_st q)) []
      (observe t xs p s) s) s"
    unfolding obs using ok k live
    by (intro seg_walk_resume [symmetric]) (auto simp: walk_ok_def cfg_of_def split: if_splits)
  also have "\<dots> = observe (observe t xs p s) ys q s"
    unfolding observe_in_step_eq [OF sync'] by (simp add: k)
  finally show ?thesis by simp
qed

section \<open>Emitted columns\<close>

definition grows :: "scope_tracker \<Rightarrow> scope_tracker \<Rightarrow> bool" where
  "grows t u \<longleftrightarrow> prefix (tk_emitted_strings t) (tk_emitted_strings u)"

lemma grows_refl [simp]: "grows t t"
  and grows_trans: "grows t u \<Longrightarrow> grows u v \<Longrightarrow> grows t v"
  by (auto simp: grows_def)

lemma grows_eq: "tk_emitted_strings u = tk_emitted_strings t \<Longrightarrow> grows t u"
  by (simp add: grows_def)

lemma resolve_member_emitted [simp]:
  "tk_emitted_strings (fst (resolve_member t ident s r)) = tk_emitted_strings t"
  by (simp add: resolve_member_def Let_def split: option.splits resolved.splits)

lemma on_close_emitted [simp]: "tk_emitted_strings (on_close t) = tk_emitted_strings t"
proof -
  note rb = restore_binders_eq [OF refl, of t]
  obtain c e w where rs: "restore_scopes (restore_binders t) = (restore_binders t)
      \<lparr>tk_scope_saves := rev (dropWhile (\<lambda>b. ss_depth b = tk_depth t) (rev (tk_scope_saves t))),
       tk_cur_class := c, tk_rel_explicit := e, tk_saw_tilde_bracket := w\<rparr>"
    using restore_scopes_eq [OF refl, of "restore_binders t"] by (auto simp: rb Let_def)
  show ?thesis by (simp add: on_close_def rs Let_def, simp add: rb Let_def)
qed

lemma handle_lexeme_grows: "grows t (fst (handle_lexeme t lx pre s))"
proof (cases lx)
  case (LxIdent ident)
  then show ?thesis
    by (simp add: handle_lexeme_def on_ident_def grows_def Let_def case_prod_unfold)
next
  case LxOpen
  then show ?thesis
    by (intro grows_eq) (simp add: handle_lexeme_def on_open_def enter_method_def Let_def split: option.split)
next
  case LxPipe
  then show ?thesis
    by (intro grows_eq) (simp add: handle_lexeme_def on_pipe_def bind_lambda_def Let_def split: option.split)
next
  case LxDot
  then show ?thesis
    by (intro grows_eq) (simp add: handle_lexeme_def on_dot_def Let_def split: option.split)
next
  case LxCmp
  then show ?thesis by (intro grows_eq) (simp add: handle_lexeme_def split: option.split)
qed (simp_all add: handle_lexeme_def grows_def on_arrow_def)

lemma dispatch_grows: "grows t (dispatch_token t bs pre s)"
  using handle_lexeme_grows [of t "classify bs" pre s]
  by (auto simp: dispatch_token_def Let_def grows_def case_prod_unfold)

lemma flush_gap_grows: "grows t (flush_gap t gap anchor s)"
proof (induction t gap anchor s rule: flush_gap.induct)
  case (2 t b tail anchor s)
  note g = grows_trans [OF dispatch_grows]
  show ?case
    unfolding flush_gap.simps(2) Let_def
    using 2(1) g [OF 2(2)] g [OF 2(3) [OF _ _ _ refl]] g [OF 2(4)]
    by (cases "is_ascii_whitespace b"; cases "tail \<noteq> [] \<and> is_two_byte_op b (hd tail)";
        cases "is_ident_start b"; simp only: if_True if_False simp_thms)
qed simp

lemma emit_lexeme_grows: "grows t (emit_lexeme t seg anchor cont s)"
  using dispatch_grows [of "t\<lparr>tk_pending := None\<rparr>"] dispatch_grows [of t]
  by (auto simp: emit_lexeme_def grows_def split: option.splits bool.splits)

lemma seg_walk_grows:
  "case seg_walk bs st fs cont anchor seg t s of Inl u \<Rightarrow> grows t u | Inr (w, seg', u) \<Rightarrow> grows t u"
proof (induction bs arbitrary: st fs cont anchor seg t)
  case (Cons b bs)
  show ?case
  proof (cases "cfg_step (st, fs) b")
    case (Some c)
    obtain st1 fs1 where c: "c = (st1, fs1)" by fastforce
    let ?u = "if lexeme_kind st = None then flush_gap t seg anchor s else emit_lexeme t seg anchor cont s"
    have "grows t ?u" using flush_gap_grows emit_lexeme_grows by simp
    then show ?thesis
      using Cons.IH [of t st1 fs1 cont anchor "seg @ [b]"] Cons.IH [of ?u st1 fs1 False st "[b]"]
      by (auto simp: Some c intro: grows_trans split: sum.splits)
  qed simp
qed simp

lemma finish_walk_grows:
  assumes "case r of Inl u \<Rightarrow> grows t u | Inr (w, seg, u) \<Rightarrow> grows t u"
  shows "grows t (finish_walk r s)"
proof (cases r)
  case (Inr x)
  obtain w seg u where x: "x = (w, seg, u)" by (cases x)
  have "grows u (buffer_trailing u k seg a c)" for k a c
    by (intro grows_eq) (simp add: buffer_trailing_def split: option.split)
  then show ?thesis using assms Inr x flush_gap_grows grows_trans
    by (auto simp: finish_walk_def split: option.split)
qed (use assms in \<open>simp add: finish_walk_def\<close>)

lemma observe_grows: "grows t (observe t bs p s)"
proof -
  let ?u = "flush_pending t s"
  have "grows t ?u"
    using dispatch_grows [of "t\<lparr>tk_pending := None\<rparr>"]
    by (auto simp: grows_def flush_pending_def split: option.split)
  then have "grows t (finish_walk (seg_walk bs (pda_st p) (pda_stack p) c a [] ?u s) s)" for c a
    using finish_walk_grows [OF seg_walk_grows] grows_trans by blast
  moreover have "grows t (finish_walk (seg_walk bs (pda_st p) (pda_stack p) c a [] t s) s)" for c a
    by (rule finish_walk_grows [OF seg_walk_grows])
  ultimately show ?thesis by (simp add: observe_seg_walk)
qed

section \<open>Properties\<close>

text \<open>A schema with two unrelated classes, for the concrete runs below.\<close>

definition shop_class :: "bytes \<Rightarrow> property_spec list \<Rightarrow> class_info" where
  "shop_class nm ps = \<lparr>ci_simple_name = nm, ci_properties = ps,
     ci_qualified_properties = [], ci_super_types = []\<rparr>"

definition shop :: schema where
  "shop = schema_of_data \<lparr>sd_db_id = ''shop'', sd_db_path = ''shop::Db'',
     sd_classes =
       [(''foo::A'', shop_class ''A''
          [\<lparr>ps_name = ''size'', ps_ty = PtPrimitive PnInteger, ps_mult = one_one\<rparr>,
           \<lparr>ps_name = ''b'', ps_ty = PtClass ''lib::B'', ps_mult = one_one\<rparr>]),
        (''lib::B'', shop_class ''B''
          [\<lparr>ps_name = ''price'', ps_ty = PtPrimitive PnInteger, ps_mult = one_one\<rparr>])],
     sd_associations = [], sd_enums = Map.empty\<rparr>"

text \<open>C16: The scope machine moves in lockstep with the byte automaton: after any sequence of
  committed tokens its delimiter depth is the height of the automaton's frame stack, the two
  per-delimiter vectors have one entry per frame, the saved bindings are ordered by depth and
  none is deeper than the current depth, and a lexeme is buffered exactly when the automaton
  stands inside one.  The bytes of the stream have to number fewer than \<open>2 ^ 32\<close>, so that the
  32-bit depth counter does not wrap.\<close>

theorem scope_lockstep:
  assumes "track_tokens s pda_new tracker_new toks = Some (p, t)" and "length (concat toks) < 2 ^ 32"
  shows "unat (tk_depth t) = length (pda_stack p) \<and>
    length (tk_paren_receiver t) = length (pda_stack p) \<and>
    length (tk_tilde_open t) = length (pda_stack p) \<and>
    sorted_wrt (\<le>) (map bs_depth (tk_binder_saves t) @ [tk_depth t]) \<and>
    sorted_wrt (\<le>) (map ss_depth (tk_scope_saves t) @ [tk_depth t]) \<and>
    map_option pd_kind (tk_pending t) = lexeme_kind (pda_st p)"
proof -
  have "in_step t (pda_st p) (pda_stack p)"
    using track_tokens_in_step [OF assms(1) in_step_new] assms(2) by (simp add: pda_new_def)
  then show ?thesis
    by (auto simp: in_step_def scope_ok_def buffered_def split: option.splits)
qed

theorem scope_lockstep_witness:
  "case track_tokens shop pda_new tracker_new [''|foo::'', ''A.all('', '')->filter(x|$x.si''] of
     Some (p, t) \<Rightarrow> unat (tk_depth t) = 1 \<and> pda_stack p = [Paren] | None \<Rightarrow> False"
proof -
  have "case track_tokens shop pda_new tracker_new [''|foo::'', ''A.all('', '')->filter(x|$x.si''] of
     Some (p, t) \<Rightarrow> pda_stack p = [Paren] | None \<Rightarrow> False"
    by code_simp
  then obtain p t where
    run: "track_tokens shop pda_new tracker_new [''|foo::'', ''A.all('', '')->filter(x|$x.si''] = Some (p, t)"
    and st: "pda_stack p = [Paren]"
    by (auto simp del: track_tokens.simps split: option.splits)
  show ?thesis using scope_lockstep [OF run] st unfolding run by simp
qed

text \<open>C7: A lambda's bindings never outlive its scope: between an opening delimiter and the closing
  delimiter that matches it, whatever lexemes are dispatched in between (nested delimiters,
  binders, subqueries), the class every variable is bound to and the set of relation-row
  variables end as they began, and so does the depth.\<close>

theorem lambda_scope_restored:
  assumes "scope_ok t" and "classify op = LxOpen" and "classify cl = LxClose"
    and "nesting 0 evs = Some 0" and "unat (tk_depth t) + 2 + length evs < 2 ^ 32"
    and "u = run_lexemes t ((op, pre) # evs @ [(cl, pre')]) s"
  shows "tk_var_class u = tk_var_class t \<and> tk_relation_row_vars u = tk_relation_row_vars t \<and>
    tk_depth u = tk_depth t"
proof -
  let ?a = "dispatch_token t op pre s"
  let ?b = "run_lexemes ?a evs s"
  let ?d = "tk_depth ?a"
  have room: "room t" using assms(5) by (simp add: room_def)
  note o = dispatch_ok [OF assms(1) room, of op pre s]
  have lt: "tk_depth t < ?d" using o(2) assms(2) by (simp add: word_less_nat_alt)
  have b: "scope_ok ?b" "unat (tk_depth ?b) = unat ?d" "outer ?d ?b = outer ?d ?a"
    using run_lexemes_nested [OF o(1), of "unat ?d" 0 evs 0 ?d s] assms(2,4,5) o(2) by auto
  then have eq: "tk_depth ?b = ?d" by (simp add: word_unat_eq_iff)
  have "room ?b" using b(2) o(2) assms(2,5) by (simp add: room_def)
  note c = dispatch_ok [OF b(1) this, of cl pre' s]
  have u: "u = dispatch_token ?b cl pre' s" by (simp add: assms(6))
  have du: "unat (tk_depth u) = unat (tk_depth t)" using c(2) b(2) o(2) assms(2,3) u by simp
  have "bindings u = outer ?d u"
    using lt du c(1) u by (intro outer_shallow [symmetric]) (simp_all add: word_less_nat_alt)
  also have "\<dots> = outer ?d t"
    using outer_dispatch [of ?d ?b cl pre' s] eq b(3) u
      outer_book [OF dispatch_book, of ?d t op pre s] assms(2)
    by (simp add: handle_lexeme_def outer_open)
  also have "\<dots> = bindings t" using assms(1) lt by (rule outer_shallow)
  finally show ?thesis using du by (simp add: bindings_def word_unat_eq_iff)
qed

theorem lambda_scope_restored_witness:
  "tk_var_class (run_lexemes (tracker_new\<lparr>tk_var_class := [''x'' \<mapsto> Some ''foo::A'']\<rparr>)
     [(''('', AfterValue), (''x'', ExpectValue), (''|'', AfterValue), (''$'', ExpectValueReq),
      (''x'', AfterDollar), ('')'', AfterValue)] shop) = [''x'' \<mapsto> Some ''foo::A'']"
proof -
  let ?evs = "[(''x'', ExpectValue), (''|'', AfterValue), (''$'', ExpectValueReq), (''x'', AfterDollar)]"
  have n: "nesting 0 ?evs = Some 0" by code_simp
  have ok: "scope_ok (tracker_new\<lparr>tk_var_class := [''x'' \<mapsto> Some ''foo::A'']\<rparr>)"
    by (simp add: scope_ok_def tracker_new_def)
  show ?thesis
    using lambda_scope_restored [OF ok classify_open(1) classify_close(1) n _ refl,
        of AfterValue AfterValue shop]
    by (simp add: tracker_new_def)
qed

text \<open>C19: The scope does not depend on how byte-pair encoding cuts a lexeme: when the stream so far
  was admitted token by token, and the next bytes \<open>xs @ ys\<close> are cut at a point inside an
  identifier, string, number or date, observing the two pieces one after the other leaves
  exactly the tracker that observing them as one token leaves.\<close>

theorem lexeme_cut_invariant:
  assumes "track_tokens s pda_new tracker_new toks = Some (p, t)"
    and "feed p xs = (Inr (), q)" and "lexeme_kind (pda_st q) \<noteq> None" and "fst (feed q ys) = Inr ()"
    and "length (concat toks) + length xs < 2 ^ 32"
  shows "observe (observe t xs p s) ys q s = observe t (xs @ ys) p s"
proof -
  have sync: "in_step t (pda_st p) (pda_stack p)"
    using track_tokens_in_step [OF assms(1) in_step_new] assms(5) by (simp add: pda_new_def)
  have "length (pda_stack p) \<le> length (concat toks)"
    using cfg_run_stack_length [of Start "[]" "concat toks" "pda_st p" "pda_stack p"]
      track_tokens_run [OF assms(1)] by (simp add: cfg_of_def pda_new_def)
  moreover from assms(4) have "feed q ys = (Inr (), snd (feed q ys))" by (metis prod.collapse)
  ultimately show ?thesis
    using assms(2-5) by (intro observe_split [OF sync]) (auto simp: feed_ok_iff)
qed

theorem lexeme_cut_invariant_witness:
  "observe (observe tracker_new ''|foo::'' pda_new shop) ''A.all()''
     \<lparr>pda_st = SourceColon2, pda_stack = []\<rparr> shop =
   observe tracker_new ''|foo::A.all()'' pda_new shop"
proof -
  have a: "track_tokens shop pda_new tracker_new [] = Some (pda_new, tracker_new)" by simp
  have b: "feed pda_new ''|foo::'' = (Inr (), \<lparr>pda_st = SourceColon2, pda_stack = []\<rparr>)"
    and c: "fst (feed \<lparr>pda_st = SourceColon2, pda_stack = []\<rparr> ''A.all()'') = Inr ()"
    by code_simp+
  show ?thesis using lexeme_cut_invariant [OF a b _ c] by simp
qed

text \<open>Between lexemes the cut does matter: when a token ends inside a two-byte operator, the
  operator's halves are classified apart and its handler never runs.  Cut after the \<open>-\<close> of the
  second arrow, the binder \<open>y\<close> of a navigation's lambda is bound to the class of the enclosing
  pipeline; uncut, to the class the navigation reached.  So the mask after \<open>$y.\<close> offers the
  members of the wrong class, and the valid member \<open>price\<close> is not among them.\<close>

theorem operator_cut_changes_scope:
  "(case track_tokens shop pda_new tracker_new [''|foo::A.all()->filter(x|$x.b'', ''->'', ''exists(y|$y.''] of
      Some (p, t) \<Rightarrow> position t (pda_st p) = L2Member ''lib::B'' \<and>
        ''price'' \<in> set (member_names shop ''lib::B'') | None \<Rightarrow> False) \<and>
   (case track_tokens shop pda_new tracker_new [''|foo::A.all()->filter(x|$x.b'', ''-'', ''>exists(y|$y.''] of
      Some (p, t) \<Rightarrow> position t (pda_st p) = L2Member ''foo::A'' \<and>
        ''price'' \<notin> set (member_names shop ''foo::A'') | None \<Rightarrow> False)"
  by code_simp

text \<open>A block statement whose source class starts with the letter \<open>l\<close> is not recognised as a
  source: the automaton reads it through the keyword states of \<open>let\<close>, which belong to no lexeme,
  so the tracker sees its first letter and the rest as two identifiers, keeps the class of the
  previous statement, and types the lambda over \<open>lib::B\<close> with the members of \<open>foo::A\<close>.\<close>

theorem let_prefixed_source_lost:
  "(case track_tokens shop pda_new tracker_new [''{|let a = foo::A.all();lib::B.all()->filter(x|$x.''] of
      Some (p, t) \<Rightarrow> position t (pda_st p) = L2Member ''foo::A'' \<and> has_class shop ''lib::B'' \<and>
        ''price'' \<notin> set (member_names shop ''foo::A'') | None \<Rightarrow> False)"
  by code_simp

text \<open>A column once emitted stays legal: observing a token only appends to the list of emitted
  names, so every name in it, and its place, survives the rest of the stream; and a quoted
  string that is dispatched appends its unquoted content.\<close>

theorem emitted_columns_grow:
  "prefix (emitted_columns t) (emitted_columns (observe t bs p s)) \<and>
   (classify lit = LxStr content \<longrightarrow>
      emitted_columns (dispatch_token t lit pre s) = emitted_columns t @ [content])"
  using observe_grows [of t bs p s]
  by (simp add: emitted_columns_def grows_def dispatch_token_def handle_lexeme_def)

theorem emitted_columns_grow_witness:
  "emitted_columns (dispatch_token tracker_new [CHR 0x27, CHR ''a'', CHR 0x27, CHR 0x27, CHR 0x27]
     ExpectValue shop) = [[CHR ''a'', CHR 0x27]]"
proof -
  have "classify [CHR 0x27, CHR ''a'', CHR 0x27, CHR 0x27, CHR 0x27] = LxStr [CHR ''a'', CHR 0x27]"
    by code_simp
  then show ?thesis
    using emitted_columns_grow [of tracker_new _ _ shop "[CHR 0x27, CHR ''a'', CHR 0x27, CHR 0x27, CHR 0x27]"
        "[CHR ''a'', CHR 0x27]" ExpectValue]
    by (simp add: emitted_columns_def tracker_new_def)
qed

end
