(* ===== verification/Narrowing.thy ===== *)
theory Narrowing
  imports Byte_Trie Scope_Props Vocabulary Bit_Mask
begin

text \<open>
  The narrowing rules of \<open>src/src/schema/narrow.rs\<close>: the memo of tries and masks, the rules
  that fill the narrowing buffer for a position, and the second rule for tokens that fuse a
  navigation dot with an identifier.  A rule returns whether a constraint applies, the buffer
  and the memo.
\<close>

definition LET_KEYWORD :: bytes where
  "LET_KEYWORD = ''let''"

datatype trie_kind = TkIdent | TkStr

datatype cache_key =
  CkSource | CkMember bytes | CkReValue type_cls | CkColumn usize | CkRelationColumn usize
| CkFusedMember bytes | CkFusedRelationColumn usize

record rule_cache =
  rc_trie :: trie
  rc_kind :: trie_kind
  rc_masks :: "u32 \<rightharpoonup> bit_mask"

record narrow_cache =
  nc_operand :: "cache_key \<rightharpoonup> bit_mask"
  nc_tries :: "cache_key \<rightharpoonup> rule_cache"

definition narrow_cache_new :: narrow_cache where
  "narrow_cache_new = \<lparr>nc_operand = Map.empty, nc_tries = Map.empty\<rparr>"

definition narrow_cache_clear :: "narrow_cache \<Rightarrow> narrow_cache" where
  "narrow_cache_clear c = c\<lparr>nc_operand := Map.empty, nc_tries := Map.empty\<rparr>"

section \<open>Which tokens a rule keeps\<close>

fun quote_body :: "bytes \<Rightarrow> bytes" where
  "quote_body [] = []"
| "quote_body (b # bs) =
    (if b = CHR 0x27 then CHR 0x27 # b # quote_body bs else b # quote_body bs)"

definition quote :: "bytes \<Rightarrow> bytes" where
  "quote content = CHR 0x27 # quote_body content @ [CHR 0x27]"

definition keeps_operand :: "lexeme \<Rightarrow> type_cls \<Rightarrow> bool" where
  "keeps_operand lx lhs =
    (case lx of
       LxStr _ \<Rightarrow> lhs = TcStr
     | LxNumber \<Rightarrow> lhs = TcNumeric
     | LxDate \<Rightarrow> lhs = TcTemporal
     | _ \<Rightarrow> True)"

definition is_candidate :: "bytes \<Rightarrow> trie_kind \<Rightarrow> bool \<Rightarrow> bool" where
  "is_candidate bs kind mid_lexeme =
    (case bs of
       [] \<Rightarrow> False
     | first # _ \<Rightarrow>
         (case kind of
            TkIdent \<Rightarrow> is_ident_tail first
          | TkStr \<Rightarrow> first = CHR 0x27 \<or> mid_lexeme))"

definition fused_post_dot :: "bytes \<Rightarrow> bytes option" where
  "fused_post_dot bs =
    (case bs of
       b # rest \<Rightarrow>
         if b = CHR ''.'' \<and> (case rest of c # _ \<Rightarrow> is_ident_start c | [] \<Rightarrow> False) then Some rest
         else None
     | [] \<Rightarrow> None)"

definition trie_keep :: "trie \<Rightarrow> u32 \<Rightarrow> trie_kind \<Rightarrow> bytes \<Rightarrow> bool" where
  "trie_keep tr cursor kind bs =
    (if is_candidate bs kind (cursor \<noteq> trie_root tr) then walk tr cursor bs \<noteq> Diverge else True)"

definition fused_keep :: "trie \<Rightarrow> bytes \<Rightarrow> bool" where
  "fused_keep tr bs =
    (case fused_post_dot bs of
       Some rest \<Rightarrow> walk tr (trie_root tr) rest \<noteq> Diverge
     | None \<Rightarrow> True)"

section \<open>Filling the buffer\<close>

definition fill_operand :: "bit_mask \<Rightarrow> vocab \<Rightarrow> u32 \<Rightarrow> type_cls \<Rightarrow> bit_mask" where
  "fill_operand dst v eos masked_by =
    bm_set (foldl (\<lambda>m i. if keeps_operand (classify (token_bytes v i)) masked_by then bm_set m i else m)
      (bm_clear_all dst) (token_ids v)) eos"

definition fill_trie :: "bit_mask \<Rightarrow> vocab \<Rightarrow> u32 \<Rightarrow> trie \<Rightarrow> u32 \<Rightarrow> trie_kind \<Rightarrow> bit_mask" where
  "fill_trie dst v eos tr cursor kind =
    bm_set (foldl (\<lambda>m i. if trie_keep tr cursor kind (token_bytes v i) then bm_set m i else m)
      (bm_clear_all dst) (token_ids v)) eos"

definition fill_fused_trie :: "bit_mask \<Rightarrow> vocab \<Rightarrow> u32 \<Rightarrow> trie \<Rightarrow> bit_mask" where
  "fill_fused_trie dst v eos tr =
    bm_set (foldl (\<lambda>m i. if fused_keep tr (token_bytes v i) then bm_set m i else m)
      (bm_clear_all dst) (token_ids v)) eos"

section \<open>The memo\<close>

text \<open>\<open>cache.tries.entry(key).or_insert_with(..)\<close>\<close>

definition trie_entry :: "narrow_cache \<Rightarrow> cache_key \<Rightarrow> trie_kind \<Rightarrow> bytes list \<Rightarrow> rule_cache" where
  "trie_entry c key kind names =
    (case nc_tries c key of
       Some e \<Rightarrow> e
     | None \<Rightarrow> \<lparr>rc_trie = from_names names, rc_kind = kind, rc_masks = Map.empty\<rparr>)"

definition put_entry :: "narrow_cache \<Rightarrow> cache_key \<Rightarrow> rule_cache \<Rightarrow> narrow_cache" where
  "put_entry c key e = c\<lparr>nc_tries := (nc_tries c)(key \<mapsto> e)\<rparr>"

definition narrow_trie :: "bit_mask \<Rightarrow> narrow_cache \<Rightarrow> cache_key \<Rightarrow> bytes \<Rightarrow> trie_kind \<Rightarrow> vocab \<Rightarrow> u32
    \<Rightarrow> bytes list \<Rightarrow> bool \<times> bit_mask \<times> narrow_cache" where
  "narrow_trie dst c key prefx kind v eos names =
    (let e = trie_entry c key kind names;
         c = put_entry c key e
     in case (if prefx = [] then Stay (trie_root (rc_trie e))
              else walk (rc_trie e) (trie_root (rc_trie e)) prefx) of
          Stay cursor \<Rightarrow>
            (case rc_masks e cursor of
               Some cached \<Rightarrow> (True, bm_copy_from dst cached, c)
             | None \<Rightarrow>
                 (let dst = fill_trie dst v eos (rc_trie e) cursor (rc_kind e)
                  in (True, dst, put_entry c key (e\<lparr>rc_masks := (rc_masks e)(cursor \<mapsto> dst)\<rparr>))))
        | _ \<Rightarrow> (False, dst, c))"

definition narrow_fused_trie :: "bit_mask \<Rightarrow> narrow_cache \<Rightarrow> cache_key \<Rightarrow> vocab \<Rightarrow> u32
    \<Rightarrow> bytes list \<Rightarrow> bool \<times> bit_mask \<times> narrow_cache" where
  "narrow_fused_trie dst c key v eos names =
    (let e = trie_entry c key TkIdent names;
         c = put_entry c key e;
         root = trie_root (rc_trie e)
     in case rc_masks e root of
          Some cached \<Rightarrow> (True, bm_copy_from dst cached, c)
        | None \<Rightarrow>
            (let dst = fill_fused_trie dst v eos (rc_trie e)
             in (True, dst, put_entry c key (e\<lparr>rc_masks := (rc_masks e)(root \<mapsto> dst)\<rparr>))))"

definition with_cache :: "bit_mask \<Rightarrow> narrow_cache \<Rightarrow> cache_key \<Rightarrow> (bit_mask \<Rightarrow> bit_mask)
    \<Rightarrow> bit_mask \<times> narrow_cache" where
  "with_cache dst c key fill =
    (case nc_operand c key of
       Some cached \<Rightarrow> (bm_copy_from dst cached, c)
     | None \<Rightarrow> (let dst = fill dst in (dst, c\<lparr>nc_operand := (nc_operand c)(key \<mapsto> dst)\<rparr>)))"

section \<open>The rules\<close>

definition narrow_into :: "bit_mask \<Rightarrow> narrow_cache \<Rightarrow> schema \<Rightarrow> l2_position \<Rightarrow> bytes \<Rightarrow> bytes list
    \<Rightarrow> vocab \<Rightarrow> u32 \<Rightarrow> bool \<times> bit_mask \<times> narrow_cache" where
  "narrow_into dst c s pos prefx columns v eos =
    (case pos of
       L2None \<Rightarrow> (False, dst, c)
     | L2ReValue tc \<Rightarrow>
         if tc = TcBoolean \<or> tc = TcTemporal then (False, dst, c)
         else (True, with_cache dst c (CkReValue tc) (\<lambda>dst. fill_operand dst v eos tc))
     | L2SourceIdent \<Rightarrow>
         narrow_trie dst c CkSource prefx TkIdent v eos (source_paths s @ [LET_KEYWORD])
     | L2Member cls \<Rightarrow>
         narrow_trie dst c (CkMember cls) prefx TkIdent v eos (member_names s cls)
     | L2Column \<Rightarrow>
         narrow_trie dst c (CkColumn (length columns)) prefx TkStr v eos (map quote columns)
     | L2RelationColumn \<Rightarrow>
         narrow_trie dst c (CkRelationColumn (length columns)) prefx TkIdent v eos columns)"

definition narrow_fused_into :: "bit_mask \<Rightarrow> narrow_cache \<Rightarrow> schema \<Rightarrow> l2_position \<Rightarrow> bytes list
    \<Rightarrow> vocab \<Rightarrow> u32 \<Rightarrow> bool \<times> bit_mask \<times> narrow_cache" where
  "narrow_fused_into dst c s pos columns v eos =
    (case pos of
       L2Member cls \<Rightarrow> narrow_fused_trie dst c (CkFusedMember cls) v eos (member_names s cls)
     | L2RelationColumn \<Rightarrow>
         narrow_fused_trie dst c (CkFusedRelationColumn (length columns)) v eos columns
     | _ \<Rightarrow> (False, dst, c))"

section \<open>Coherence of the memo\<close>

text \<open>The names behind a key, for a stream that has emitted \<open>columns\<close>; a column key counts the
  columns that had been emitted when it was first used.\<close>

fun key_names :: "schema \<Rightarrow> bytes list \<Rightarrow> cache_key \<Rightarrow> bytes list" where
  "key_names s columns CkSource = source_paths s @ [LET_KEYWORD]"
| "key_names s columns (CkMember cls) = member_names s cls"
| "key_names s columns (CkFusedMember cls) = member_names s cls"
| "key_names s columns (CkColumn n) = map quote (take n columns)"
| "key_names s columns (CkRelationColumn n) = take n columns"
| "key_names s columns (CkFusedRelationColumn n) = take n columns"
| "key_names s columns (CkReValue tc) = []"

fun key_kind :: "cache_key \<Rightarrow> trie_kind" where
  "key_kind (CkColumn n) = TkStr"
| "key_kind _ = TkIdent"

fun key_count :: "cache_key \<Rightarrow> usize" where
  "key_count (CkColumn n) = n"
| "key_count (CkRelationColumn n) = n"
| "key_count (CkFusedRelationColumn n) = n"
| "key_count _ = 0"

fun key_fused :: "cache_key \<Rightarrow> bool" where
  "key_fused (CkFusedMember cls) = True"
| "key_fused (CkFusedRelationColumn n) = True"
| "key_fused _ = False"

text \<open>\<open>holds m v eos P\<close>: the mask spans the vocabulary and EOS and holds exactly EOS and the tokens
  whose bytes satisfy \<open>P\<close>.\<close>

definition holds :: "bit_mask \<Rightarrow> vocab \<Rightarrow> u32 \<Rightarrow> (bytes \<Rightarrow> bool) \<Rightarrow> bool" where
  "holds m v eos P \<longleftrightarrow> bm_ok m \<and> bm_len m = vocab_len v + 1 \<and>
    (\<forall>i. bm_test m i \<longleftrightarrow> (unat i < vocab_len v \<and> P (token_bytes v i)) \<or> i = eos)"

definition entry_ok :: "schema \<Rightarrow> bytes list \<Rightarrow> vocab \<Rightarrow> u32 \<Rightarrow> cache_key \<Rightarrow> rule_cache \<Rightarrow> bool" where
  "entry_ok s columns v eos key e \<longleftrightarrow>
    rc_trie e = from_names (key_names s columns key) \<and> rc_kind e = key_kind key \<and>
    key_count key \<le> length columns \<and>
    (\<forall>cursor m. rc_masks e cursor = Some m \<longrightarrow>
      holds m v eos (if key_fused key then fused_keep (from_names (key_names s columns key))
        else trie_keep (from_names (key_names s columns key)) cursor (key_kind key)))"

definition memo_ok :: "schema \<Rightarrow> bytes list \<Rightarrow> vocab \<Rightarrow> u32 \<Rightarrow> narrow_cache \<Rightarrow> bool" where
  "memo_ok s columns v eos c \<longleftrightarrow>
    (\<forall>key e. nc_tries c key = Some e \<longrightarrow> entry_ok s columns v eos key e) \<and>
    (\<forall>tc m. nc_operand c (CkReValue tc) = Some m \<longrightarrow>
      holds m v eos (\<lambda>bs. keeps_operand (classify bs) tc))"

lemma memo_ok_new [simp]: "memo_ok s columns v eos narrow_cache_new"
  by (simp add: memo_ok_def narrow_cache_new_def)

lemma memo_ok_clear [simp]: "memo_ok s columns v eos (narrow_cache_clear c)"
  by (simp add: memo_ok_def narrow_cache_clear_def)

lemma key_names_mono:
  "key_count key \<le> length columns \<Longrightarrow> prefix columns columns' \<Longrightarrow>
    key_names s columns' key = key_names s columns key"
  by (cases key) (auto simp: prefix_def)

lemma entry_ok_mono:
  assumes "entry_ok s columns v eos key e" and "prefix columns columns'"
  shows "entry_ok s columns' v eos key e"
proof -
  have n: "key_count key \<le> length columns" using assms(1) by (simp add: entry_ok_def)
  show ?thesis
    using assms(1) order_trans [OF n prefix_length_le [OF assms(2)]]
    unfolding entry_ok_def key_names_mono [OF n assms(2)] by simp
qed

lemma memo_ok_mono:
  assumes "memo_ok s columns v eos c" and "prefix columns columns'"
  shows "memo_ok s columns' v eos c"
  using assms(1) entry_ok_mono [OF _ assms(2)] by (simp add: memo_ok_def)

text \<open>A vocabulary the 32-bit ids can span together with EOS, and its EOS bit.\<close>

definition spans :: "vocab \<Rightarrow> u32 \<Rightarrow> bool" where
  "spans v eos \<longleftrightarrow> vocab_len v + 1 < 2 ^ 32 \<and> unat eos = vocab_len v"

lemma refill_holds:
  assumes "spans v eos" and "bm_ok dst" and "bm_len dst = vocab_len v + 1"
    and "r = bm_set (foldl (\<lambda>m i. if P (token_bytes v i) then bm_set m i else m)
      (bm_clear_all dst) (token_ids v)) eos"
  shows "holds r v eos P"
proof -
  have len: "vocab_len v < 2 ^ 32" using assms(1) by (simp add: spans_def)
  have ids: "\<forall>i \<in> set (token_ids v). unat i < bm_len dst"
    using assms(3) by (simp add: token_ids_iff [OF len])
  have eos: "unat eos < bm_len dst" using assms(1,3) by (simp add: spans_def)
  note r = mask.refill [OF assms(4,2) ids eos]
  show ?thesis using r assms(3) by (simp add: holds_def token_ids_iff [OF len])
qed

lemma holds_cap: "holds m v eos P \<Longrightarrow> bm_ok m \<and> bm_len m = vocab_len v + 1"
  by (simp add: holds_def)

lemma copy_holds:
  assumes "holds m v eos P" and "bm_ok dst" and "bm_len dst = vocab_len v + 1"
  shows "bm_copy_from dst m = m"
  using assms by (intro mask.load_laws) (auto simp: holds_def)

lemma entry_ok_entry:
  assumes "memo_ok s columns v eos c" and "names = key_names s columns key" and "kind = key_kind key"
    and "key_count key \<le> length columns"
  shows "entry_ok s columns v eos key (trie_entry c key kind names)"
proof (cases "nc_tries c key")
  case None
  with assms show ?thesis by (simp add: trie_entry_def entry_ok_def)
next
  case (Some e)
  with assms(1) show ?thesis by (simp add: trie_entry_def memo_ok_def)
qed

lemma entry_ok_mask:
  assumes "entry_ok s columns v eos key e" and "rc_masks e cursor = Some m" and "\<not> key_fused key"
  shows "holds m v eos (trie_keep (from_names (key_names s columns key)) cursor (key_kind key))"
  using assms by (simp add: entry_ok_def)

lemma entry_ok_fused_mask:
  assumes "entry_ok s columns v eos key e" and "rc_masks e cursor = Some m" and "key_fused key"
  shows "holds m v eos (fused_keep (from_names (key_names s columns key)))"
  using assms by (simp add: entry_ok_def)

lemma entry_ok_add:
  assumes "entry_ok s columns v eos key e"
    and "holds m v eos (if key_fused key then fused_keep (from_names (key_names s columns key))
      else trie_keep (from_names (key_names s columns key)) cursor (key_kind key))"
  shows "entry_ok s columns v eos key (e\<lparr>rc_masks := (rc_masks e)(cursor \<mapsto> m)\<rparr>)"
  using assms unfolding entry_ok_def by (auto split del: if_split split: if_split_asm)

lemma memo_ok_put:
  assumes "memo_ok s columns v eos c" and "entry_ok s columns v eos key e"
  shows "memo_ok s columns v eos (put_entry c key e)"
  using assms by (simp add: memo_ok_def put_entry_def)

section \<open>What the rules compute\<close>

text \<open>A token is kept by a name rule when it is not one the rule governs, or when the text emitted
  since the anchor, extended by it, is still on the way to a name.\<close>

definition reaches :: "bytes list \<Rightarrow> bytes \<Rightarrow> bool" where
  "reaches names xs = (xs = [] \<or> name_prefix names xs \<or> name_done names xs)"

definition name_rule :: "bytes list \<Rightarrow> trie_kind \<Rightarrow> bytes \<Rightarrow> bytes \<Rightarrow> bool" where
  "name_rule names kind prefx bs =
    (\<not> is_candidate bs kind (prefx \<noteq> []) \<or> reaches names (prefx @ bs))"

definition fused_rule :: "bytes list \<Rightarrow> bytes \<Rightarrow> bool" where
  "fused_rule names bs =
    (case fused_post_dot bs of Some rest \<Rightarrow> reaches names rest | None \<Rightarrow> True)"

lemma trie_keep_rule:
  assumes "names_fit names" and "walk (from_names names) (trie_root (from_names names)) prefx = Stay cursor"
  shows "trie_keep (from_names names) cursor kind bs = name_rule names kind prefx bs"
proof -
  have "cursor \<noteq> trie_root (from_names names) \<longleftrightarrow> prefx \<noteq> []"
    using names.at_root [OF assms(1), of prefx] assms(2) by simp
  then show ?thesis
    using names.kept_from [OF assms] by (auto simp: trie_keep_def name_rule_def reaches_def)
qed

lemma fused_keep_rule:
  assumes "names_fit names"
  shows "fused_keep (from_names names) bs = fused_rule names bs"
  using names.kept [OF assms] by (simp add: fused_keep_def fused_rule_def reaches_def split: option.split)

definition buffer_ok :: "bit_mask \<Rightarrow> vocab \<Rightarrow> bool" where
  "buffer_ok m v \<longleftrightarrow> bm_ok m \<and> bm_len m = vocab_len v + 1"

lemma holds_buffer: "holds m v eos P \<Longrightarrow> buffer_ok m v"
  by (simp add: holds_def buffer_ok_def)

lemma narrow_trie_sound:
  assumes memo: "memo_ok s columns v eos c" and span: "spans v eos" and dst: "buffer_ok dst v"
    and key: "names = key_names s columns key" "kind = key_kind key" "key_count key \<le> length columns"
      "\<not> key_fused key"
    and run: "narrow_trie dst c key prefx kind v eos names = (applied, dst', c')"
  shows "memo_ok s columns v eos c'" and "buffer_ok dst' v"
    and "applied \<Longrightarrow> \<exists>cursor. walk (from_names names) (trie_root (from_names names)) prefx = Stay cursor \<and>
      holds dst' v eos (trie_keep (from_names names) cursor kind)"
    and "\<not> applied \<Longrightarrow> (\<forall>cursor. walk (from_names names) (trie_root (from_names names)) prefx \<noteq> Stay cursor)"
proof -
  let ?e = "trie_entry c key kind names"
  have e: "entry_ok s columns v eos key ?e" by (rule entry_ok_entry [OF memo key(1-3)])
  then have tr: "rc_trie ?e = from_names names" and kd: "rc_kind ?e = kind"
    by (simp_all add: entry_ok_def key)
  have put: "memo_ok s columns v eos (put_entry c key ?e)" by (rule memo_ok_put [OF memo e])
  have w: "(if prefx = [] then Stay (trie_root (rc_trie ?e)) else walk (rc_trie ?e) (trie_root (rc_trie ?e)) prefx)
      = walk (from_names names) (trie_root (from_names names)) prefx"
    by (simp add: tr)
  have "memo_ok s columns v eos c' \<and> buffer_ok dst' v \<and>
    (applied \<longrightarrow> (\<exists>cursor. walk (from_names names) (trie_root (from_names names)) prefx = Stay cursor \<and>
      holds dst' v eos (trie_keep (from_names names) cursor kind))) \<and>
    (\<not> applied \<longrightarrow> (\<forall>cursor. walk (from_names names) (trie_root (from_names names)) prefx \<noteq> Stay cursor))"
  proof (cases "walk (from_names names) (trie_root (from_names names)) prefx")
    case (Stay cursor)
    show ?thesis
    proof (cases "rc_masks ?e cursor")
      case (Some m)
      have m: "holds m v eos (trie_keep (from_names names) cursor kind)"
        using entry_ok_mask [OF e Some key(4)] by (simp add: key)
      have "bm_copy_from dst m = m" using copy_holds [OF m] dst by (simp add: buffer_ok_def)
      then show ?thesis using run Stay Some put m holds_buffer [OF m]
        by (simp add: narrow_trie_def Let_def w)
    next
      case None
      let ?d = "fill_trie dst v eos (rc_trie ?e) cursor (rc_kind ?e)"
      have d: "holds ?d v eos (trie_keep (rc_trie ?e) cursor (rc_kind ?e))"
        using dst by (intro refill_holds [OF span]) (simp_all add: buffer_ok_def fill_trie_def)
      have d': "holds ?d v eos (trie_keep (from_names names) cursor kind)" using d unfolding tr kd .
      have "entry_ok s columns v eos key (?e\<lparr>rc_masks := (rc_masks ?e)(cursor \<mapsto> ?d)\<rparr>)"
        using d' key(4) by (intro entry_ok_add [OF e]) (simp add: key(1,2) [symmetric])
      then show ?thesis
        using run Stay None d holds_buffer [OF d] memo_ok_put [OF put]
        by (auto simp: narrow_trie_def Let_def w tr kd)
    qed
  qed (use run put dst in \<open>auto simp: narrow_trie_def Let_def w\<close>)
  then show "memo_ok s columns v eos c'" "buffer_ok dst' v"
    "applied \<Longrightarrow> \<exists>cursor. walk (from_names names) (trie_root (from_names names)) prefx = Stay cursor \<and>
      holds dst' v eos (trie_keep (from_names names) cursor kind)"
    "\<not> applied \<Longrightarrow> (\<forall>cursor. walk (from_names names) (trie_root (from_names names)) prefx \<noteq> Stay cursor)"
    by auto
qed

lemma narrow_fused_trie_sound:
  assumes memo: "memo_ok s columns v eos c" and span: "spans v eos" and dst: "buffer_ok dst v"
    and key: "names = key_names s columns key" "TkIdent = key_kind key" "key_count key \<le> length columns"
      "key_fused key"
    and run: "narrow_fused_trie dst c key v eos names = (applied, dst', c')"
  shows "memo_ok s columns v eos c'" and "buffer_ok dst' v" and "applied"
    and "holds dst' v eos (fused_keep (from_names names))"
proof -
  let ?e = "trie_entry c key TkIdent names"
  have e: "entry_ok s columns v eos key ?e" by (rule entry_ok_entry [OF memo key(1-3)])
  then have tr: "rc_trie ?e = from_names names" by (simp add: entry_ok_def key)
  have put: "memo_ok s columns v eos (put_entry c key ?e)" by (rule memo_ok_put [OF memo e])
  have "memo_ok s columns v eos c' \<and> applied \<and> holds dst' v eos (fused_keep (from_names names))"
  proof (cases "rc_masks ?e (trie_root (rc_trie ?e))")
    case (Some m)
    have m: "holds m v eos (fused_keep (from_names names))"
      using entry_ok_fused_mask [OF e Some key(4)] by (simp add: key)
    have "bm_copy_from dst m = m" using copy_holds [OF m] dst by (simp add: buffer_ok_def)
    then show ?thesis using run Some put m by (simp add: narrow_fused_trie_def Let_def)
  next
    case None
    let ?d = "fill_fused_trie dst v eos (rc_trie ?e)"
    have d: "holds ?d v eos (fused_keep (rc_trie ?e))"
      using dst by (intro refill_holds [OF span]) (simp_all add: buffer_ok_def fill_fused_trie_def)
    have d': "holds ?d v eos (fused_keep (from_names names))" using d unfolding tr .
    have "entry_ok s columns v eos key (?e\<lparr>rc_masks := (rc_masks ?e)(trie_root (rc_trie ?e) \<mapsto> ?d)\<rparr>)"
      using d' key(4) by (intro entry_ok_add [OF e]) (simp add: key(1,2) [symmetric])
    then show ?thesis
      using run None d memo_ok_put [OF put] by (auto simp: narrow_fused_trie_def Let_def tr)
  qed
  then show "memo_ok s columns v eos c'" "buffer_ok dst' v" "applied"
    "holds dst' v eos (fused_keep (from_names names))"
    using holds_buffer by auto
qed

text \<open>The rule a position stands for: the names and the kind of the trie, with its key.\<close>

fun position_key :: "bytes list \<Rightarrow> l2_position \<Rightarrow> cache_key option" where
  "position_key columns L2SourceIdent = Some CkSource"
| "position_key columns (L2Member cls) = Some (CkMember cls)"
| "position_key columns L2Column = Some (CkColumn (length columns))"
| "position_key columns L2RelationColumn = Some (CkRelationColumn (length columns))"
| "position_key columns _ = None"

definition names_at :: "schema \<Rightarrow> bytes list \<Rightarrow> l2_position \<Rightarrow> bytes list" where
  "names_at s columns pos =
    (case position_key columns pos of Some key \<Rightarrow> key_names s columns key | None \<Rightarrow> [])"

lemma names_at_simps [simp]:
  "names_at s columns L2SourceIdent = source_paths s @ [LET_KEYWORD]"
  "names_at s columns (L2Member cls) = member_names s cls"
  "names_at s columns L2Column = map quote columns"
  "names_at s columns L2RelationColumn = columns"
  "names_at s columns L2None = []" "names_at s columns (L2ReValue tc) = []"
  by (simp_all add: names_at_def)

text \<open>The specification of narrowing: which tokens survive at a position, given the text emitted
  since the anchor; a name rule whose text has already left the names constrains nothing.\<close>

definition name_constraint :: "bytes list \<Rightarrow> trie_kind \<Rightarrow> bytes \<Rightarrow> bytes \<Rightarrow> bool" where
  "name_constraint names kind prefx bs =
    (if prefx = [] \<or> name_prefix names prefx then name_rule names kind prefx bs else True)"

definition keeps_at :: "schema \<Rightarrow> bytes list \<Rightarrow> l2_position \<Rightarrow> bytes \<Rightarrow> bytes \<Rightarrow> bool" where
  "keeps_at s columns pos prefx bs =
    (case pos of
       L2None \<Rightarrow> True
     | L2ReValue tc \<Rightarrow>
         if tc = TcBoolean \<or> tc = TcTemporal then True else keeps_operand (classify bs) tc
     | _ \<Rightarrow>
         name_constraint (names_at s columns pos) (if pos = L2Column then TkStr else TkIdent) prefx bs)"

definition fused_keeps_at :: "schema \<Rightarrow> bytes list \<Rightarrow> l2_position \<Rightarrow> bytes \<Rightarrow> bool" where
  "fused_keeps_at s columns pos bs =
    (case pos of
       L2Member cls \<Rightarrow> fused_rule (member_names s cls) bs
     | L2RelationColumn \<Rightarrow> fused_rule columns bs
     | _ \<Rightarrow> True)"

text \<open>What a rule owes its caller: the memo stays coherent, the buffer stays usable, and if it
  applies the buffer holds EOS and the tokens the specification keeps; if it does not apply, the
  specification keeps every token.\<close>

definition rule_result :: "schema \<Rightarrow> bytes list \<Rightarrow> vocab \<Rightarrow> u32 \<Rightarrow> (bytes \<Rightarrow> bool)
    \<Rightarrow> bool \<times> bit_mask \<times> narrow_cache \<Rightarrow> bool" where
  "rule_result s columns v eos P r =
    (case r of (applied, dst, c) \<Rightarrow> memo_ok s columns v eos c \<and> buffer_ok dst v \<and>
      (if applied then holds dst v eos P else (\<forall>bs. P bs)))"

lemma holds_cong: "holds m v eos P \<Longrightarrow> (\<And>bs. P bs = Q bs) \<Longrightarrow> holds m v eos Q"
  by (simp add: holds_def)

lemma narrow_trie_result:
  assumes "memo_ok s columns v eos c" and "spans v eos" and "buffer_ok dst v"
    and "names = key_names s columns key" and "kind = key_kind key" and "key_count key \<le> length columns"
    and "\<not> key_fused key" and fit: "names_fit names"
  shows "rule_result s columns v eos (name_constraint names kind prefx)
    (narrow_trie dst c key prefx kind v eos names)"
proof -
  obtain applied dst' c' where run: "narrow_trie dst c key prefx kind v eos names = (applied, dst', c')"
    by (metis prod.collapse)
  note sound = narrow_trie_sound [OF assms(1-7) run]
  have iff: "prefx = [] \<or> name_prefix names prefx \<longleftrightarrow>
      (\<exists>m. walk (from_names names) (trie_root (from_names names)) prefx = Stay m)"
    using names.stays_iff [OF fit, of prefx] by simp
  show ?thesis
  proof (cases applied)
    case True
    with sound(3) obtain cursor where w: "walk (from_names names) (trie_root (from_names names)) prefx = Stay cursor"
      and h: "holds dst' v eos (trie_keep (from_names names) cursor kind)" by blast
    then show ?thesis
      using sound(1,2) True iff trie_keep_rule [OF fit w] holds_cong [OF h]
      unfolding run rule_result_def name_constraint_def [abs_def] by auto
  next
    case False
    then show ?thesis using sound(1,2) sound(4) iff
      unfolding run rule_result_def name_constraint_def [abs_def] by auto
  qed
qed

lemma narrow_into_result:
  assumes memo: "memo_ok s columns v eos c" and span: "spans v eos" and dst: "buffer_ok dst v"
    and fit: "names_fit (names_at s columns pos)"
  shows "rule_result s columns v eos (keeps_at s columns pos prefx)
    (narrow_into dst c s pos prefx columns v eos)"
proof (cases pos)
  case (L2ReValue tc)
  show ?thesis
  proof (cases "tc = TcBoolean \<or> tc = TcTemporal")
    case True
    then show ?thesis using memo dst L2ReValue by (simp add: rule_result_def narrow_into_def keeps_at_def [abs_def])
  next
    case False
    have h: "\<exists>m c'. with_cache dst c (CkReValue tc) (\<lambda>dst. fill_operand dst v eos tc) = (m, c') \<and>
        memo_ok s columns v eos c' \<and> holds m v eos (\<lambda>bs. keeps_operand (classify bs) tc)"
    proof (cases "nc_operand c (CkReValue tc)")
      case (Some m)
      then have m: "holds m v eos (\<lambda>bs. keeps_operand (classify bs) tc)" using memo by (simp add: memo_ok_def)
      have "bm_copy_from dst m = m" using copy_holds [OF m] dst by (simp add: buffer_ok_def)
      then show ?thesis using Some m memo by (simp add: with_cache_def)
    next
      case None
      have "holds (fill_operand dst v eos tc) v eos (\<lambda>bs. keeps_operand (classify bs) tc)"
        using dst by (intro refill_holds [OF span]) (simp_all add: buffer_ok_def fill_operand_def)
      then show ?thesis using None memo by (auto simp: with_cache_def Let_def memo_ok_def)
    qed
    then show ?thesis
      using False L2ReValue holds_buffer by (auto simp: rule_result_def narrow_into_def keeps_at_def [abs_def])
  qed
next
  case L2SourceIdent
  then show ?thesis
    using narrow_trie_result [OF memo span dst, of "source_paths s @ [LET_KEYWORD]" CkSource TkIdent prefx] fit
    by (simp add: narrow_into_def keeps_at_def [abs_def])
next
  case (L2Member cls)
  then show ?thesis
    using narrow_trie_result [OF memo span dst, of "member_names s cls" "CkMember cls" TkIdent prefx] fit
    by (simp add: narrow_into_def keeps_at_def [abs_def])
next
  case L2Column
  then show ?thesis
    using narrow_trie_result [OF memo span dst, of "map quote columns" "CkColumn (length columns)" TkStr prefx] fit
    by (simp add: narrow_into_def keeps_at_def [abs_def])
next
  case L2RelationColumn
  then show ?thesis
    using narrow_trie_result [OF memo span dst, of columns "CkRelationColumn (length columns)" TkIdent prefx] fit
    by (simp add: narrow_into_def keeps_at_def [abs_def])
next
  case L2None
  then show ?thesis using memo dst by (simp add: rule_result_def narrow_into_def keeps_at_def [abs_def])
qed

lemma narrow_fused_into_result:
  assumes memo: "memo_ok s columns v eos c" and span: "spans v eos" and dst: "buffer_ok dst v"
    and fit: "names_fit (names_at s columns pos)"
  shows "rule_result s columns v eos (fused_keeps_at s columns pos)
    (narrow_fused_into dst c s pos columns v eos)"
proof -
  have fused: "rule_result s columns v eos (fused_rule names) (narrow_fused_trie dst c key v eos names)"
    if "names = key_names s columns key" "TkIdent = key_kind key" "key_count key \<le> length columns"
      "key_fused key" "names_fit names" for key names
  proof -
    obtain applied dst' c' where run: "narrow_fused_trie dst c key v eos names = (applied, dst', c')"
      by (metis prod.collapse)
    note sound = narrow_fused_trie_sound [OF memo span dst that(1-4) run]
    show ?thesis
      using sound(1-3) holds_cong [OF sound(4) fused_keep_rule [OF that(5)]]
      unfolding run rule_result_def by simp
  qed
  show ?thesis
    using memo dst fit fused [of _ "CkFusedMember _"] fused [of columns "CkFusedRelationColumn (length columns)"]
    by (cases pos) (simp_all add: narrow_fused_into_def fused_keeps_at_def [abs_def] rule_result_def)
qed

text \<open>Without the bound on the names the rules still owe the caller a coherent memo and a buffer that
  keeps EOS; only which tokens it holds is then not the specification's to say.\<close>

lemma narrow_trie_some:
  assumes "memo_ok s columns v eos c" and "spans v eos" and "buffer_ok dst v"
    and "names = key_names s columns key" and "kind = key_kind key" and "key_count key \<le> length columns"
    and "\<not> key_fused key"
  shows "\<exists>P. rule_result s columns v eos P (narrow_trie dst c key prefx kind v eos names)"
proof -
  obtain applied dst' c' where run: "narrow_trie dst c key prefx kind v eos names = (applied, dst', c')"
    by (metis prod.collapse)
  note sound = narrow_trie_sound [OF assms run]
  show ?thesis
  proof (cases applied)
    case True
    with sound show ?thesis unfolding run by (auto simp: rule_result_def)
  next
    case False
    with sound(1,2) show ?thesis unfolding run by (intro exI [of _ "\<lambda>_. True"]) (simp add: rule_result_def)
  qed
qed

lemma narrow_into_some:
  assumes "memo_ok s columns v eos c" and "spans v eos" and "buffer_ok dst v"
  shows "\<exists>P. rule_result s columns v eos P (narrow_into dst c s pos prefx columns v eos) \<and>
    (names_fit (names_at s columns pos) \<longrightarrow> P = keeps_at s columns pos prefx)"
proof (cases "names_fit (names_at s columns pos)")
  case True
  with narrow_into_result [OF assms True] show ?thesis by blast
next
  case False
  have "names_fit []" by (simp add: names_fit_def)
  with False have "names_at s columns pos \<noteq> []" by metis
  then show ?thesis
    using False narrow_trie_some [OF assms, of _ CkSource] narrow_trie_some [OF assms, of _ "CkMember _"]
      narrow_trie_some [OF assms, of _ "CkColumn (length columns)"]
      narrow_trie_some [OF assms, of _ "CkRelationColumn (length columns)"]
    by (cases pos) (simp_all add: narrow_into_def)
qed

lemma narrow_fused_into_some:
  assumes memo: "memo_ok s columns v eos c" and span: "spans v eos" and dst: "buffer_ok dst v"
  shows "\<exists>P. rule_result s columns v eos P (narrow_fused_into dst c s pos columns v eos) \<and>
    (names_fit (names_at s columns pos) \<longrightarrow> P = fused_keeps_at s columns pos)"
proof (cases "names_fit (names_at s columns pos)")
  case True
  with narrow_fused_into_result [OF assms True] show ?thesis by blast
next
  case False
  have fused: "\<exists>P. rule_result s columns v eos P (narrow_fused_trie dst c key v eos names)"
    if "names = key_names s columns key" "TkIdent = key_kind key" "key_count key \<le> length columns"
      "key_fused key" for key names
  proof -
    obtain applied dst' c' where run: "narrow_fused_trie dst c key v eos names = (applied, dst', c')"
      by (metis prod.collapse)
    note sound = narrow_fused_trie_sound [OF memo span dst that run]
    show ?thesis using sound unfolding run by (auto simp: rule_result_def)
  qed
  have triv: "\<exists>P. rule_result s columns v eos P (False, dst, c)"
    using memo dst by (intro exI [of _ "\<lambda>_. True"]) (simp add: rule_result_def)
  show ?thesis
    using False triv fused [of _ "CkFusedMember _"] fused [of columns "CkFusedRelationColumn (length columns)"]
    by (cases pos) (simp_all add: narrow_fused_into_def)
qed

section \<open>Quoting\<close>

lemma undouble_quote_body: "undouble (quote_body c) = c"
proof (induction c)
  case Nil
  then show ?case by simp
next
  case (Cons b c)
  show ?case
  proof (cases "b = CHR 0x27")
    case True
    then show ?thesis using Cons by simp
  next
    case False
    then show ?thesis using Cons by (cases "quote_body c") simp_all
  qed
qed

lemma classify_quote: "classify (quote c) = LxStr c"
proof -
  have "strip_quotes (quote c) = Some (quote_body c)"
    by (simp add: strip_quotes_def quote_def butlast_append)
  then have "unquote (quote c) = c" by (simp add: unquote_def undouble_quote_body)
  moreover have "quote c = CHR 0x27 # quote_body c @ [CHR 0x27]" by (simp add: quote_def)
  moreover have "\<not> is_ascii_whitespace (CHR 0x27)" by (simp add: is_ascii_whitespace_def)
  ultimately show ?thesis unfolding classify_def by simp
qed

lemma quote_body_run:
  "cfg_run (InStrLit False, fs) (quote_body c @ [CHR 0x27]) = Some (InStrLit True, fs)"
  by (induction c) (simp_all add: cfg_step_def step_InStrLit_def)

section \<open>Properties\<close>

text \<open>C34: Quoting a column name and reading it back agree on every byte string, quotes inside it
  included: \<open>quote c\<close> is classified as a string literal whose recorded content is \<open>c\<close>, it is the
  inverse of \<open>unquote\<close>, and the automaton reads it from a value position as one string literal
  up to and including its closing quote.\<close>

theorem quote_roundtrip:
  "classify (quote c) = LxStr c \<and> unquote (quote c) = c \<and>
   cfg_run (ExpectValueReq, fs) (quote c) = Some (InStrLit True, fs)"
proof -
  have "strip_quotes (quote c) = Some (quote_body c)"
    by (simp add: strip_quotes_def quote_def butlast_append)
  then show ?thesis
    using quote_body_run [of fs c]
    by (simp add: classify_quote unquote_def undouble_quote_body, simp add: quote_def cfg_step_def hub_quote)
qed

text \<open>C21: The name rule decides by the names: over the trie built from any names, every piece \<open>bs\<close> of every
  cut of a name is kept, from the cursor that the pieces before it reached, whatever the kind of the rule; and from a cursor
  that a text \<open>x\<close> has reached, the identifier rule judges a token by its first byte: when that byte
  belongs to an identifier, the token is kept exactly when \<open>x\<close> and the token together begin some
  name, or spell a whole name and then go on with a byte that neither belongs to an identifier nor continues a longer
  name, so that a phantom identifier is always cleared; any other token is none of the rule's business and is kept.\<close>

theorem name_rule_legal_and_phantom:
  assumes "names_fit names" and "tr = from_names names"
  shows "(\<forall>nm \<in> set names. prefix (x @ bs) nm \<longrightarrow>
      (\<exists>cursor. walk tr (trie_root tr) x = Stay cursor \<and> trie_keep tr cursor kind bs)) \<and>
    (\<forall>cursor b rest. walk tr (trie_root tr) x = Stay cursor \<and> bs = b # rest \<longrightarrow>
      (trie_keep tr cursor TkIdent bs \<longleftrightarrow>
        (if is_ident_tail b
         then (\<exists>nm \<in> set names. prefix (x @ bs) nm) \<or>
           (\<exists>nm \<in> set names. \<exists>c cs. x @ bs = nm @ c # cs \<and> \<not> is_ident_tail c \<and>
              \<not> (\<exists>longer \<in> set names. prefix (nm @ [c]) longer))
         else True)))"
proof (intro conjI ballI allI impI)
  fix nm assume nm: "nm \<in> set names" "prefix (x @ bs) nm"
  then have "prefix x nm" by (metis prefix_order.trans prefixI)
  then have "x = [] \<or> name_prefix names x" using nm(1) by (auto simp: name_prefix_iff)
  then obtain cursor where w: "walk tr (trie_root tr) x = Stay cursor"
    using names.stays_iff [OF assms(1), of x] by (auto simp: assms(2))
  moreover have "name_prefix names (x @ bs)" using nm by (auto simp: name_prefix_iff)
  ultimately have "trie_keep tr cursor kind bs"
    using trie_keep_rule [OF assms(1), of x cursor kind bs] by (simp add: assms(2) name_rule_def reaches_def)
  with w show "\<exists>cursor. walk tr (trie_root tr) x = Stay cursor \<and> trie_keep tr cursor kind bs" by blast
next
  fix cursor b rest assume "walk tr (trie_root tr) x = Stay cursor \<and> bs = b # rest"
  then have w: "walk tr (trie_root tr) x = Stay cursor" and bs: "bs = b # rest" by simp_all
  have "trie_keep tr cursor TkIdent bs \<longleftrightarrow>
      \<not> is_ident_tail b \<or> name_prefix names (x @ bs) \<or> name_done names (x @ bs)"
    using trie_keep_rule [OF assms(1), of x cursor TkIdent bs] w
    by (simp add: assms(2) name_rule_def reaches_def is_candidate_def bs)
  then show "trie_keep tr cursor TkIdent bs \<longleftrightarrow>
      (if is_ident_tail b
       then (\<exists>nm \<in> set names. prefix (x @ bs) nm) \<or>
         (\<exists>nm \<in> set names. \<exists>c cs. x @ bs = nm @ c # cs \<and> \<not> is_ident_tail c \<and>
            \<not> (\<exists>longer \<in> set names. prefix (nm @ [c]) longer))
       else True)"
    unfolding name_done_iff name_prefix_iff by (cases "is_ident_tail b"; simp only: simp_thms if_True if_False) blast
qed

theorem name_rule_legal_and_phantom_witness:
  "\<exists>cursor. walk (from_names [''size'', ''b'']) 0 ''si'' = Stay cursor \<and>
     trie_keep (from_names [''size'', ''b'']) cursor TkIdent ''ze'' \<and>
     \<not> trie_keep (from_names [''size'', ''b'']) cursor TkIdent ''zz'' \<and>
     trie_keep (from_names [''size'', ''b'']) cursor TkIdent ''ze > 1'' \<and>
     \<not> trie_keep (from_names [''size'', ''b'']) cursor TkIdent ''zy > 1''"
proof -
  let ?ns = "[''size'', ''b'']"
  have fit: "names_fit ?ns" by (simp add: names_fit_def)
  note rule = name_rule_legal_and_phantom [OF fit refl, of "''si''"]
  have tail: "is_ident_tail (CHR ''z'')" "\<not> is_ident_tail (CHR '' '')" by code_simp+
  obtain cursor where w: "walk (from_names ?ns) (trie_root (from_names ?ns)) ''si'' = Stay cursor"
    using rule [of "''ze''"] by auto
  have phantom: "\<not> (''sizz'' = nm @ c # cs \<or> ''sizy > 1'' = nm @ c # cs)" if "nm \<in> set ?ns" for nm c cs
    using that by auto
  have "trie_keep (from_names ?ns) cursor TkIdent ''ze''" "trie_keep (from_names ?ns) cursor TkIdent ''ze > 1''"
    using rule [of "''ze''"] rule [of "''ze > 1''"] w tail by auto
  moreover have "\<not> trie_keep (from_names ?ns) cursor TkIdent ''zz''" "\<not> trie_keep (from_names ?ns) cursor TkIdent ''zy > 1''"
    using rule [of "''zz''"] rule [of "''zy > 1''"] w tail phantom by auto
  ultimately show ?thesis using w unfolding trie_root_def by blast
qed

text \<open>C14: The memo is invisible: from every coherent memo, and so after any history of narrowing,
  the buffer a rule fills holds exactly EOS and the tokens its specification keeps, a rule that
  reports no constraint has a specification that keeps every token, and the memo stays coherent
  also for every longer list of emitted columns.\<close>

theorem narrow_into_exact:
  assumes "memo_ok s columns v eos c" and "spans v eos" and "buffer_ok dst v"
    and "names_fit (names_at s columns pos)"
    and "narrow_into dst c s pos prefx columns v eos = (applied, dst', c')"
  shows "(applied \<longrightarrow> (\<forall>i. bm_test dst' i \<longleftrightarrow>
      (unat i < vocab_len v \<and> keeps_at s columns pos prefx (token_bytes v i)) \<or> i = eos)) \<and>
    (\<not> applied \<longrightarrow> (\<forall>bs. keeps_at s columns pos prefx bs)) \<and>
    memo_ok s (columns @ later) v eos c'"
proof -
  have "rule_result s columns v eos (keeps_at s columns pos prefx) (applied, dst', c')"
    using narrow_into_result [OF assms(1-4), of prefx] unfolding assms(5) .
  then show ?thesis
    using memo_ok_mono [of s columns v eos c' "columns @ later"]
    by (auto simp: rule_result_def holds_def split: if_splits)
qed

theorem narrow_into_exact_witness:
  "\<exists>dst' c'. narrow_into (with_len 3) narrow_cache_new shop (L2Member ''foo::A'') [] []
      (from_byte_tokens [''si'', ''zz''] 9) 2 = (True, dst', c') \<and>
    bm_test dst' 0 \<and> \<not> bm_test dst' 1 \<and> bm_test dst' 2"
proof -
  let ?v = "from_byte_tokens [''si'', ''zz''] 9"
  obtain applied dst' c' where run: "narrow_into (with_len 3) narrow_cache_new shop (L2Member ''foo::A'') []
      [] ?v 2 = (applied, dst', c')"
    by (metis prod.collapse)
  have k: "keeps_at shop [] (L2Member ''foo::A'') [] ''si''" "\<not> keeps_at shop [] (L2Member ''foo::A'') [] ''zz''"
    by code_simp+
  have "names_at shop [] (L2Member ''foo::A'') = [''size'', ''b'']" by code_simp
  then have fit: "names_fit (names_at shop [] (L2Member ''foo::A''))" by (simp add: names_fit_def)
  have v: "spans ?v 2" "buffer_ok (with_len 3) ?v" "token_bytes ?v 0 = ''si''" "token_bytes ?v 1 = ''zz''"
    "vocab_len ?v = 2"
    by (simp_all add: spans_def buffer_ok_def from_byte_tokens_def vocab_len_def bm_ok_with_len
        token_bytes_def vocab_bytes_def vec_get_def)
  note t = narrow_into_exact [OF memo_ok_new v(1,2) fit run, of "[]"]
  have "applied" using t k(2) by blast
  then show ?thesis using t k(1,2) v(3-5) run by auto
qed

end
