(* ===== verification/Decode_Session.thy ===== *)
theory Decode_Session
  imports Compiled_Grammar Narrowing
begin

text \<open>
  The decode session of \<open>src/src/session.rs\<close>, with the error type of \<open>src/src/error.rs\<close> and the
  trait of \<open>src/src/recognizer.rs\<close>.  A session borrows a grammar whose cache fills behind the
  shared reference; the operations that may fill it take and return the grammar.
\<close>

datatype decode_error =
  DeadState usize u8 string string | InadmissibleToken u32 | UnknownToken u32 | UnexpectedEos

record decoder_session =
  se_pda :: pda
  se_offset :: usize
  se_mask :: bit_mask
  se_scratch :: "frame list"
  se_narrow_buf :: bit_mask
  se_schema :: "schema option"
  se_tracker :: scope_tracker
  se_narrow_cache :: narrow_cache

definition session_build :: "compiled_grammar \<Rightarrow> schema option \<Rightarrow> decoder_session" where
  "session_build g s =
    \<lparr>se_pda = pda_new, se_offset = 0, se_mask = with_len (mask_len g), se_scratch = [],
     se_narrow_buf = with_len (mask_len g), se_schema = s, se_tracker = tracker_new,
     se_narrow_cache = narrow_cache_new\<rparr>"

definition session_new :: "compiled_grammar \<Rightarrow> decoder_session" where
  "session_new g = session_build g None"

definition with_schema :: "compiled_grammar \<Rightarrow> schema \<Rightarrow> decoder_session" where
  "with_schema g s = session_build g (Some s)"

section \<open>The mask\<close>

text \<open>The re-probe of the deferred tokens against the live stack.\<close>

definition reprobe :: "pda \<Rightarrow> vocab \<Rightarrow> bit_mask \<times> frame list \<Rightarrow> u32 \<Rightarrow> bit_mask \<times> frame list" where
  "reprobe p v acc tok =
    (case acc of (m, scratch) \<Rightarrow>
      (case admits p (token_bytes v tok) scratch of
         (ok, scratch') \<Rightarrow> (if ok then bm_set m tok else m, scratch')))"

definition syntactic_mask :: "decoder_session \<Rightarrow> compiled_grammar \<Rightarrow> decoder_session \<times> compiled_grammar" where
  "syntactic_mask se g =
    (case cached_at g (pda_st (se_pda se)) of
       (cached, g') \<Rightarrow>
         (let m = bm_copy_from (se_mask se) (ca_indep cached);
              (m, scratch) =
                (if stack_top (se_pda se) \<noteq> None
                 then foldl (reprobe (se_pda se) (cg_vocab g')) (m, se_scratch se) (ca_deferred cached)
                 else (m, se_scratch se));
              eos = eos_bit g';
              m = (if is_accepting (se_pda se) then bm_set m eos else bm_clear m eos)
          in (se\<lparr>se_mask := m, se_scratch := scratch\<rparr>, g')))"

definition narrow_step :: "decoder_session \<Rightarrow> bool \<times> bit_mask \<times> narrow_cache \<Rightarrow> decoder_session" where
  "narrow_step se r =
    (case r of (applied, buf, c) \<Rightarrow>
      (let se = se\<lparr>se_narrow_buf := buf, se_narrow_cache := c\<rparr>
       in if applied then se\<lparr>se_mask := bm_intersect (se_mask se) buf\<rparr> else se))"

definition narrow_anchor :: "decoder_session \<Rightarrow> compiled_grammar \<Rightarrow> schema \<Rightarrow> decoder_session" where
  "narrow_anchor se g s =
    narrow_step se
      (narrow_into (se_narrow_buf se) (se_narrow_cache se) s
        (position (se_tracker se) (pda_st (se_pda se))) (narrow_prefix (se_tracker se))
        (emitted_columns (se_tracker se)) (cg_vocab g) (eos_bit g))"

definition narrow_fused :: "decoder_session \<Rightarrow> compiled_grammar \<Rightarrow> schema \<Rightarrow> decoder_session" where
  "narrow_fused se g s =
    (case fused_nav_position (se_tracker se) s of
       None \<Rightarrow> se
     | Some fused \<Rightarrow>
         narrow_step se
           (narrow_fused_into (se_narrow_buf se) (se_narrow_cache se) s fused
             (emitted_columns (se_tracker se)) (cg_vocab g) (eos_bit g)))"

definition allowed_mask :: "decoder_session \<Rightarrow> compiled_grammar
    \<Rightarrow> bit_mask \<times> decoder_session \<times> compiled_grammar" where
  "allowed_mask se g =
    (case syntactic_mask se g of
       (se, g') \<Rightarrow>
         (let se = (case se_schema se of
              Some s \<Rightarrow> narrow_fused (narrow_anchor se g' s) g' s
            | None \<Rightarrow> se)
          in (se_mask se, se, g')))"

section \<open>Advancing\<close>

definition accept_token :: "decoder_session \<Rightarrow> compiled_grammar \<Rightarrow> u32
    \<Rightarrow> (decode_error + unit) \<times> decoder_session" where
  "accept_token se g tok =
    (if tok = eos_bit g
     then (if is_accepting (se_pda se) then Inr () else Inl UnexpectedEos, se)
     else case vocab_bytes (cg_vocab g) tok of
       None \<Rightarrow> (Inl (UnknownToken tok), se)
     | Some bs \<Rightarrow>
         (case feed (se_pda se) bs of
            (Inl _, _) \<Rightarrow> (Inl (InadmissibleToken tok), se)
          | (Inr _, folded) \<Rightarrow>
              (let se = (case se_schema se of
                   Some s \<Rightarrow> se\<lparr>se_tracker := observe (se_tracker se) bs (se_pda se) s\<rparr>
                 | None \<Rightarrow> se)
               in (Inr (), se\<lparr>se_pda := folded, se_offset := se_offset se + length bs\<rparr>))))"

definition accept_byte :: "decoder_session \<Rightarrow> u8 \<Rightarrow> (decode_error + unit) \<times> decoder_session" where
  "accept_byte se b =
    (case advance (se_pda se) b of
       (Inr _, p) \<Rightarrow> (Inr (), se\<lparr>se_pda := p, se_offset := se_offset se + 1\<rparr>)
     | (Inl dead, p) \<Rightarrow>
         (Inl (DeadState (se_offset se) b (ds_state dead) (ds_stack_top dead)), se\<lparr>se_pda := p\<rparr>))"

definition is_complete :: "decoder_session \<Rightarrow> bool" where
  "is_complete se = is_accepting (se_pda se)"

definition session_offset :: "decoder_session \<Rightarrow> usize" where
  "session_offset se = se_offset se"

definition session_pda :: "decoder_session \<Rightarrow> pda" where
  "session_pda se = se_pda se"

definition session_reset :: "decoder_session \<Rightarrow> decoder_session" where
  "session_reset se =
    se\<lparr>se_pda := pda_reset (se_pda se), se_offset := 0, se_tracker := tracker_new,
       se_narrow_cache := narrow_cache_clear (se_narrow_cache se)\<rparr>"

section \<open>The trait\<close>

fun error_offset :: "decode_error \<Rightarrow> usize option" where
  "error_offset (DeadState n _ _ _) = Some n"
| "error_offset _ = None"

interpretation session: byte_recognizer accept_byte is_complete session_reset
  "\<lambda>se. cfg_of (se_pda se)" se_offset cfg_step
  "\<lambda>c. is_accepting \<lparr>pda_st = fst c, pda_stack = snd c\<rparr>" "(Start, [])" error_offset
proof unfold_locales
  fix r r' :: decoder_session and b e
  have cases: "(\<exists>p. advance (se_pda r) b = (Inr (), p) \<and> cfg_step (cfg_of (se_pda r)) b = Some (cfg_of p)) \<or>
      (\<exists>d. advance (se_pda r) b = (Inl d, se_pda r) \<and> cfg_step (cfg_of (se_pda r)) b = None)"
    by (simp add: advance_def cfg_step_def cfg_of_def Let_def split: pda_step.split)
  show "accept_byte r b = (Inr (), r') \<Longrightarrow>
      cfg_step (cfg_of (se_pda r)) b = Some (cfg_of (se_pda r')) \<and> se_offset r' = Suc (se_offset r)"
    using cases by (auto simp: accept_byte_def)
  show "accept_byte r b = (Inl e, r') \<Longrightarrow>
      cfg_step (cfg_of (se_pda r)) b = None \<and> r' = r \<and> error_offset e = Some (se_offset r)"
    using cases by (auto simp: accept_byte_def)
  show "is_complete r \<longleftrightarrow> is_accepting \<lparr>pda_st = fst (cfg_of (se_pda r)), pda_stack = snd (cfg_of (se_pda r))\<rparr>"
    by (cases "se_pda r") (simp add: is_complete_def cfg_of_def)
  show "cfg_of (se_pda (session_reset r)) = (Start, [])" "se_offset (session_reset r) = 0"
    by (simp_all add: session_reset_def)
qed

section \<open>What the mask holds\<close>

text \<open>The text a session has consumed can be followed by \<open>bs\<close>.\<close>

definition extends :: "pda \<Rightarrow> bytes \<Rightarrow> bool" where
  "extends p bs \<longleftrightarrow> cfg_run (cfg_of p) bs \<noteq> None"

lemma extends_feed: "extends p bs \<longleftrightarrow> fst (feed p bs) = Inr ()"
proof
  assume "extends p bs"
  then obtain st fs where "cfg_run (cfg_of p) bs = Some (st, fs)" by (auto simp: extends_def)
  then have "cfg_run (cfg_of p) bs = Some (cfg_of \<lparr>pda_st = st, pda_stack = fs\<rparr>)" by (simp add: cfg_of_def)
  then show "fst (feed p bs) = Inr ()" unfolding feed_ok_iff [symmetric] by simp
next
  assume "fst (feed p bs) = Inr ()"
  then have "feed p bs = (Inr (), snd (feed p bs))" by (metis prod.collapse)
  then show "extends p bs" unfolding feed_ok_iff by (simp add: extends_def)
qed

lemma extends_admits: "fst (admits p bs scratch) = extends p bs"
  by (simp add: admits_cfg extends_def)

definition session_ok :: "compiled_grammar \<Rightarrow> decoder_session \<Rightarrow> bool" where
  "session_ok g se \<longleftrightarrow> grammar_ok g \<and> vocab_len (cg_vocab g) + 1 < 2 ^ 32 \<and>
    buffer_ok (se_mask se) (cg_vocab g) \<and> buffer_ok (se_narrow_buf se) (cg_vocab g) \<and>
    (case se_schema se of
       Some s \<Rightarrow> memo_ok s (emitted_columns (se_tracker se)) (cg_vocab g) (eos_bit g) (se_narrow_cache se)
     | None \<Rightarrow> True)"

lemma eos_laws:
  assumes "vocab_len (cg_vocab g) + 1 < 2 ^ 32"
  shows "unat (eos_bit g) = vocab_len (cg_vocab g)" "mask_len g = vocab_len (cg_vocab g) + 1"
    "spans (cg_vocab g) (eos_bit g)"
  using assms by (simp_all add: eos_bit_def mask_len_def spans_def unat_word_of_nat_u32)

lemma reprobe_fold:
  assumes "bm_ok m"
  shows "bm_ok (fst (foldl (reprobe p v) (m, scratch) ids)) \<and>
    bm_len (fst (foldl (reprobe p v) (m, scratch) ids)) = bm_len m \<and>
    (\<forall>j. bm_test (fst (foldl (reprobe p v) (m, scratch) ids)) j \<longleftrightarrow>
      bm_test m j \<or> j \<in> set ids \<and> extends p (token_bytes v j) \<and> unat j < bm_len m)"
  using assms
proof (induction ids arbitrary: m scratch)
  case (Cons i ids)
  obtain ok scratch' where a: "admits p (token_bytes v i) scratch = (ok, scratch')" by fastforce
  then have ok: "ok = extends p (token_bytes v i)" using extends_admits by (metis fst_conv)
  show ?case
    using Cons.IH [of "bm_set m i" scratch'] Cons.IH [of m scratch'] Cons.prems
    by (auto simp: reprobe_def a ok mask.laws)
qed simp

text \<open>A token of the vocabulary extends the stream exactly when the partition of its state kept it,
  or deferred it and the live stack admits it.\<close>

lemma partition_extends:
  "\<not> consulted_ambient (classify_at (pda_st p) bs) \<Longrightarrow> extends p bs \<longleftrightarrow> alive (classify_at (pda_st p) bs)"
  "consulted_ambient (classify_at (pda_st p) bs) \<Longrightarrow> stack_top p = None \<Longrightarrow> \<not> extends p bs"
proof -
  show "extends p bs \<longleftrightarrow> alive (classify_at (pda_st p) bs)"
    if "\<not> consulted_ambient (classify_at (pda_st p) bs)"
    using that probe_verdict [of p bs "[]" "[]"] by (simp add: classify_at_def extends_admits)
  assume "consulted_ambient (classify_at (pda_st p) bs)" "stack_top p = None"
  then show "\<not> extends p bs"
    using probe_consulted_dead [of "pda_st p" bs "[]"]
    by (simp add: classify_at_def extends_def cfg_of_def stack_top_def)
qed

definition syntactic :: "compiled_grammar \<Rightarrow> pda \<Rightarrow> u32 \<Rightarrow> bool" where
  "syntactic g p i \<longleftrightarrow>
    (unat i < vocab_len (cg_vocab g) \<and> extends p (token_bytes (cg_vocab g) i)) \<or>
    (i = eos_bit g \<and> is_accepting p)"

lemma syntactic_mask_laws:
  assumes ok: "session_ok g se" and run: "syntactic_mask se g = (se', g')"
  shows "\<forall>i. bm_test (se_mask se') i \<longleftrightarrow> syntactic g (se_pda se) i"
    and "buffer_ok (se_mask se') (cg_vocab g)" and "grammar_ok g'" and "cg_vocab g' = cg_vocab g"
    and "se' = se\<lparr>se_mask := se_mask se', se_scratch := se_scratch se'\<rparr>"
proof -
  let ?v = "cg_vocab g" and ?p = "se_pda se" and ?st = "pda_st (se_pda se)"
  have g: "grammar_ok g" and small: "vocab_len ?v + 1 < 2 ^ 32"
    and buf: "bm_ok (se_mask se)" "bm_len (se_mask se) = vocab_len ?v + 1"
    using ok by (simp_all add: session_ok_def buffer_ok_def)
  note eos = eos_laws [OF small]
  obtain c where c: "cached_at g ?st = (c, g')" and cb: "c = build ?st ?v (mask_len g)"
    and g': "grammar_ok g'" "cg_vocab g' = ?v"
    using cached_at_laws [OF g, of ?st] run
    by (auto simp: syntactic_mask_def Let_def split: prod.splits)
  show "grammar_ok g'" "cg_vocab g' = ?v" by fact+
  have eq: "eos_bit g' = eos_bit g" using eos_bit_vocab [OF g'(2)] by simp
  define m0 where "m0 = ca_indep c"
  have m0: "bm_ok m0" "bm_len m0 = vocab_len ?v + 1"
    "bm_test m0 j \<longleftrightarrow> unat j < vocab_len ?v \<and>
      \<not> consulted_ambient (classify_at ?st (token_bytes ?v j)) \<and> alive (classify_at ?st (token_bytes ?v j))" for j
    using build_laws(1-3) [of ?st ?v "mask_len g"] eos small token_ids_iff [of ?v]
    by (auto simp: m0_def cb)
  have copy: "bm_copy_from (se_mask se) (ca_indep c) = m0"
    unfolding m0_def [symmetric] using buf m0 by (intro mask.load_laws) simp_all
  define r where "r = (if stack_top ?p \<noteq> None
    then foldl (reprobe ?p ?v) (m0, se_scratch se) (ca_deferred c) else (m0, se_scratch se))"
  have def: "j \<in> set (ca_deferred c) \<longleftrightarrow> unat j < vocab_len ?v \<and>
      consulted_ambient (classify_at ?st (token_bytes ?v j))" for j
    using build_laws(4) [of ?st ?v "mask_len g"] small token_ids_iff [of ?v] by (auto simp: cb)
  have r: "bm_ok (fst r)" "bm_len (fst r) = vocab_len ?v + 1"
    "bm_test (fst r) j \<longleftrightarrow> unat j < vocab_len ?v \<and> extends ?p (token_bytes ?v j)" for j
  proof -
    note f = reprobe_fold [OF m0(1), of ?p ?v "se_scratch se" "ca_deferred c"]
    show "bm_ok (fst r)" "bm_len (fst r) = vocab_len ?v + 1" using f m0 by (auto simp: r_def)
    show "bm_test (fst r) j \<longleftrightarrow> unat j < vocab_len ?v \<and> extends ?p (token_bytes ?v j)"
      using f m0(2,3) def partition_extends [of ?p "token_bytes ?v j"]
      by (cases "consulted_ambient (classify_at ?st (token_bytes ?v j))"; cases "stack_top ?p")
        (auto simp: r_def)
  qed
  define m where "m = (if is_accepting ?p then bm_set (fst r) (eos_bit g) else bm_clear (fst r) (eos_bit g))"
  have se': "se' = se\<lparr>se_mask := m, se_scratch := snd r\<rparr>"
    using run unfolding syntactic_mask_def c prod.case Let_def copy g'(2) eq r_def [symmetric]
    by (simp add: case_prod_unfold m_def)
  have m: "bm_ok m" "bm_len m = vocab_len ?v + 1"
    "bm_test m j \<longleftrightarrow> (bm_test (fst r) j \<and> j \<noteq> eos_bit g) \<or> (j = eos_bit g \<and> is_accepting ?p)" for j
    using r(1,2) eos(1) by (auto simp: m_def mask.laws)
  have not_eos: "unat j < vocab_len ?v \<Longrightarrow> j \<noteq> eos_bit g" for j using eos(1) by auto
  show "\<forall>i. bm_test (se_mask se') i \<longleftrightarrow> syntactic g ?p i"
    using m(3) r(3) not_eos by (auto simp: se' syntactic_def)
  show "buffer_ok (se_mask se') ?v" using m by (simp add: se' buffer_ok_def)
  show "se' = se\<lparr>se_mask := se_mask se', se_scratch := se_scratch se'\<rparr>" by (simp add: se')
qed

text \<open>The schema overlay as a predicate on tokens.\<close>

definition overlay_keeps :: "decoder_session \<Rightarrow> bytes \<Rightarrow> bool" where
  "overlay_keeps se bs =
    (case se_schema se of
       None \<Rightarrow> True
     | Some s \<Rightarrow>
         keeps_at s (emitted_columns (se_tracker se)) (position (se_tracker se) (pda_st (se_pda se)))
           (narrow_prefix (se_tracker se)) bs \<and>
         (case fused_nav_position (se_tracker se) s of
            Some fused \<Rightarrow> fused_keeps_at s (emitted_columns (se_tracker se)) fused bs
          | None \<Rightarrow> True))"

text \<open>The name sets the overlay consults at this point leave their tries room for 32-bit ids.\<close>

definition names_ok :: "decoder_session \<Rightarrow> bool" where
  "names_ok se =
    (case se_schema se of
       None \<Rightarrow> True
     | Some s \<Rightarrow>
         names_fit (names_at s (emitted_columns (se_tracker se)) (position (se_tracker se) (pda_st (se_pda se)))) \<and>
         (case fused_nav_position (se_tracker se) s of
            Some fused \<Rightarrow> names_fit (names_at s (emitted_columns (se_tracker se)) fused)
          | None \<Rightarrow> True))"

lemma narrow_step_laws:
  assumes "rule_result s columns v eos P r" and "buffer_ok (se_mask se) v" and "unat eos = vocab_len v"
    and "se' = narrow_step se r"
  shows "buffer_ok (se_mask se') v" and "buffer_ok (se_narrow_buf se') v"
    and "memo_ok s columns v eos (se_narrow_cache se')"
    and "bm_test (se_mask se') i \<longleftrightarrow>
      bm_test (se_mask se) i \<and> (i = eos \<or> P (token_bytes v i))"
    and "se' = se\<lparr>se_mask := se_mask se', se_narrow_buf := se_narrow_buf se',
      se_narrow_cache := se_narrow_cache se'\<rparr>"
proof -
  obtain applied buf c where r: "r = (applied, buf, c)" by (cases r)
  have b: "buffer_ok buf v" "memo_ok s columns v eos c"
    and h: "applied \<Longrightarrow> holds buf v eos P" "\<not> applied \<Longrightarrow> \<forall>bs. P bs"
    using assms(1) by (auto simp: rule_result_def r split: if_splits)
  have mask: "bm_ok (se_mask se)" "bm_ok buf" "bm_len (se_mask se) = bm_len buf" "bm_len buf = vocab_len v + 1"
    using assms(2) b(1) by (simp_all add: buffer_ok_def)
  have bound: "bm_test (se_mask se) i \<Longrightarrow> i \<noteq> eos \<Longrightarrow> unat i < vocab_len v"
    using mask assms(3) by (auto simp: bm_test_iff less_Suc_eq word_unat_eq_iff)
  show "buffer_ok (se_mask se') v" "buffer_ok (se_narrow_buf se') v"
    "memo_ok s columns v eos (se_narrow_cache se')"
    using assms(2,4) b mask by (simp_all add: narrow_step_def r Let_def buffer_ok_def mask.laws)
  show "se' = se\<lparr>se_mask := se_mask se', se_narrow_buf := se_narrow_buf se',
      se_narrow_cache := se_narrow_cache se'\<rparr>"
    using assms(4) by (simp add: narrow_step_def r Let_def)
  show "bm_test (se_mask se') i \<longleftrightarrow> bm_test (se_mask se) i \<and> (i = eos \<or> P (token_bytes v i))"
  proof (cases applied)
    case True
    then have "bm_test (se_mask se') i \<longleftrightarrow> bm_test (se_mask se) i \<and> bm_test buf i"
      using assms(4) mask by (simp add: narrow_step_def r Let_def mask.laws)
    then show ?thesis using h(1) [OF True] bound by (auto simp: holds_def)
  next
    case False
    then show ?thesis using assms(4) h(2) by (simp add: narrow_step_def r Let_def)
  qed
qed

text \<open>Under a schema: one rule or two, each a step that only clears bits.\<close>

lemma overlay_laws:
  assumes memo: "memo_ok s cols v eos (se_narrow_cache se)" and span: "spans v eos"
    and bufs: "buffer_ok (se_mask se) v" "buffer_ok (se_narrow_buf se) v"
    and at: "cg_vocab g = v" "eos_bit g = eos" "cols = emitted_columns (se_tracker se)" "se_schema se = Some s"
    and out: "se' = narrow_fused (narrow_anchor se g s) g s"
  shows "\<exists>K. (\<forall>i. bm_test (se_mask se') i \<longleftrightarrow> bm_test (se_mask se) i \<and> (i = eos \<or> K (token_bytes v i))) \<and>
    (names_ok se \<longrightarrow> K = overlay_keeps se) \<and> buffer_ok (se_mask se') v \<and> buffer_ok (se_narrow_buf se') v \<and>
    memo_ok s cols v eos (se_narrow_cache se') \<and>
    se' = se\<lparr>se_mask := se_mask se', se_narrow_buf := se_narrow_buf se', se_narrow_cache := se_narrow_cache se'\<rparr>"
proof -
  have eos: "unat eos = vocab_len v" using span by (simp add: spans_def)
  let ?pos = "position (se_tracker se) (pda_st (se_pda se))"
  obtain P where P: "rule_result s cols v eos P (narrow_into (se_narrow_buf se) (se_narrow_cache se) s ?pos
      (narrow_prefix (se_tracker se)) cols v eos)"
    "names_fit (names_at s cols ?pos) \<longrightarrow> P = keeps_at s cols ?pos (narrow_prefix (se_tracker se))"
    using narrow_into_some [OF memo span bufs(2)] by blast
  define se2 where "se2 = narrow_anchor se g s"
  have se2: "se2 = narrow_step se (narrow_into (se_narrow_buf se) (se_narrow_cache se) s ?pos
      (narrow_prefix (se_tracker se)) cols v eos)"
    by (simp add: se2_def narrow_anchor_def at)
  note one = narrow_step_laws [OF P(1) bufs(1) eos se2]
  have same: "se_tracker se2 = se_tracker se"
    by (subst one(5)) simp
  show ?thesis
  proof (cases "fused_nav_position (se_tracker se) s")
    case None
    then have "se' = se2" by (simp add: out se2_def [symmetric] narrow_fused_def same)
    moreover have "names_ok se \<longrightarrow> P = overlay_keeps se"
      using P(2) None by (auto simp: names_ok_def overlay_keeps_def at)
    ultimately show ?thesis using one by blast
  next
    case (Some fp)
    obtain Q where Q: "rule_result s cols v eos Q (narrow_fused_into (se_narrow_buf se2) (se_narrow_cache se2)
        s fp cols v eos)" "names_fit (names_at s cols fp) \<longrightarrow> Q = fused_keeps_at s cols fp"
      using narrow_fused_into_some [OF one(3) span one(2)] by blast
    have se': "se' = narrow_step se2 (narrow_fused_into (se_narrow_buf se2) (se_narrow_cache se2) s fp cols v eos)"
      by (simp add: out se2_def [symmetric] narrow_fused_def same Some at)
    note two = narrow_step_laws [OF Q(1) one(1) eos se']
    have "names_ok se \<longrightarrow> (\<lambda>bs. P bs \<and> Q bs) = overlay_keeps se"
      using P(2) Q(2) Some by (auto simp: names_ok_def overlay_keeps_def at)
    moreover have "bm_test (se_mask se') i \<longleftrightarrow> bm_test (se_mask se) i \<and>
        (i = eos \<or> (P (token_bytes v i) \<and> Q (token_bytes v i)))" for i
      using one(4) [of i] two(4) [of i] by blast
    moreover have "se' = se\<lparr>se_mask := se_mask se', se_narrow_buf := se_narrow_buf se',
        se_narrow_cache := se_narrow_cache se'\<rparr>"
      by (subst two(5), subst one(5)) simp
    ultimately show ?thesis using two(1-3) by (intro exI [of _ "\<lambda>bs. P bs \<and> Q bs"]) blast
  qed
qed

text \<open>The frame of the syntactic part, and the overlay on top of it.\<close>

lemma syntactic_mask_frame:
  assumes "session_ok g se" and "syntactic_mask se g = (se1, g')"
  shows "se_pda se1 = se_pda se" "se_tracker se1 = se_tracker se" "se_schema se1 = se_schema se"
    "se_narrow_buf se1 = se_narrow_buf se" "se_narrow_cache se1 = se_narrow_cache se" "se_offset se1 = se_offset se"
  by (subst syntactic_mask_laws(5) [OF assms]; simp)+

definition masked_by :: "compiled_grammar \<Rightarrow> decoder_session \<Rightarrow> bit_mask \<Rightarrow> bool" where
  "masked_by g se m \<longleftrightarrow>
    (\<exists>K. (\<forall>i. bm_test m i \<longleftrightarrow> syntactic g (se_pda se) i \<and> (i = eos_bit g \<or> K (token_bytes (cg_vocab g) i))) \<and>
      (names_ok se \<longrightarrow> K = overlay_keeps se))"

lemma overlaid_session:
  assumes ok: "session_ok g se" and s1: "syntactic_mask se g = (se1, g')" and Some: "se_schema se = Some s"
    and out: "se' = narrow_fused (narrow_anchor se1 g' s) g' s"
  shows "masked_by g se (se_mask se') \<and> session_ok g' se' \<and> se_pda se' = se_pda se \<and>
    se_offset se' = se_offset se \<and> se_tracker se' = se_tracker se \<and> se_schema se' = se_schema se"
proof -
  let ?v = "cg_vocab g" and ?cols = "emitted_columns (se_tracker se)"
  note syn = syntactic_mask_laws [OF ok s1]
  note same = syntactic_mask_frame [OF ok s1]
  have small: "vocab_len ?v + 1 < 2 ^ 32" and buf: "buffer_ok (se_narrow_buf se1) ?v"
    and memo: "memo_ok s ?cols ?v (eos_bit g) (se_narrow_cache se1)"
    using ok Some by (simp_all add: session_ok_def same)
  have eq: "eos_bit g' = eos_bit g" using eos_bit_vocab [OF syn(4)] by simp
  have pre: "overlay_keeps se1 = overlay_keeps se" "names_ok se1 = names_ok se"
    unfolding overlay_keeps_def [abs_def] names_ok_def same by (rule refl)+
  have "?cols = emitted_columns (se_tracker se1)" "se_schema se1 = Some s" using Some by (simp_all add: same)
  from overlay_laws [OF memo eos_laws(3) [OF small] syn(2) buf syn(4) eq this out, unfolded pre]
  obtain K where K: "\<forall>i. bm_test (se_mask se') i \<longleftrightarrow>
      bm_test (se_mask se1) i \<and> (i = eos_bit g \<or> K (token_bytes ?v i))"
    "names_ok se \<longrightarrow> K = overlay_keeps se" "buffer_ok (se_mask se') ?v" "buffer_ok (se_narrow_buf se') ?v"
    "memo_ok s ?cols ?v (eos_bit g) (se_narrow_cache se')"
    and fr: "se' = se1\<lparr>se_mask := se_mask se', se_narrow_buf := se_narrow_buf se',
      se_narrow_cache := se_narrow_cache se'\<rparr>"
    by blast
  have keep: "se_pda se' = se_pda se" "se_tracker se' = se_tracker se" "se_schema se' = se_schema se"
    "se_offset se' = se_offset se"
    by (subst fr; simp add: same)+
  have "session_ok g' se'" using K(3-5) syn(3,4) small Some keep eq by (simp add: session_ok_def)
  moreover have "masked_by g se (se_mask se')"
    unfolding masked_by_def using K(1,2) syn(1) by (intro exI [of _ K]) blast
  ultimately show ?thesis using keep by blast
qed

lemma unguided_session:
  assumes "session_ok g se" and "syntactic_mask se g = (se1, g')" and "se_schema se = None"
  shows "masked_by g se (se_mask se1) \<and> session_ok g' se1"
proof -
  have "overlay_keeps se = (\<lambda>_. True)" using assms(3) by (simp add: overlay_keeps_def [abs_def])
  then show ?thesis
    using syntactic_mask_laws [OF assms(1,2)] syntactic_mask_frame [OF assms(1,2)] assms(1,3)
    by (auto simp: session_ok_def masked_by_def)
qed

lemma allowed_mask_laws:
  assumes ok: "session_ok g se" and run: "allowed_mask se g = (m, se', g')"
  shows "\<exists>K. (\<forall>i. bm_test m i \<longleftrightarrow> syntactic g (se_pda se) i \<and>
        (i = eos_bit g \<or> K (token_bytes (cg_vocab g) i))) \<and>
      (names_ok se \<longrightarrow> K = overlay_keeps se)"
    and "session_ok g' se'" and "cg_vocab g' = cg_vocab g" and "m = se_mask se'"
    and "se_pda se' = se_pda se" "se_offset se' = se_offset se" "se_tracker se' = se_tracker se"
      "se_schema se' = se_schema se"
proof -
  obtain se1 where s1: "syntactic_mask se g = (se1, g')"
    using run by (auto simp: allowed_mask_def Let_def split: prod.splits)
  note same = syntactic_mask_frame [OF ok s1]
  have "m = se_mask se' \<and> masked_by g se m \<and> session_ok g' se' \<and> se_pda se' = se_pda se \<and>
    se_offset se' = se_offset se \<and> se_tracker se' = se_tracker se \<and> se_schema se' = se_schema se"
  proof (cases "se_schema se")
    case None
    then have "se' = se1 \<and> m = se_mask se1" using run s1 same by (auto simp: allowed_mask_def)
    then show ?thesis using unguided_session [OF ok s1 None] same by simp
  next
    case (Some s)
    have "se' = narrow_fused (narrow_anchor se1 g' s) g' s \<and> m = se_mask se'"
      using run s1 same Some by (auto simp: allowed_mask_def Let_def)
    then show ?thesis using overlaid_session [OF ok s1 Some] by blast
  qed
  then show "\<exists>K. (\<forall>i. bm_test m i \<longleftrightarrow> syntactic g (se_pda se) i \<and>
        (i = eos_bit g \<or> K (token_bytes (cg_vocab g) i))) \<and> (names_ok se \<longrightarrow> K = overlay_keeps se)"
    "session_ok g' se'" "m = se_mask se'" "se_pda se' = se_pda se" "se_offset se' = se_offset se"
    "se_tracker se' = se_tracker se" "se_schema se' = se_schema se"
    unfolding masked_by_def by blast+
  show "cg_vocab g' = cg_vocab g" by (rule syntactic_mask_laws(4) [OF ok s1])
qed

end
