(* ===== verification/Session_Props.thy ===== *)
theory Session_Props
  imports Decode_Session
begin

text \<open>
  The properties of the decode session: the mask is exact, the overlay only narrows, tokens are
  accepted or rejected as the mask says with the session untouched on rejection, and a host
  that samples from the mask produces exactly the language of the automaton.
\<close>

section \<open>The operations keep the session usable\<close>

lemma session_build_ok:
  assumes "grammar_ok g" and "vocab_len (cg_vocab g) + 1 < 2 ^ 32"
  shows "session_ok g (session_build g s)"
  using assms eos_laws(2) [OF assms(2)]
  by (simp add: session_ok_def session_build_def buffer_ok_def bm_ok_with_len split: option.split)

lemma session_reset_ok: "session_ok g se \<Longrightarrow> session_ok g (session_reset se)"
  by (auto simp: session_ok_def session_reset_def split: option.splits)

lemma accept_byte_ok: "session_ok g se \<Longrightarrow> session_ok g (snd (accept_byte se b))"
  by (auto simp: session_ok_def accept_byte_def split: prod.splits sum.splits option.splits)

lemma accept_token_ok:
  assumes "session_ok g se"
  shows "session_ok g (snd (accept_token se g tok))"
proof -
  have memo: "memo_ok s (emitted_columns (observe (se_tracker se) bs p s)) v e c"
    if "memo_ok s (emitted_columns (se_tracker se)) v e c" for s bs p v e c
    using that observe_grows [of "se_tracker se" bs p s]
    by (intro memo_ok_mono [OF that]) (simp add: grows_def emitted_columns_def)
  show ?thesis
    using assms memo by (auto simp: session_ok_def accept_token_def Let_def split: prod.splits sum.splits option.splits)
qed

text \<open>Accepting a token, case by case.\<close>

lemma accept_token_result:
  "accept_token se g tok = (r, se') \<Longrightarrow>
    (tok = eos_bit g \<and> r = (if is_complete se then Inr () else Inl UnexpectedEos) \<and> se' = se) \<or>
    (tok \<noteq> eos_bit g \<and> vocab_bytes (cg_vocab g) tok = None \<and> r = Inl (UnknownToken tok) \<and> se' = se) \<or>
    (\<exists>bs. tok \<noteq> eos_bit g \<and> vocab_bytes (cg_vocab g) tok = Some bs \<and> \<not> extends (se_pda se) bs \<and>
      r = Inl (InadmissibleToken tok) \<and> se' = se) \<or>
    (\<exists>bs. tok \<noteq> eos_bit g \<and> vocab_bytes (cg_vocab g) tok = Some bs \<and> r = Inr () \<and>
      feed (se_pda se) bs = (Inr (), se_pda se') \<and> se_offset se' = se_offset se + length bs \<and>
      se_schema se' = se_schema se \<and>
      se_tracker se' = (case se_schema se of
        Some s \<Rightarrow> observe (se_tracker se) bs (se_pda se) s | None \<Rightarrow> se_tracker se))"
  by (auto simp: accept_token_def is_complete_def extends_feed Let_def
      split: if_splits option.splits prod.splits sum.splits)

lemma accept_token_Inr_iff:
  "fst (accept_token se g tok) = Inr () \<longleftrightarrow>
    (tok = eos_bit g \<and> is_complete se) \<or>
    (tok \<noteq> eos_bit g \<and> unat tok < vocab_len (cg_vocab g) \<and> extends (se_pda se) (token_bytes (cg_vocab g) tok))"
proof -
  obtain r se' where a: "accept_token se g tok = (r, se')" by fastforce
  show ?thesis
    using accept_token_result [OF a]
    by (auto simp: a vocab_bytes_eq_None vocab_bytes_eq_Some vocab_bytes_token extends_feed
        dest: vocab_bytes_token split: if_splits)
qed

section \<open>A host that samples from the mask\<close>

text \<open>The mask-first contract: read the mask, pick a token whose bit is set, commit it.\<close>

fun guided :: "compiled_grammar \<Rightarrow> decoder_session \<Rightarrow> u32 list \<Rightarrow> (compiled_grammar \<times> decoder_session) option" where
  "guided g se [] = Some (g, se)"
| "guided g se (tok # toks) =
    (case allowed_mask se g of
       (m, se', g') \<Rightarrow>
         if bm_test m tok
         then (case accept_token se' g' tok of
                 (Inr _, se'') \<Rightarrow> guided g' se'' toks
               | (Inl _, _) \<Rightarrow> None)
         else None)"

definition eos_allowed :: "compiled_grammar \<Rightarrow> decoder_session \<Rightarrow> bool" where
  "eos_allowed g se = bm_test (fst (allowed_mask se g)) (eos_bit g)"

definition text_of :: "compiled_grammar \<Rightarrow> u32 list \<Rightarrow> bytes" where
  "text_of g toks = concat (map (token_bytes (cg_vocab g)) toks)"

lemma eos_allowed_iff:
  assumes "session_ok g se"
  shows "eos_allowed g se \<longleftrightarrow> is_complete se"
proof -
  obtain m se' g' where run: "allowed_mask se g = (m, se', g')" by (metis prod.collapse)
  have "vocab_len (cg_vocab g) + 1 < 2 ^ 32" using assms by (simp add: session_ok_def)
  then have "\<not> unat (eos_bit g) < vocab_len (cg_vocab g)" by (simp add: eos_laws)
  then show ?thesis
    using allowed_mask_laws(1) [OF assms run] by (auto simp: eos_allowed_def run syntactic_def is_complete_def)
qed

text \<open>One guided step of a token that is not EOS.\<close>

lemma guided_step:
  assumes ok: "session_ok g se" and run: "allowed_mask se g = (m, se1, g1)" and bit: "bm_test m tok"
    and tok: "tok \<noteq> eos_bit g"
  obtains se2 where "accept_token se1 g1 tok = (Inr (), se2)" and "session_ok g1 se2"
    and "cg_vocab g1 = cg_vocab g" and "se_schema se2 = se_schema se"
    and "feed (se_pda se) (token_bytes (cg_vocab g) tok) = (Inr (), se_pda se2)"
proof -
  note laws = allowed_mask_laws [OF ok run]
  have eq: "eos_bit g1 = eos_bit g" using eos_bit_vocab [OF laws(3)] by simp
  have "syntactic g (se_pda se) tok" using laws(1) bit by blast
  then have live: "unat tok < vocab_len (cg_vocab g)" "extends (se_pda se) (token_bytes (cg_vocab g) tok)"
    using tok by (auto simp: syntactic_def)
  then have "fst (accept_token se1 g1 tok) = Inr ()"
    using tok by (simp add: accept_token_Inr_iff laws eq)
  then obtain se2 where acc: "accept_token se1 g1 tok = (Inr (), se2)" by (metis prod.collapse)
  have "session_ok g1 se2" using accept_token_ok [OF laws(2), of tok] by (simp add: acc)
  moreover have "se_schema se2 = se_schema se \<and>
      feed (se_pda se) (token_bytes (cg_vocab g) tok) = (Inr (), se_pda se2)"
    using accept_token_result [OF acc] tok live(1)
    by (auto simp: eq laws vocab_bytes_eq_None dest: vocab_bytes_token)
  ultimately show thesis using that acc laws(3) by blast
qed

lemma guided_sound:
  assumes "session_ok g se" and "guided g se toks = Some (g', se')" and "eos_bit g \<notin> set toks"
  shows "session_ok g' se' \<and> cg_vocab g' = cg_vocab g \<and> se_schema se' = se_schema se \<and>
    cfg_run (cfg_of (se_pda se)) (text_of g toks) = Some (cfg_of (se_pda se'))"
  using assms
proof (induction toks arbitrary: g se)
  case Nil
  then show ?case by (simp add: text_of_def)
next
  case (Cons tok toks)
  obtain m se1 g1 where run: "allowed_mask se g = (m, se1, g1)" by (metis prod.collapse)
  have bit: "bm_test m tok" and tok: "tok \<noteq> eos_bit g"
    using Cons.prems run by (auto split: if_splits)
  from guided_step [OF Cons.prems(1) run bit tok] obtain se2 where s2: "accept_token se1 g1 tok = (Inr (), se2)"
    "session_ok g1 se2" "cg_vocab g1 = cg_vocab g" "se_schema se2 = se_schema se"
    "feed (se_pda se) (token_bytes (cg_vocab g) tok) = (Inr (), se_pda se2)" by metis
  have "guided g1 se2 toks = Some (g', se')" using Cons.prems(2) run bit s2(1) by simp
  moreover have "eos_bit g1 \<notin> set toks" using Cons.prems(3) eos_bit_vocab [OF s2(3)] by simp
  ultimately show ?case
    using Cons.IH [OF s2(2)] s2(3-5) by (simp add: text_of_def cfg_run_append feed_ok_iff)
qed

lemma guided_complete:
  assumes "session_ok g se" and "se_schema se = None"
    and "\<forall>t \<in> set toks. unat t < vocab_len (cg_vocab g)"
    and "cfg_run (cfg_of (se_pda se)) (text_of g toks) \<noteq> None"
  shows "guided g se toks \<noteq> None"
  using assms
proof (induction toks arbitrary: g se)
  case (Cons tok toks)
  let ?bs = "token_bytes (cg_vocab g) tok"
  obtain m se1 g1 where run: "allowed_mask se g = (m, se1, g1)" by (metis prod.collapse)
  have small: "vocab_len (cg_vocab g) + 1 < 2 ^ 32" using Cons.prems(1) by (simp add: session_ok_def)
  have tok: "tok \<noteq> eos_bit g" using Cons.prems(3) eos_laws(1) [OF small] by auto
  from Cons.prems(4) obtain c where c: "cfg_run (cfg_of (se_pda se)) ?bs = Some c"
    "cfg_run c (text_of g toks) \<noteq> None"
    by (auto simp: text_of_def cfg_run_append split: option.splits)
  obtain K where K: "\<forall>i. bm_test m i \<longleftrightarrow> syntactic g (se_pda se) i \<and>
      (i = eos_bit g \<or> K (token_bytes (cg_vocab g) i))" "names_ok se \<longrightarrow> K = overlay_keeps se"
    using allowed_mask_laws(1) [OF Cons.prems(1) run] by blast
  have "K = (\<lambda>_. True)"
    using K(2) Cons.prems(2) by (simp add: names_ok_def overlay_keeps_def [abs_def])
  then have bit: "bm_test m tok" using K(1) Cons.prems(3) c(1) by (simp add: syntactic_def extends_def)
  from guided_step [OF Cons.prems(1) run bit tok] obtain se2 where s2: "accept_token se1 g1 tok = (Inr (), se2)"
    "session_ok g1 se2" "cg_vocab g1 = cg_vocab g" "se_schema se2 = se_schema se"
    "feed (se_pda se) ?bs = (Inr (), se_pda se2)" by metis
  have "cfg_run (cfg_of (se_pda se2)) (text_of g1 toks) \<noteq> None"
    using c s2(3,5) by (simp add: feed_ok_iff text_of_def)
  then show ?case
    using Cons.IH [OF s2(2)] Cons.prems(2,3) s2(1,3,4) run bit by simp
qed simp

text \<open>Two sessions over the same vocabulary that differ in buffers and memos only.\<close>

definition alike :: "decoder_session \<Rightarrow> decoder_session \<Rightarrow> bool" where
  "alike a b \<longleftrightarrow> se_pda a = se_pda b \<and> se_offset a = se_offset b \<and> se_schema a = se_schema b \<and>
    se_tracker a = se_tracker b"

lemma alike_mask:
  assumes "session_ok g a" and "session_ok h b" and "cg_vocab h = cg_vocab g" and "alike a b" and "names_ok a"
    and "allowed_mask a g = (m, a', g')" and "allowed_mask b h = (n, b', h')"
  shows "bm_test m i \<longleftrightarrow> bm_test n i" and "alike a' b'" and "session_ok g' a'" and "session_ok h' b'"
    and "cg_vocab g' = cg_vocab g" and "cg_vocab h' = cg_vocab g"
proof -
  have eqs: "se_pda b = se_pda a" "se_schema b = se_schema a" "se_tracker b = se_tracker a"
    using assms(4) by (simp_all add: alike_def)
  have same: "overlay_keeps b = overlay_keeps a" "names_ok b = names_ok a" "eos_bit h = eos_bit g"
    "se_pda b = se_pda a"
    unfolding overlay_keeps_def [abs_def] names_ok_def eqs using eos_bit_vocab [OF assms(3)]
    by simp_all
  note la = allowed_mask_laws [OF assms(1,6)] and lb = allowed_mask_laws [OF assms(2,7)]
  show "bm_test m i \<longleftrightarrow> bm_test n i"
    using la(1) lb(1) assms(3,5) same by (auto simp: syntactic_def)
  show "alike a' b'" "session_ok g' a'" "session_ok h' b'" "cg_vocab g' = cg_vocab g" "cg_vocab h' = cg_vocab g"
    using la lb assms(3,4) by (auto simp: alike_def)
qed

lemma alike_token:
  assumes "alike a b" and "cg_vocab h = cg_vocab g"
  shows "fst (accept_token a g tok) = fst (accept_token b h tok)"
    and "alike (snd (accept_token a g tok)) (snd (accept_token b h tok))"
proof -
  have "eos_bit h = eos_bit g" using eos_bit_vocab [OF assms(2)] by simp
  then show "fst (accept_token a g tok) = fst (accept_token b h tok)"
    "alike (snd (accept_token a g tok)) (snd (accept_token b h tok))"
    using assms by (auto simp: alike_def accept_token_def Let_def split: option.splits prod.splits sum.splits)
qed

lemma alike_guided:
  assumes "session_ok g a" and "session_ok h b" and "cg_vocab h = cg_vocab g" and "alike a b"
    and "\<forall>n g' a'. guided g a (take n toks) = Some (g', a') \<longrightarrow> names_ok a'"
  shows "rel_option (\<lambda>x y. alike (snd x) (snd y)) (guided g a toks) (guided h b toks)"
  using assms
proof (induction toks arbitrary: g h a b)
  case (Cons tok toks)
  obtain m a1 g1 where ra: "allowed_mask a g = (m, a1, g1)" by (metis prod.collapse)
  obtain n b1 h1 where rb: "allowed_mask b h = (n, b1, h1)" by (metis prod.collapse)
  have "names_ok a" using spec [OF Cons.prems(5), of 0] by simp
  note st = alike_mask [OF Cons.prems(1-4) this ra rb]
  have voc: "cg_vocab h1 = cg_vocab g1" using st(5,6) by simp
  obtain r a2 where ta: "accept_token a1 g1 tok = (r, a2)" by fastforce
  then obtain b2 where tb: "accept_token b1 h1 tok = (r, b2)" and al: "alike a2 b2"
    using alike_token [OF st(2) voc, of tok] by (metis fst_conv prod.collapse snd_conv)
  have ok: "session_ok g1 a2" "session_ok h1 b2"
    using accept_token_ok [OF st(3), of tok] accept_token_ok [OF st(4), of tok] by (simp_all add: ta tb)
  have next_names: "names_ok a'" if "bm_test m tok" "r = Inr ()" "guided g1 a2 (take k toks) = Some (g', a')" for k g' a'
  proof -
    have "guided g a (take (Suc k) (tok # toks)) = Some (g', a')" using that by (simp add: ra ta)
    then show ?thesis using Cons.prems(5) by blast
  qed
  show ?case
    using Cons.IH [OF ok voc al] next_names st(1) [of tok]
    by (cases r) (auto simp: ra rb ta tb)
qed (simp add: alike_def)

text \<open>Byte by byte.\<close>

lemma drive_run:
  "drive accept_byte se bs = (Inr (), se') \<longleftrightarrow>
    cfg_run (cfg_of (se_pda se)) bs = Some (cfg_of (se_pda se')) \<and>
    se' = se\<lparr>se_pda := se_pda se', se_offset := se_offset se + length bs\<rparr>"
proof (induction bs arbitrary: se)
  case Nil
  show ?case by (cases se; cases se') (auto simp: cfg_of_eq_iff)
next
  case (Cons b bs)
  have "(\<exists>p. advance (se_pda se) b = (Inr (), p) \<and> cfg_step (cfg_of (se_pda se)) b = Some (cfg_of p)) \<or>
      (\<exists>d. advance (se_pda se) b = (Inl d, se_pda se) \<and> cfg_step (cfg_of (se_pda se)) b = None)"
    by (simp add: advance_def cfg_step_def cfg_of_def Let_def split: pda_step.split)
  then show ?case
  proof (elim disjE exE conjE)
    fix p assume "advance (se_pda se) b = (Inr (), p)" "cfg_step (cfg_of (se_pda se)) b = Some (cfg_of p)"
    then show ?thesis
      using Cons.IH [of "se\<lparr>se_pda := p, se_offset := se_offset se + 1\<rparr>"] by (simp add: accept_byte_def)
  next
    fix d assume "advance (se_pda se) b = (Inl d, se_pda se)" "cfg_step (cfg_of (se_pda se)) b = None"
    then show ?thesis by (simp add: accept_byte_def)
  qed
qed

section \<open>Properties\<close>

text \<open>A vocabulary that spells one query, and a grammar over it.\<close>

definition tiny_vocab :: vocab where
  "tiny_vocab = from_byte_tokens [''|'', ''foo::A'', ''.all()'', ''->filter(x|$x.'', ''size'', '' > 1)'', ''zz''] 7"

definition tiny :: compiled_grammar where
  "tiny = compile_grammar tiny_vocab"

lemma tiny_vocab_simps [simp]:
  "cg_vocab tiny = tiny_vocab" "vocab_len tiny_vocab = 7" "eos_bit tiny = 7" "grammar_ok tiny"
  by (simp_all add: tiny_def compile_grammar_def tiny_vocab_def from_byte_tokens_def vocab_len_def eos_bit_def
      grammar_ok_compile [unfolded compile_grammar_def])

lemma tiny_session: "session_ok tiny (session_build tiny s)"
  by (rule session_build_ok) simp_all

text \<open>The first mask of a session over \<open>tiny\<close> and the sample schema.\<close>

lemma tiny_start:
  "session_ok tiny (with_schema tiny shop)" "names_ok (with_schema tiny shop)"
  "overlay_keeps (with_schema tiny shop) bs" "se_pda (with_schema tiny shop) = pda_new"
  "\<not> is_accepting pda_new" "fst (feed pda_new ''|'') = Inr ()" "fst (feed pda_new ''foo::A'') \<noteq> Inr ()"
  "token_bytes tiny_vocab 0 = ''|''" "token_bytes tiny_vocab 1 = ''foo::A''"
proof -
  let ?se = "with_schema tiny shop"
  have se: "se_tracker ?se = tracker_new" "se_schema ?se = Some shop"
    by (simp_all add: with_schema_def session_build_def)
  show pda: "se_pda ?se = pda_new" by (simp add: with_schema_def session_build_def)
  show "\<not> is_accepting pda_new" "fst (feed pda_new ''|'') = Inr ()" "fst (feed pda_new ''foo::A'') \<noteq> Inr ()"
    by code_simp+
  show "token_bytes tiny_vocab 0 = ''|''" "token_bytes tiny_vocab 1 = ''foo::A''"
    by (simp_all add: tiny_vocab_def from_byte_tokens_def token_bytes_def vocab_bytes_def vec_get_def)
  have pos: "position tracker_new (pda_st pda_new) = L2None" "fused_nav_position tracker_new shop = None"
    by code_simp+
  show "names_ok ?se" by (simp add: names_ok_def se pda pos names_fit_def)
  show "overlay_keeps ?se bs" by (simp add: overlay_keeps_def se pda pos keeps_at_def)
  show "session_ok tiny ?se" by (simp add: with_schema_def tiny_session)
qed

lemma tiny_offers_bar: "bm_test (fst (allowed_mask (with_schema tiny shop) tiny)) 0"
proof -
  obtain m se' g' where run: "allowed_mask (with_schema tiny shop) tiny = (m, se', g')" by (metis prod.collapse)
  show ?thesis
    using allowed_mask_laws(1) [OF tiny_start(1) run] tiny_start
    by (auto simp: run syntactic_def extends_feed simp del: feed.simps)
qed

text \<open>C2: The mask is exact.  From any usable session the mask that \<open>allowed_mask\<close> returns, computed
  from a lazily cached partition of the vocabulary, a re-probe of the deferred tokens against the
  live stack and one or two intersections with memoised buffers, has the bit of a token set
  exactly when the automaton survives the token's bytes and the schema rules of the current
  position keep them, and the EOS bit exactly when the stream is complete; the call changes
  neither the automaton, the offset nor the scope, and leaves grammar and session usable.\<close>

theorem allowed_mask_exact:
  assumes "session_ok g se" and "names_ok se" and "allowed_mask se g = (m, se', g')"
  shows "(\<forall>i. bm_test m i \<longleftrightarrow>
      (unat i < vocab_len (cg_vocab g) \<and> fst (feed (se_pda se) (token_bytes (cg_vocab g) i)) = Inr () \<and>
        overlay_keeps se (token_bytes (cg_vocab g) i)) \<or>
      (i = eos_bit g \<and> is_complete se)) \<and>
    session_ok g' se' \<and> cg_vocab g' = cg_vocab g \<and> se_pda se' = se_pda se \<and>
    se_offset se' = se_offset se \<and> se_tracker se' = se_tracker se"
proof -
  note laws = allowed_mask_laws [OF assms(1,3)]
  have "vocab_len (cg_vocab g) + 1 < 2 ^ 32" using assms(1) by (simp add: session_ok_def)
  then have "\<not> unat (eos_bit g) < vocab_len (cg_vocab g)" by (simp add: eos_laws)
  then show ?thesis
    using laws assms(2) by (auto simp: syntactic_def extends_feed is_complete_def)
qed

theorem allowed_mask_exact_witness:
  "bm_test (fst (allowed_mask (with_schema tiny shop) tiny)) 0 \<and>
   \<not> bm_test (fst (allowed_mask (with_schema tiny shop) tiny)) 1 \<and>
   \<not> bm_test (fst (allowed_mask (with_schema tiny shop) tiny)) 7"
proof -
  obtain m se' g' where run: "allowed_mask (with_schema tiny shop) tiny = (m, se', g')" by (metis prod.collapse)
  from allowed_mask_exact [OF tiny_start(1,2) run] show ?thesis
    by (simp add: run tiny_start is_complete_def del: feed.simps)
qed

text \<open>C29: The schema overlay only narrows, and never the end of the stream: whatever the schema, the
  names and the history, a token the mask offers under a schema is one the same session would
  offer without it, and EOS is offered under the schema exactly when it is without.\<close>

theorem overlay_only_narrows:
  assumes "session_ok g se" and "allowed_mask se g = (m, se1, g1)"
    and "allowed_mask (se\<lparr>se_schema := None\<rparr>) g = (m0, se2, g2)"
  shows "(\<forall>i. bm_test m i \<longrightarrow> bm_test m0 i) \<and> (bm_test m (eos_bit g) \<longleftrightarrow> bm_test m0 (eos_bit g))"
proof -
  have "session_ok g (se\<lparr>se_schema := None\<rparr>)" using assms(1) by (simp add: session_ok_def)
  note l0 = allowed_mask_laws(1) [OF this assms(3)] and l1 = allowed_mask_laws(1) [OF assms(1,2)]
  have "overlay_keeps (se\<lparr>se_schema := None\<rparr>) = (\<lambda>_. True)" "names_ok (se\<lparr>se_schema := None\<rparr>)"
    by (simp_all add: overlay_keeps_def [abs_def] names_ok_def)
  then show ?thesis using l0 l1 by auto
qed

theorem overlay_only_narrows_witness:
  "bm_test (fst (allowed_mask (with_schema tiny shop) tiny)) 0 \<and>
   bm_test (fst (allowed_mask (session_new tiny) tiny)) 0"
proof -
  obtain m se1 g1 where a: "allowed_mask (with_schema tiny shop) tiny = (m, se1, g1)" by (metis prod.collapse)
  obtain m0 se2 g2 where b: "allowed_mask (session_new tiny) tiny = (m0, se2, g2)" by (metis prod.collapse)
  have "(with_schema tiny shop)\<lparr>se_schema := None\<rparr> = session_new tiny"
    by (simp add: with_schema_def session_new_def session_build_def)
  with overlay_only_narrows [of tiny "with_schema tiny shop" m se1 g1 m0 se2 g2] a b show ?thesis
    using tiny_offers_bar by (simp add: with_schema_def tiny_session)
qed

text \<open>C30: Accepting a token has exactly four outcomes, told apart by the id and the automaton, and
  every rejection leaves the whole session as it was: EOS is accepted when the stream is
  complete and reported as premature otherwise; an id outside the vocabulary is unknown; a token
  whose bytes the automaton does not survive is inadmissible; any other token is accepted, with
  the automaton advanced over its bytes and the offset by their number.\<close>

theorem accept_token_outcomes:
  assumes "accept_token se g tok = (r, se')"
  shows "(r = Inr () \<longleftrightarrow>
      (if tok = eos_bit g then is_complete se
       else \<exists>bs. vocab_bytes (cg_vocab g) tok = Some bs \<and> fst (feed (se_pda se) bs) = Inr ())) \<and>
    (r = Inl UnexpectedEos \<longleftrightarrow> tok = eos_bit g \<and> \<not> is_complete se) \<and>
    (r = Inl (UnknownToken tok) \<longleftrightarrow> tok \<noteq> eos_bit g \<and> vocab_bytes (cg_vocab g) tok = None) \<and>
    (r = Inl (InadmissibleToken tok) \<longleftrightarrow> tok \<noteq> eos_bit g \<and>
      (\<exists>bs. vocab_bytes (cg_vocab g) tok = Some bs \<and> fst (feed (se_pda se) bs) \<noteq> Inr ())) \<and>
    (\<forall>e. r = Inl e \<longrightarrow> se' = se) \<and>
    (\<forall>bs. r = Inr () \<and> tok \<noteq> eos_bit g \<and> vocab_bytes (cg_vocab g) tok = Some bs \<longrightarrow>
      feed (se_pda se) bs = (Inr (), se_pda se') \<and> se_offset se' = se_offset se + length bs)"
  using accept_token_result [OF assms] by (auto simp: extends_feed split: if_splits)

theorem accept_token_outcomes_witness:
  "accept_token (session_new tiny) tiny 1 = (Inl (InadmissibleToken 1), session_new tiny) \<and>
   accept_token (session_new tiny) tiny 7 = (Inl UnexpectedEos, session_new tiny) \<and>
   accept_token (session_new tiny) tiny 9 = (Inl (UnknownToken 9), session_new tiny)"
proof -
  have pda: "se_pda (session_new tiny) = pda_new" by (simp add: session_new_def session_build_def)
  have ev: "\<not> is_accepting pda_new" "fst (feed pda_new ''foo::A'') \<noteq> Inr ()" by code_simp+
  have tok: "vocab_bytes tiny_vocab 1 = Some ''foo::A''" "vocab_bytes tiny_vocab 9 = None"
    by (simp_all add: tiny_vocab_def from_byte_tokens_def vocab_bytes_def vec_get_def)
  obtain r1 s1 where a: "accept_token (session_new tiny) tiny 1 = (r1, s1)" by fastforce
  obtain r2 s2 where b: "accept_token (session_new tiny) tiny 7 = (r2, s2)" by fastforce
  obtain r3 s3 where c: "accept_token (session_new tiny) tiny 9 = (r3, s3)" by fastforce
  show ?thesis
    using accept_token_outcomes [OF a] accept_token_outcomes [OF b] accept_token_outcomes [OF c] ev tok
    by (simp add: a b c pda is_complete_def)
qed

text \<open>C31: Without a schema, a token and its bytes do the same: a token of the vocabulary is accepted
  exactly when feeding its bytes one by one through \<open>accept_byte\<close> meets no error, and then both
  leave the same session; when they do meet an error it is a dead state, reported at the offset
  of the first byte the automaton rejects.\<close>

theorem accept_token_is_byte_fold:
  assumes "se_schema se = None" and "tok \<noteq> eos_bit g" and "vocab_bytes (cg_vocab g) tok = Some bs"
  shows "(accept_token se g tok = (Inr (), se') \<longleftrightarrow> drive accept_byte se bs = (Inr (), se')) \<and>
    (\<forall>e se2. drive accept_byte se bs = (Inl e, se2) \<longrightarrow>
      accept_token se g tok = (Inl (InadmissibleToken tok), se) \<and>
      (\<exists>xs b ys. bs = xs @ b # ys \<and> drive accept_byte se xs = (Inr (), se2) \<and>
        cfg_step (cfg_of (se_pda se2)) b = None \<and> error_offset e = Some (se_offset se + length xs)))"
proof -
  have tokd: "accept_token se g tok =
    (case feed (se_pda se) bs of
       (Inl _, _) \<Rightarrow> (Inl (InadmissibleToken tok), se)
     | (Inr _, p) \<Rightarrow> (Inr (), se\<lparr>se_pda := p, se_offset := se_offset se + length bs\<rparr>))"
    using assms by (simp add: accept_token_def split: prod.split sum.split)
  have ok: "accept_token se g tok = (Inr (), se') \<longleftrightarrow> drive accept_byte se bs = (Inr (), se')" for se'
  proof -
    have "accept_token se g tok = (Inr (), se') \<longleftrightarrow> feed (se_pda se) bs = (Inr (), se_pda se') \<and>
        se' = se\<lparr>se_pda := se_pda se', se_offset := se_offset se + length bs\<rparr>"
      unfolding tokd by (auto split: prod.splits sum.splits)
    then show ?thesis by (simp add: drive_run feed_ok_iff)
  qed
  have "accept_token se g tok = (Inl (InadmissibleToken tok), se)" if "drive accept_byte se bs = (Inl e, se2)" for e se2
  proof -
    have "accept_token se g tok \<noteq> (Inr (), se')" for se' using ok that by simp
    then show ?thesis unfolding tokd by (cases "feed (se_pda se) bs"; cases "fst (feed (se_pda se) bs)") auto
  qed
  then show ?thesis using ok session.drive_error by blast
qed

theorem accept_token_is_byte_fold_witness:
  "drive accept_byte (session_new tiny) ''foo::A'' =
    (Inl (DeadState 0 (CHR ''f'') ''Start'' ''none''), session_new tiny) \<and>
   accept_token (session_new tiny) tiny 1 = (Inl (InadmissibleToken 1), session_new tiny)"
proof -
  have "advance pda_new (CHR ''f'') = (Inl \<lparr>ds_state = ''Start'', ds_stack_top = ''none''\<rparr>, pda_new)"
    by code_simp
  then have d: "drive accept_byte (session_new tiny) ''foo::A'' =
      (Inl (DeadState 0 (CHR ''f'') ''Start'' ''none''), session_new tiny)"
    by (simp add: accept_byte_def session_new_def session_build_def)
  have "vocab_bytes (cg_vocab tiny) 1 = Some ''foo::A''"
    by (simp add: tiny_vocab_def from_byte_tokens_def vocab_bytes_def vec_get_def)
  with accept_token_is_byte_fold [of "session_new tiny" 1 tiny "''foo::A''"] d show ?thesis
    by (simp add: session_new_def session_build_def)
qed

text \<open>C37: As a byte recognizer a session decides the automaton's language: whatever it consumed before,
  after a reset its fold of \<open>accept_byte\<close> over a text meets no error and ends complete, with the
  offset at the text's length, exactly for the texts the automaton accepts.\<close>

theorem byte_session_decides:
  "(\<exists>se'. drive accept_byte (session_reset se) q = (Inr (), se') \<and> is_complete se' \<and>
      session_offset se' = length q) \<longleftrightarrow> accepts q"
proof -
  have "moves cfg_step c q = cfg_run c q" for c
    by (induction q arbitrary: c) (auto split: option.split)
  moreover have "(\<exists>c. cfg_run (Start, []) q = Some c \<and> is_accepting \<lparr>pda_st = fst c, pda_stack = snd c\<rparr>) \<longleftrightarrow> accepts q"
  proof -
    have "c = cfg_of p \<longleftrightarrow> p = \<lparr>pda_st = fst c, pda_stack = snd c\<rparr>" for c p
      by (cases p; cases c) (auto simp: cfg_of_def)
    then show ?thesis unfolding accepts_iff feed_new_iff by metis
  qed
  ultimately show ?thesis using session.restart_decides [of se q] by (simp add: session_offset_def)
qed

text \<open>C1: The language of the decoder.  Without a schema, a host that reads the mask, picks any
  token whose bit is set, commits it, and stops when EOS is offered can produce exactly the
  token sequences whose concatenated bytes the automaton accepts: nothing outside the grammar
  can be sampled (soundness), and every tokenization of every query of the grammar can
  (completeness).\<close>

theorem decoder_language:
  assumes "grammar_ok g" and "vocab_len (cg_vocab g) + 1 < 2 ^ 32"
    and "\<forall>t \<in> set toks. unat t < vocab_len (cg_vocab g)"
  shows "(\<exists>g' se'. guided g (session_new g) toks = Some (g', se') \<and> eos_allowed g' se') \<longleftrightarrow>
    accepts (text_of g toks)"
proof -
  have ok: "session_ok g (session_new g)"
    using session_build_ok [OF assms(1,2)] by (simp add: session_new_def)
  have fresh: "se_schema (session_new g) = None" "se_pda (session_new g) = pda_new"
    by (simp_all add: session_new_def session_build_def)
  have eos: "eos_bit g \<notin> set toks" using assms(3) eos_laws(1) [OF assms(2)] by auto
  have run: "feed pda_new (text_of g toks) = (Inr (), se_pda se') \<and> (eos_allowed g' se' \<longleftrightarrow> is_accepting (se_pda se'))"
    if "guided g (session_new g) toks = Some (g', se')" for g' se'
    using guided_sound [OF ok that eos] eos_allowed_iff [of g' se'] by (simp add: fresh feed_ok_iff is_complete_def)
  show ?thesis
  proof
    assume "\<exists>g' se'. guided g (session_new g) toks = Some (g', se') \<and> eos_allowed g' se'"
    then show "accepts (text_of g toks)" using run by (fastforce simp: accepts_iff)
  next
    assume "accepts (text_of g toks)"
    then obtain p where p: "feed pda_new (text_of g toks) = (Inr (), p)" "is_accepting p" by (auto simp: accepts_iff)
    then have "guided g (session_new g) toks \<noteq> None"
      using guided_complete [OF ok fresh(1) assms(3)] by (simp add: fresh feed_ok_iff)
    then obtain g' se' where "guided g (session_new g) toks = Some (g', se')" by auto
    then show "\<exists>g' se'. guided g (session_new g) toks = Some (g', se') \<and> eos_allowed g' se'"
      using run p by fastforce
  qed
qed

theorem decoder_language_witness:
  "(\<exists>g' se'. guided tiny (session_new tiny) [0, 1, 2, 3, 4, 5] = Some (g', se') \<and> eos_allowed g' se') \<and>
   \<not> (\<exists>g' se'. guided tiny (session_new tiny) [0, 1, 2, 3] = Some (g', se') \<and> eos_allowed g' se')"
proof -
  have "text_of tiny [0, 1, 2, 3, 4, 5] = ''|foo::A.all()->filter(x|$x.size > 1)''"
    and "text_of tiny [0, 1, 2, 3] = ''|foo::A.all()->filter(x|$x.''"
    by (simp_all add: text_of_def tiny_vocab_def from_byte_tokens_def token_bytes_def vocab_bytes_def vec_get_def)
  moreover have "accepts ''|foo::A.all()->filter(x|$x.size > 1)''" "\<not> accepts ''|foo::A.all()->filter(x|$x.''"
    by code_simp+
  ultimately show ?thesis
    using decoder_language [of tiny "[0, 1, 2, 3, 4, 5]"] decoder_language [of tiny "[0, 1, 2, 3]"] by simp
qed

text \<open>C20: Decoding under a schema stays in the grammar: whatever the schema, the tokens a host samples
  from the mask spell a live stream, a text that ends where EOS is offered is accepted by the
  automaton, and no token the mask offered is refused.\<close>

theorem guided_stays_in_grammar:
  assumes "grammar_ok g" and "vocab_len (cg_vocab g) + 1 < 2 ^ 32" and "eos_bit g \<notin> set toks"
    and "guided g (session_build g s) toks = Some (g', se')"
  shows "fst (feed pda_new (text_of g toks)) = Inr () \<and>
    (eos_allowed g' se' \<longleftrightarrow> accepts (text_of g toks)) \<and>
    (\<forall>t. t \<noteq> eos_bit g \<and> bm_test (fst (allowed_mask se' g')) t \<longrightarrow> guided g (session_build g s) (toks @ [t]) \<noteq> None)"
proof -
  note ok = session_build_ok [OF assms(1,2), of s]
  note sound = guided_sound [OF ok assms(4,3)]
  have fed: "feed pda_new (text_of g toks) = (Inr (), se_pda se')"
    using sound by (simp add: feed_ok_iff session_build_def)
  have "guided g a (ts @ [t]) = (case guided g a ts of Some (h, b) \<Rightarrow> guided h b [t] | None \<Rightarrow> None)" for g a ts t
    by (induction ts arbitrary: g a) (auto split: prod.split sum.split)
  moreover have "guided g' se' [t] \<noteq> None" if t: "t \<noteq> eos_bit g" "bm_test (fst (allowed_mask se' g')) t" for t
  proof -
    obtain m se1 g1 where run: "allowed_mask se' g' = (m, se1, g1)" by (metis prod.collapse)
    have "t \<noteq> eos_bit g'" using t eos_bit_vocab [of g' g] sound by simp
    from guided_step [OF _ run _ this] t sound obtain se2 where "accept_token se1 g1 t = (Inr (), se2)"
      by (metis fst_conv run)
    then show ?thesis using t by (simp add: run)
  qed
  ultimately show ?thesis
    using fed assms(4) eos_allowed_iff [of g' se'] sound by (auto simp: accepts_def is_complete_def)
qed

theorem guided_stays_in_grammar_witness:
  "case guided tiny (session_build tiny (Some shop)) [0, 1, 2, 3, 4, 5] of
     Some (g', se') \<Rightarrow> eos_allowed g' se' | None \<Rightarrow> False"
proof -
  have "guided tiny (session_build tiny (Some shop)) [0, 1, 2, 3, 4, 5] \<noteq> None"
    unfolding tiny_def tiny_vocab_def by code_simp
  then obtain g' se' where run: "guided tiny (session_build tiny (Some shop)) [0, 1, 2, 3, 4, 5] = Some (g', se')"
    by (auto simp del: guided.simps)
  have "text_of tiny [0, 1, 2, 3, 4, 5] = ''|foo::A.all()->filter(x|$x.size > 1)''"
    by (simp add: text_of_def tiny_vocab_def from_byte_tokens_def token_bytes_def vocab_bytes_def vec_get_def)
  moreover have "accepts ''|foo::A.all()->filter(x|$x.size > 1)''" by code_simp
  moreover have "eos_bit tiny \<notin> set [0, 1, 2, 3, 4, 5]" by simp
  ultimately have "eos_allowed g' se'"
    using guided_stays_in_grammar [OF _ _ _ run] by (simp del: guided.simps)
  with run show ?thesis by (simp del: guided.simps)
qed

text \<open>C18: Reset is indistinguishable from a new session: after any history, a host that resets the
  session and samples a token sequence from its masks succeeds or fails exactly as it would on
  a session just built over the same schema, and ends in a session with the same automaton,
  offset, schema and scope; the buffers, the scratch stack and the warm caches left over from the
  earlier stream cannot be observed.\<close>

theorem session_reset_fresh:
  assumes "session_ok g se"
    and "\<forall>n g' a. guided g (session_reset se) (take n toks) = Some (g', a) \<longrightarrow> names_ok a"
  shows "rel_option (\<lambda>(_, a) (_, b). alike a b)
    (guided g (session_reset se) toks) (guided g (session_build g (se_schema se)) toks)"
proof -
  have "alike (session_reset se) (session_build g (se_schema se))"
    by (simp add: alike_def session_reset_def session_build_def pda_reset_def pda_new_def)
  moreover have "session_ok g (session_build g (se_schema se))"
    using assms(1) by (intro session_build_ok) (simp_all add: session_ok_def)
  ultimately have "rel_option (\<lambda>x y. alike (snd x) (snd y))
      (guided g (session_reset se) toks) (guided g (session_build g (se_schema se)) toks)"
    using alike_guided [OF session_reset_ok [OF assms(1)]] assms(2) by blast
  then show ?thesis by (simp add: case_prod_unfold)
qed

theorem session_reset_fresh_witness:
  "let se = snd (accept_byte (session_new tiny) (CHR ''|'')) in
    session_reset se \<noteq> se \<and>
    rel_option (\<lambda>(_, a) (_, b). alike a b)
      (guided tiny (session_reset se) [0, 1]) (guided tiny (session_new tiny) [0, 1])"
proof -
  define se where "se = snd (accept_byte (session_new tiny) (CHR ''|''))"
  have "advance pda_new (CHR ''|'') = (Inr (), \<lparr>pda_st = ExpectSource, pda_stack = []\<rparr>)" by code_simp
  then have se: "se = (session_new tiny)\<lparr>se_pda := \<lparr>pda_st = ExpectSource, pda_stack = []\<rparr>, se_offset := 1\<rparr>"
    by (simp add: se_def accept_byte_def session_new_def session_build_def)
  have new: "session_ok tiny (session_new tiny)" by (simp add: session_new_def tiny_session)
  then have ok: "session_ok tiny se" unfolding se_def by (rule accept_byte_ok)
  have none: "se_schema (session_reset se) = None" by (simp add: se session_new_def session_build_def session_reset_def)
  have "names_ok a" if "guided tiny (session_reset se) (take n [0, 1]) = Some (g', a)" for n g' a
  proof -
    have "set (take n [0, 1 :: u32]) \<subseteq> {0, 1}" by (rule order_trans [OF set_take_subset]) simp
    then have "eos_bit tiny \<notin> set (take n [0, 1])" by auto
    then show ?thesis using guided_sound [OF session_reset_ok [OF ok] that] none by (simp add: names_ok_def)
  qed
  then show ?thesis
    using session_reset_fresh [OF ok, of "[0, 1]"] none
    by (simp add: se_def [symmetric] Let_def) (simp add: se session_new_def session_build_def session_reset_def)
qed

text \<open>Under a schema the two ways of advancing part: \<open>accept_token\<close> moves the scope along with the
  automaton, while folding \<open>accept_byte\<close> over the same bytes leaves the scope behind.  After the
  bytes of a filter's lambda committed as one token the position is a member access on the
  source class, and the schema rules apply; after the same bytes fed one at a time the automaton
  stands at the same place, but the position is unconstrained.\<close>

theorem bytes_bypass_scope:
  "(let g = compile_grammar (from_byte_tokens [''|foo::A.all()->filter(x|$x.''] 1);
        t = accept_token (with_schema g shop) g 0;
        b = drive accept_byte (with_schema g shop) ''|foo::A.all()->filter(x|$x.''
    in fst t = Inr () \<and> fst b = Inr () \<and> se_pda (snd t) = se_pda (snd b) \<and>
       position (se_tracker (snd t)) (pda_st (se_pda (snd t))) = L2Member ''foo::A'' \<and>
       position (se_tracker (snd b)) (pda_st (se_pda (snd b))) = L2None)"
  by code_simp

end
