(* ===== verification/Scope_Typing.thy ===== *)
theory Scope_Typing
  imports Scope_Props
begin

text \<open>
  What the scope machine is for: the class a navigation dot stands behind.  A lambda opened by an arrow
  call binds its variable to the class of the receiver, the variable keeps it over the whole body,
  and a chain of members is followed through the schema.
\<close>

section \<open>Effects of single lexemes\<close>

text \<open>The part of the tracker a navigation reads and writes.\<close>

definition nav_state :: "scope_tracker \<Rightarrow> bytes option \<times> bytes option \<times> bytes option \<times> bool" where
  "nav_state t = (tk_pending_refvar t, tk_dot_base t, tk_nav_cursor t, tk_dot_is_column t)"

lemma dispatch_ident:
  assumes "classify x = LxIdent x"
  shows "dispatch_token t x pre s =
    (case on_ident t x pre s None of (u, r) \<Rightarrow> u\<lparr>tk_last_resolved := r, tk_cmp_pending := None\<rparr>)"
  using assms by (simp add: dispatch_token_def handle_lexeme_def split: prod.split)

lemma classify_punct [simp]:
  "classify ''->'' = LxArrow" "classify ''|'' = LxPipe" "classify ''$'' = LxDollar" "classify ''.'' = LxDot"
  by code_simp+

lemma dispatch_punct:
  "dispatch_token t ''->'' pre s = (on_arrow t)\<lparr>tk_last_resolved := None, tk_cmp_pending := None\<rparr>"
  "dispatch_token t ''('' pre s = (on_open t pre)\<lparr>tk_last_resolved := None, tk_cmp_pending := None\<rparr>"
  "dispatch_token t ''|'' pre s = (on_pipe t pre)\<lparr>tk_last_resolved := None, tk_cmp_pending := None\<rparr>"
  "dispatch_token t ''.'' pre s = (on_dot t)\<lparr>tk_last_resolved := None, tk_cmp_pending := None\<rparr>"
  "dispatch_token t ''$'' pre s = t\<lparr>tk_last_ident := None, tk_last_resolved := None, tk_cmp_pending := None\<rparr>"
  by (simp_all add: dispatch_token_def handle_lexeme_def)

section \<open>Binding a variable\<close>

text \<open>The lexemes that open a lambda as the argument of an arrow call, up to its binder pipe.\<close>

definition arrow_lambda :: "bytes \<Rightarrow> bytes \<Rightarrow> state \<Rightarrow> (bytes \<times> state) list" where
  "arrow_lambda m x pre =
    [(''->'', AfterValue), (m, AfterArrow), (''('', InIdent), (x, pre), (''|'', InIdent)]"

definition arrow_receiver :: "scope_tracker \<Rightarrow> bytes option" where
  "arrow_receiver t = (case tk_last_nav_class t of Some c \<Rightarrow> Some c | None \<Rightarrow> tk_cur_class t)"

definition row_lambda :: "scope_tracker \<Rightarrow> bool" where
  "row_lambda t \<longleftrightarrow> arrow_receiver t = None \<and> tk_rel_explicit t \<and> tk_saw_tilde_bracket t"

lemma classify_ident: "classify x = LxIdent x \<Longrightarrow> x \<noteq> []"
  by (auto simp: classify_def)

text \<open>The part that the binding of the variable reads, in front of and behind the opening delimiter.\<close>

lemma arrow_call_receiver:
  assumes "classify m = LxIdent m" and "m \<noteq> SOURCE_METHOD"
    and "u = run_lexemes t [(''->'', AfterValue), (m, AfterArrow), (''('', InIdent)] s"
  shows "vec_last (tk_paren_receiver u) = Some (arrow_receiver t) \<and> tk_rel_explicit u = tk_rel_explicit t \<and>
    tk_saw_tilde_bracket u = tk_saw_tilde_bracket t \<and> tk_var_class u = tk_var_class t \<and>
    tk_relation_row_vars u = tk_relation_row_vars t"
  using assms(2)
  by (simp add: assms(3) dispatch_punct dispatch_ident [OF assms(1)] on_arrow_def on_ident_def on_open_def
      enter_method_def arrow_receiver_def Let_def split: option.split)

lemma arrow_lambda_binds:
  assumes "classify m = LxIdent m" and "classify x = LxIdent x" and "m \<noteq> SOURCE_METHOD"
    and "pre \<in> {ExpectValue, ExpectValueReq}" and "u = run_lexemes t (arrow_lambda m x pre) s"
  shows "tk_relation_row_vars u = (if row_lambda t then insert x (tk_relation_row_vars t) else tk_relation_row_vars t - {x})"
    and "tk_var_class u = (tk_var_class t)(x := (if row_lambda t then None else Some (arrow_receiver t)))"
proof -
  define t1 where "t1 = run_lexemes t [(''->'', AfterValue), (m, AfterArrow), (''('', InIdent)] s"
  note r = arrow_call_receiver [OF assms(1,3) t1_def]
  have u: "u = dispatch_token (dispatch_token t1 x pre s) ''|'' InIdent s"
    by (simp add: assms(5) arrow_lambda_def t1_def)
  have x: "x \<noteq> []" using classify_ident [OF assms(2)] by simp
  show "tk_relation_row_vars u = (if row_lambda t then insert x (tk_relation_row_vars t) else tk_relation_row_vars t - {x})"
    and "tk_var_class u = (tk_var_class t)(x := (if row_lambda t then None else Some (arrow_receiver t)))"
    using r x assms(4)
    by (auto simp: u dispatch_punct dispatch_ident [OF assms(2)] on_ident_def on_pipe_def bind_lambda_def
        Let_def row_lambda_def flatten_def)
qed

text \<open>The body of a lambda: nested, and with no binder pipe of its own outside the delimiters it opens.\<close>

fun lambda_body :: "nat \<Rightarrow> (bytes \<times> state) list \<Rightarrow> bool" where
  "lambda_body n [] \<longleftrightarrow> n = 0"
| "lambda_body n ((bs, pre) # evs) \<longleftrightarrow>
    \<not> (n = 0 \<and> classify bs \<in> {LxClose, LxPipe}) \<and> lambda_body (net_depth (classify bs) n) evs"

lemma outer_dispatch_level:
  assumes "classify bs \<notin> {LxClose, LxPipe}"
  shows "outer d (dispatch_token t bs pre s) = outer d t"
proof -
  have "outer d (if classify bs = LxWs then t else fst (handle_lexeme t (classify bs) pre s)) = outer d t"
  proof (cases "classify bs = LxOpen")
    case True
    then show ?thesis by (simp add: handle_lexeme_def outer_open)
  next
    case False
    then have "classify bs \<notin> {LxPipe, LxOpen, LxClose}" using assms by auto
    from outer_book [OF handle_lexeme_other [OF this]] show ?thesis by simp
  qed
  then show ?thesis using outer_book [OF dispatch_book] by metis
qed

lemma run_lambda_body:
  assumes "scope_ok t" and "unat (tk_depth t) = k + n" and "lambda_body n evs"
    and "k + n + length evs < 2 ^ 32" and "unat d = Suc k"
  shows "unat (tk_depth (run_lexemes t evs s)) = k \<and> scope_ok (run_lexemes t evs s) \<and>
    outer d (run_lexemes t evs s) = outer d t"
  using assms(1-4)
proof (induction evs arbitrary: t n)
  case Nil
  then show ?case by simp
next
  case (Cons ev evs)
  obtain bs pre where ev: "ev = (bs, pre)" by fastforce
  let ?t = "dispatch_token t bs pre s" and ?n = "net_depth (classify bs) n"
  have ok: "\<not> (n = 0 \<and> classify bs \<in> {LxClose, LxPipe})" and rest: "lambda_body ?n evs"
    using Cons.prems(3) by (simp_all add: ev)
  have "room t" using Cons.prems(2,4) by (simp add: room_def)
  note d = dispatch_ok [OF Cons.prems(1) this, of bs pre s]
  have "unat (tk_depth ?t) = k + ?n"
    using d(2) Cons.prems(2) net_depth_shift [of "classify bs" n k] ok by (auto simp: add.commute)
  moreover have "k + ?n + length evs < 2 ^ 32"
    using Cons.prems(4) net_depth_le [of "classify bs" n] by simp
  moreover have "outer d ?t = outer d t"
  proof (cases "n = 0")
    case False
    then show ?thesis using Cons.prems(2) assms(5) by (intro outer_dispatch) (simp add: word_le_nat_alt)
  qed (use ok outer_dispatch_level in simp)
  ultimately show ?case using Cons.IH [OF d(1) _ rest] by (simp add: ev)
qed

lemma lambda_body_bindings:
  assumes "scope_ok t" and "unat (tk_depth t) + length evs + 1 < 2 ^ 32" and "lambda_body 0 evs"
  shows "bindings (run_lexemes t evs s) = bindings t"
proof -
  let ?d = "tk_depth t + 1" and ?u = "run_lexemes t evs s"
  have d: "unat ?d = Suc (unat (tk_depth t))" "tk_depth t < ?d" using u32_inc [of "tk_depth t"] assms(2) by simp_all
  have u: "unat (tk_depth ?u) = unat (tk_depth t)" "scope_ok ?u" "outer ?d ?u = outer ?d t"
    using run_lambda_body [OF assms(1) _ assms(3), of "unat (tk_depth t)" ?d s] d assms(2) by simp_all
  have "tk_depth ?u = tk_depth t" using u(1) by (simp add: word_unat_eq_iff)
  then have "bindings ?u = outer ?d ?u" using outer_shallow [OF u(2), of ?d] d(2) by simp
  also have "\<dots> = bindings t" using u(3) outer_shallow [OF assms(1) d(2)] by simp
  finally show ?thesis .
qed

text \<open>A use of a variable, up to the dot behind it.\<close>

definition variable_dot :: "bytes \<Rightarrow> (bytes \<times> state) list" where
  "variable_dot x = [(''$'', ExpectValueReq), (x, AfterDollar), (''.'', InIdent)]"

lemma variable_dot_base:
  assumes "classify x = LxIdent x" and "u = run_lexemes t (variable_dot x) s"
  shows "tk_dot_is_column u = (x \<in> tk_relation_row_vars t) \<and> tk_pending_refvar u = None \<and>
    tk_dot_base u = (if x \<in> tk_relation_row_vars t then None else flatten (tk_var_class t x))"
  by (simp add: assms(2) variable_dot_def dispatch_punct dispatch_ident [OF assms(1)] on_ident_def on_dot_def Let_def)

section \<open>Following members\<close>

definition member_class :: "schema \<Rightarrow> bytes option \<Rightarrow> bytes \<Rightarrow> bytes option" where
  "member_class s c m =
    (case c of
       None \<Rightarrow> None
     | Some b \<Rightarrow> (case resolve s b m of Some (ResClass p _) \<Rightarrow> Some p | _ \<Rightarrow> None))"

definition member_dots :: "bytes list \<Rightarrow> (bytes \<times> state) list" where
  "member_dots ms = concat (map (\<lambda>m. [(m, AfterDot), (''.'', InIdent)]) ms)"

text \<open>The tracker stands behind a dot over the class \<open>c\<close>, or over something it knows no class of.\<close>

definition behind_dot :: "scope_tracker \<Rightarrow> bytes option \<Rightarrow> bool" where
  "behind_dot t c \<longleftrightarrow> tk_pending_refvar t = None \<and> \<not> tk_dot_is_column t \<and> tk_dot_base t = c \<and>
    (c = None \<longrightarrow> tk_nav_cursor t = None)"

lemma behind_dot_position:
  "behind_dot t c \<Longrightarrow> opening_position t AfterDot = (case c of Some d \<Rightarrow> L2Member d | None \<Rightarrow> L2None)"
  by (simp add: behind_dot_def opening_position_def)

lemma member_dot:
  assumes "behind_dot t c" and "classify m = LxIdent m"
  shows "behind_dot (run_lexemes t [(m, AfterDot), (''.'', InIdent)] s) (member_class s c m)"
  using assms(1)
  by (auto simp: behind_dot_def dispatch_punct dispatch_ident [OF assms(2)] on_ident_def resolve_member_def on_dot_def
      member_class_def Let_def split: option.split resolved.split)

lemma member_dots_class:
  assumes "behind_dot t c" and "\<forall>m \<in> set ms. classify m = LxIdent m"
  shows "behind_dot (run_lexemes t (member_dots ms) s) (foldl (member_class s) c ms)"
  using assms
proof (induction ms arbitrary: t c)
  case (Cons m ms)
  then show ?case
    using Cons.IH [OF member_dot [OF Cons.prems(1), of m s]] by (simp add: member_dots_def)
qed (simp add: member_dots_def)

lemma member_comparison:
  assumes "behind_dot t (Some d)" and "classify m = LxIdent m" and "classify op = LxCmp"
    and "resolve s d m = Some (ResPrimitive prim mult)"
  shows "opening_position (run_lexemes t [(m, AfterDot), (op, InIdent)] s) ExpectValueReq = L2ReValue (prim_type_cls prim)"
  using assms(1,4)
  by (simp add: behind_dot_def dispatch_ident [OF assms(2)] dispatch_token_def [of _ op] handle_lexeme_def assms(3)
      on_ident_def resolve_member_def Let_def opening_position_def)

text \<open>A dot behind anything but a variable takes the class of the last navigation, whatever stands in front of
  it: nothing but an arrow or a further member clears the cursor.\<close>

lemma path_dot_position:
  assumes "classify p = LxIdent p" and "pre \<notin> {AfterDollar, AfterDot}" and "tk_pending_refvar t = None"
  shows "opening_position (run_lexemes t [(p, pre), (''.'', a)] s) AfterDot =
    (case tk_nav_cursor t of Some c \<Rightarrow> L2Member c | None \<Rightarrow> L2None)"
  using assms(2,3)
  by (simp add: dispatch_punct dispatch_ident [OF assms(1)] on_ident_def on_dot_def opening_position_def Let_def
      split: option.split)

section \<open>Properties\<close>

text \<open>C8: An untyped lambda variable has the class of the receiver: when a lambda stands directly behind the
  opening parenthesis of an arrow call of any method but \<open>all\<close>, and its binder carries no type, the variable's
  uses anywhere in the body, however deep the calls, lambdas and subqueries in front of the use are nested as long as
  they have closed, open a position over the members of the class the arrow was applied to: the class
  the navigation in front of it reached, or else the class of the pipeline; over the emitted columns
  when a projection has replaced the class; and over nothing when neither is known.  Binders with a type, and
  lambdas in a later argument or in a bracketed list, are not covered.\<close>

theorem lambda_variable_typed:
  assumes "scope_ok t" and "classify m = LxIdent m" and "m \<noteq> SOURCE_METHOD" and "classify x = LxIdent x"
    and "pre \<in> {ExpectValue, ExpectValueReq}" and "lambda_body 0 body"
    and "unat (tk_depth t) + length body + 7 < 2 ^ 32"
    and "u = run_lexemes t (arrow_lambda m x pre @ body @ variable_dot x) s"
  shows "opening_position u AfterDot =
    (if row_lambda t then L2RelationColumn
     else case arrow_receiver t of Some c \<Rightarrow> L2Member c | None \<Rightarrow> L2None)"
proof -
  let ?b = "run_lexemes t (arrow_lambda m x pre) s"
  have "nesting 0 (arrow_lambda m x pre) = Some 1" by (simp add: arrow_lambda_def assms(2,4))
  then have b: "scope_ok ?b" "unat (tk_depth ?b) = unat (tk_depth t) + 1"
    using run_lexemes_nested [OF assms(1), of "unat (tk_depth t)" 0 "arrow_lambda m x pre" 1 "tk_depth t" s] assms(7)
    by (simp_all add: arrow_lambda_def)
  have kept: "bindings (run_lexemes ?b body s) = bindings ?b"
    using lambda_body_bindings [OF b(1) _ assms(6)] b(2) assms(7) by simp
  note bound = arrow_lambda_binds [OF assms(2,4,3,5) refl, of t s]
  have "tk_relation_row_vars (run_lexemes ?b body s) = tk_relation_row_vars ?b"
    "tk_var_class (run_lexemes ?b body s) = tk_var_class ?b"
    using kept by (simp_all add: bindings_def)
  then show ?thesis
    using variable_dot_base [OF assms(4) refl, of "run_lexemes ?b body s" s] bound
    by (auto simp: assms(8) opening_position_def flatten_def)
qed

theorem lambda_variable_typed_witness:
  "opening_position (run_lexemes (tracker_new\<lparr>tk_cur_class := Some ''foo::A''\<rparr>)
     (arrow_lambda ''filter'' ''x'' ExpectValue @
      [(''isEmpty'', ExpectValue), (''('', InIdent), (''$'', ExpectValue), (''x'', AfterDollar), (''.'', InIdent),
       (''b'', AfterDot), ('')'', InIdent), (''||'', AfterValue)] @ variable_dot ''x'') shop) AfterDot = L2Member ''foo::A''"
proof -
  let ?t = "tracker_new\<lparr>tk_cur_class := Some ''foo::A''\<rparr>"
  let ?body = "[(''isEmpty'', ExpectValue), (''('', InIdent), (''$'', ExpectValue), (''x'', AfterDollar), (''.'', InIdent),
       (''b'', AfterDot), ('')'', InIdent), (''||'', AfterValue)]"
  have ids: "classify ''filter'' = LxIdent ''filter''" "''filter'' \<noteq> SOURCE_METHOD" "classify ''x'' = LxIdent ''x''"
    and body: "lambda_body 0 ?body"
    by code_simp+
  have "scope_ok ?t" "unat (tk_depth ?t) = 0" "arrow_receiver ?t = Some ''foo::A''" "\<not> row_lambda ?t"
    by (simp_all add: scope_ok_def tracker_new_def arrow_receiver_def row_lambda_def)
  then show ?thesis
    using lambda_variable_typed [OF _ ids _ body _ refl, of ?t ExpectValue shop] by simp
qed

text \<open>C9: Navigation follows the schema: behind a dot over a class, each further member moves to the class it
  resolves to, so that the dot behind the chain stands over the members of the class at its end, and
  over nothing as soon as a member is unknown or not class-valued; and a comparison behind a
  primitive member expects an operand of the member's type.\<close>

theorem navigation_typed:
  assumes "behind_dot t c" and "\<forall>m \<in> set ms. classify m = LxIdent m" and "d = foldl (member_class s) c ms"
    and "u = run_lexemes t (member_dots ms) s"
  shows "opening_position u AfterDot = (case d of Some cls \<Rightarrow> L2Member cls | None \<Rightarrow> L2None) \<and>
    (\<forall>cls m prim mult op. d = Some cls \<and> classify m = LxIdent m \<and> classify op = LxCmp \<and>
       resolve s cls m = Some (ResPrimitive prim mult) \<longrightarrow>
       opening_position (run_lexemes u [(m, AfterDot), (op, InIdent)] s) ExpectValueReq = L2ReValue (prim_type_cls prim))"
proof -
  have u: "behind_dot u d" using member_dots_class [OF assms(1,2)] by (simp add: assms(3,4))
  then show ?thesis using behind_dot_position [OF u] member_comparison by blast
qed

theorem navigation_typed_witness:
  "opening_position (run_lexemes (tracker_new\<lparr>tk_dot_base := Some ''foo::A''\<rparr>) (member_dots [''b'']) shop) AfterDot =
     L2Member ''lib::B'' \<and>
   opening_position (run_lexemes (run_lexemes (tracker_new\<lparr>tk_dot_base := Some ''foo::A''\<rparr>) (member_dots [''b'']) shop)
     [(''price'', AfterDot), (''=='', InIdent)] shop) ExpectValueReq = L2ReValue (prim_type_cls PnInteger)"
proof -
  let ?t = "tracker_new\<lparr>tk_dot_base := Some ''foo::A''\<rparr>"
  have dot: "behind_dot ?t (Some ''foo::A'')" by (simp add: behind_dot_def tracker_new_def)
  have ids: "\<forall>m \<in> set [''b'']. classify m = LxIdent m" "classify ''price'' = LxIdent ''price''" "classify ''=='' = LxCmp"
    and cls: "Some ''lib::B'' = foldl (member_class shop) (Some ''foo::A'') [''b'']"
    and price: "resolve shop ''lib::B'' ''price'' = Some (ResPrimitive PnInteger one_one)"
    by code_simp+
  note typed = navigation_typed [OF dot ids(1) cls refl]
  show ?thesis using typed [THEN conjunct1] typed [THEN conjunct2] ids(2,3) price by (simp only: option.case)
qed

end
