(* ===== verification/Scope_Columns.thy ===== *)
theory Scope_Columns
  imports Narrowing
begin

text \<open>
  When the scope machine asks for a column, and for which: the recorded columns against a plain scan of
  the text for string literals, and the two stacks of method depths against the names directly in
  front of the open delimiters.
\<close>

section \<open>String literals of a text\<close>

text \<open>A scan by quotes: outside a literal, inside one, or behind a quote that closes it unless another quote
  follows.  A literal counts once a further byte has shown that it is closed.\<close>

datatype literal_scan = Outside | Inside bytes | Closing bytes

fun literal_step :: "literal_scan \<times> bytes list \<Rightarrow> u8 \<Rightarrow> literal_scan \<times> bytes list" where
  "literal_step (Outside, ls) b = (if b = CHR 0x27 then Inside [] else Outside, ls)"
| "literal_step (Inside c, ls) b = (if b = CHR 0x27 then Closing c else Inside (c @ [b]), ls)"
| "literal_step (Closing c, ls) b = (if b = CHR 0x27 then (Inside (c @ [b]), ls) else (Outside, ls @ [c]))"

definition literal_run :: "bytes \<Rightarrow> literal_scan \<times> bytes list" where
  "literal_run text = foldl literal_step (Outside, []) text"

definition literals_of :: "bytes \<Rightarrow> bytes list" where
  "literals_of text = snd (literal_run text)"

lemma literal_run_snoc: "literal_run (text @ [b]) = literal_step (literal_run text) b"
  by (simp add: literal_run_def)

section \<open>What a lexeme records\<close>

lemma on_close_pending: "tk_pending (on_close t) = tk_pending t"
proof -
  note rb = restore_binders_eq [OF refl, of t]
  obtain c e w where rs: "restore_scopes (restore_binders t) = (restore_binders t)
      \<lparr>tk_scope_saves := rev (dropWhile (\<lambda>b. ss_depth b = tk_depth t) (rev (tk_scope_saves t))),
       tk_cur_class := c, tk_rel_explicit := e, tk_saw_tilde_bracket := w\<rparr>"
    using restore_scopes_eq [OF refl, of "restore_binders t"] by (auto simp: rb Let_def)
  show ?thesis by (simp add: on_close_def rs Let_def, simp add: rb Let_def)
qed

lemma dispatch_pending: "tk_pending (dispatch_token t bs pre s) = tk_pending t"
proof -
  have "tk_pending (fst (handle_lexeme t lx pre s)) = tk_pending t" for lx
  proof (cases lx)
    case (LxIdent x)
    then show ?thesis
      by (simp add: handle_lexeme_def on_ident_def resolve_member_def Let_def split: option.split resolved.split)
  next
    case LxOpen
    then show ?thesis by (simp add: handle_lexeme_def on_open_def enter_method_def Let_def split: option.split)
  next
    case LxClose
    then show ?thesis by (simp add: handle_lexeme_def on_close_pending)
  qed (simp_all add: handle_lexeme_def on_dot_def on_arrow_def Let_def split: option.split)
  then show ?thesis by (simp add: dispatch_token_def Let_def split: prod.split) (metis fst_conv)
qed

text \<open>A lexeme records at most one column: the content of a literal, or the name that it is.\<close>

lemma classify_cases:
  "classify bs = LxStr c \<Longrightarrow> bs \<noteq> [] \<and> hd bs = CHR 0x27 \<and> c = unquote bs"
  "classify bs = LxIdent x \<Longrightarrow> x = bs"
  by (auto simp: classify_def split: if_splits)

lemma dispatch_records:
  obtains "tk_emitted_strings (dispatch_token t bs pre s) = tk_emitted_strings t" and "\<forall>c. classify bs \<noteq> LxStr c"
  | c where "classify bs = LxStr c" and "tk_emitted_strings (dispatch_token t bs pre s) = tk_emitted_strings t @ [c]"
  | "classify bs = LxIdent bs" and "tk_emitted_strings (dispatch_token t bs pre s) = tk_emitted_strings t @ [bs]"
proof -
  let ?u = "if classify bs = LxWs then t else fst (handle_lexeme t (classify bs) pre s)"
  have u: "tk_emitted_strings (dispatch_token t bs pre s) = tk_emitted_strings ?u"
    by (simp add: dispatch_token_def Let_def split: prod.split)
  show thesis
  proof (cases "classify bs")
    case (LxIdent x)
    then have "x = bs" by (rule classify_cases)
    have "tk_emitted_strings ?u = tk_emitted_strings t \<or> tk_emitted_strings ?u = tk_emitted_strings t @ [bs]"
      by (auto simp: LxIdent \<open>x = bs\<close> handle_lexeme_def on_ident_def resolve_member_def Let_def split: option.split resolved.split)
    then show thesis using that(1,3) u LxIdent \<open>x = bs\<close> by auto
  next
    case (LxStr c)
    then show thesis using that(2) u by (simp add: handle_lexeme_def)
  next
    case LxOpen
    then show thesis using that(1) u by (simp add: handle_lexeme_def on_open_def enter_method_def Let_def split: option.splits)
  next
    case LxPipe
    then show thesis using that(1) u by (simp add: handle_lexeme_def on_pipe_def bind_lambda_def Let_def split: option.splits)
  next
    case LxDot
    then show thesis using that(1) u by (simp add: handle_lexeme_def on_dot_def Let_def split: option.splits)
  next
    case LxCmp
    then show thesis using that(1) u by (simp add: handle_lexeme_def split: option.splits)
  qed (use that(1) u in \<open>simp_all add: handle_lexeme_def on_arrow_def\<close>)
qed

text \<open>The recorded columns agree with a text read so far: the literals of the text are among them, in order,
  and the others are names of the text.\<close>

definition name_of :: "bytes \<Rightarrow> bytes \<Rightarrow> bool" where
  "name_of text x \<longleftrightarrow> classify x = LxIdent x \<and> CHR 0x27 \<notin> set x \<and> sublist x text"

definition columns_agree :: "bytes \<Rightarrow> bytes list \<Rightarrow> scope_tracker \<Rightarrow> bool" where
  "columns_agree text ls t \<longleftrightarrow> subseq ls (tk_emitted_strings t) \<and>
    (\<forall>x \<in> set (tk_emitted_strings t). x \<in> set ls \<or> name_of text x)"

lemma name_of_mono: "name_of text x \<Longrightarrow> sublist text text' \<Longrightarrow> name_of text' x"
  by (auto simp: name_of_def intro: sublist_order.order.trans)

lemma columns_agree_mono:
  "columns_agree text ls t \<Longrightarrow> sublist text text' \<Longrightarrow> tk_emitted_strings u = tk_emitted_strings t \<Longrightarrow> columns_agree text' ls u"
  unfolding columns_agree_def using name_of_mono by metis

lemma columns_agree_name:
  assumes "columns_agree text ls t" and "CHR 0x27 \<notin> set bs" and "sublist bs text"
  shows "columns_agree text ls (dispatch_token t bs pre s)"
proof (cases rule: dispatch_records [of t bs pre s])
  case (2 c)
  then have "CHR 0x27 \<in> set bs" using classify_cases(1) hd_in_set by metis
  with assms(2) show ?thesis by simp
next
  case 3
  then show ?thesis
    using assms by (auto simp: columns_agree_def name_of_def intro: subseq_order.trans [OF _ list_emb_append2])
qed (use assms(1) in \<open>simp add: columns_agree_def\<close>)

lemma columns_agree_literal:
  assumes "columns_agree text ls t"
  shows "columns_agree text (ls @ [c]) (dispatch_token t (quote c) pre s)"
proof (cases rule: dispatch_records [of t "quote c" pre s])
  case (2 d)
  then show ?thesis using assms by (auto simp: classify_quote columns_agree_def)
qed (auto simp: classify_quote)

lemma columns_agree_gap:
  assumes "columns_agree text ls t" and "CHR 0x27 \<notin> set gap" and "sublist gap text"
  shows "columns_agree text ls (flush_gap t gap anchor s) \<and> tk_pending (flush_gap t gap anchor s) = tk_pending t"
  using assms
proof (induction "length gap" arbitrary: t gap rule: less_induct)
  case less
  show ?case
  proof (cases gap)
    case Nil
    then show ?thesis using less.prems by simp
  next
    case (Cons b tail)
    obtain n where n: "0 < n" "n \<le> length gap"
      and round: "flush_gap t gap anchor s =
        flush_gap (if is_ascii_whitespace b then t else dispatch_token t (take n gap) anchor s) (drop n gap) anchor s"
      using flush_gap_round [of b tail anchor s] unfolding Cons by metis
    let ?t = "if is_ascii_whitespace b then t else dispatch_token t (take n gap) anchor s"
    have sub: "sublist (take n gap) text" "sublist (drop n gap) text"
      using less.prems(3) sublist_take sublist_drop sublist_order.order.trans by metis+
    have set: "CHR 0x27 \<notin> set (take n gap)" "CHR 0x27 \<notin> set (drop n gap)"
      using less.prems(2) by (meson in_set_takeD in_set_dropD)+
    have "columns_agree text ls ?t" using columns_agree_name [OF less.prems(1) set(1) sub(1)] less.prems(1) by simp
    then show ?thesis
      unfolding round using less.hyps [of "drop n gap" ?t] n set(2) sub(2) by (simp add: dispatch_pending split: if_splits)
  qed
qed

section \<open>Literals through the walk\<close>

lemma quote_body_snoc: "quote_body (c @ [b]) = quote_body c @ (if b = CHR 0x27 then [CHR 0x27, CHR 0x27] else [b])"
  by (induction c) auto

lemma string_states: "lexeme_kind st = Some LkStr \<longleftrightarrow> st \<in> {InStrLit True, InStrLit False}"
  by (cases st) auto

text \<open>A string state is entered by a quote, and left for the closing state by a quote.\<close>

lemma cfg_step_string:
  assumes "cfg_step (st, fs) b = Some (st', fs')"
  shows "st = InStrLit False \<Longrightarrow> st' = InStrLit (b = CHR 0x27)"
    and "st \<noteq> InStrLit False \<Longrightarrow> b = CHR 0x27 \<Longrightarrow> st' = InStrLit False"
    and "st \<noteq> InStrLit False \<Longrightarrow> b \<noteq> CHR 0x27 \<Longrightarrow> st' \<noteq> InStrLit e"
proof -
  show "st' = InStrLit (b = CHR 0x27)" if "st = InStrLit False"
    using assms that by (auto simp: cfg_step_def step_InStrLit_def split: if_splits)
  show "st' = InStrLit False" if "st \<noteq> InStrLit False" "b = CHR 0x27"
    using assms step_quote [OF refl that(1), of "vec_last fs"] that(2) by (auto simp: cfg_step_def split: pda_step.splits)
  show "st' \<noteq> InStrLit e" if "st \<noteq> InStrLit False" "b \<noteq> CHR 0x27"
    using assms that
    by (cases st) (auto simp: cfg_step_def step_defs hub_defs byte_eval split: option.splits frame.splits if_splits pda_step.splits)
qed

text \<open>The bytes \<open>raw\<close> of the current segment, against the scan.\<close>

definition reading :: "state \<Rightarrow> bytes \<Rightarrow> literal_scan \<Rightarrow> bool" where
  "reading st raw m \<longleftrightarrow>
    (case m of
       Outside \<Rightarrow> (\<forall>e. st \<noteq> InStrLit e) \<and> CHR 0x27 \<notin> set raw
     | Inside c \<Rightarrow> st = InStrLit False \<and> raw = CHR 0x27 # quote_body c
     | Closing c \<Rightarrow> st = InStrLit True \<and> raw = quote c)"

lemma reading_stays:
  assumes "reading st raw m" and "cfg_step (st, fs) b = Some (st', fs')" and "lexeme_kind st' = lexeme_kind st"
    and "literal_step (m, ls) b = (m', ls')"
  shows "reading st' (raw @ [b]) m' \<and> ls' = ls"
  using assms(1,3,4) cfg_step_string [OF assms(2)] string_states [of st] string_states [of st']
  by (cases m) (auto simp: reading_def quote_def quote_body_snoc split: if_splits)

lemma reading_turns:
  assumes "reading st raw m" and "cfg_step (st, fs) b = Some (st', fs')" and "lexeme_kind st' \<noteq> lexeme_kind st"
    and "literal_step (m, ls) b = (m', ls')"
  shows "reading st' [b] m' \<and> ((m = Outside \<and> ls' = ls) \<or> (\<exists>c. m = Closing c \<and> ls' = ls @ [c]))"
  using assms(1,3,4) cfg_step_string [OF assms(2)] string_states [of st] string_states [of st']
  by (cases m) (auto simp: reading_def split: if_splits)

definition walk_agrees :: "bytes \<Rightarrow> state \<Rightarrow> bool \<Rightarrow> bytes \<Rightarrow> scope_tracker \<Rightarrow> bool" where
  "walk_agrees text st cont seg t \<longleftrightarrow>
    (\<exists>m ls raw. literal_run text = (m, ls) \<and> columns_agree text ls t \<and> reading st raw m \<and> suffix raw text \<and>
      (if cont then \<exists>pd. tk_pending t = Some pd \<and> raw = pd_buf pd @ seg \<and> lexeme_kind st = Some (pd_kind pd)
       else tk_pending t = None \<and> raw = seg))"

text \<open>At a boundary the closed segment is dispatched and a new one begins with the byte.\<close>

lemma walk_agrees_cut:
  assumes "walk_agrees text st cont seg t" and "cfg_step (st, fs) b = Some (st', fs')"
    and "lexeme_kind st' \<noteq> lexeme_kind st"
    and u: "u = (if lexeme_kind st = None then flush_gap t seg anchor s else emit_lexeme t seg anchor cont s)"
  shows "walk_agrees (text @ [b]) st' False [b] u"
proof -
  obtain m ls raw where run: "literal_run text = (m, ls)" and cols: "columns_agree text ls t"
    and rd: "reading st raw m" and suf: "suffix raw text"
    and at: "if cont then \<exists>pd. tk_pending t = Some pd \<and> raw = pd_buf pd @ seg \<and> lexeme_kind st = Some (pd_kind pd)
       else tk_pending t = None \<and> raw = seg"
    using assms(1) unfolding walk_agrees_def by blast
  obtain m' ls' where step: "literal_step (m, ls) b = (m', ls')" by fastforce
  note turn = reading_turns [OF rd assms(2,3) step]
  have sub: "sublist raw text" using suf by (rule suffix_imp_sublist)
  have emitted: "\<exists>a t1. u = dispatch_token t1 raw a s \<and> tk_emitted_strings t1 = tk_emitted_strings t \<and> tk_pending t1 = None"
    if "lexeme_kind st \<noteq> None"
  proof (cases cont)
    case True
    then obtain pd where "tk_pending t = Some pd" "raw = pd_buf pd @ seg" using at by auto
    then show ?thesis
      using True that by (intro exI [of _ "pd_anchor pd"] exI [of _ "t\<lparr>tk_pending := None\<rparr>"]) (auto simp: u emit_lexeme_def)
  next
    case False
    then show ?thesis using at that by (intro exI [of _ anchor] exI [of _ t]) (auto simp: u emit_lexeme_def)
  qed
  have "columns_agree text ls' u \<and> tk_pending u = None"
  proof (cases "lexeme_kind st")
    case None
    then have "\<not> cont" using at by (auto split: if_splits)
    have m: "m = Outside" "ls' = ls" using turn rd string_states [of st] None by (auto simp: reading_def)
    then have "CHR 0x27 \<notin> set seg" using rd at \<open>\<not> cont\<close> by (simp add: reading_def)
    then show ?thesis
      using columns_agree_gap [OF cols, of seg anchor s] sub at \<open>\<not> cont\<close> None m(2) by (simp add: u)
  next
    case (Some k)
    then obtain a t1 where t1: "u = dispatch_token t1 raw a s" "tk_emitted_strings t1 = tk_emitted_strings t"
      "tk_pending t1 = None" using emitted by auto
    have cols1: "columns_agree text ls t1" using columns_agree_mono [OF cols _ t1(2), of "text"] by simp
    have "columns_agree text ls' u"
      using turn columns_agree_name [OF cols1 _ sub, of a s] columns_agree_literal [OF cols1, of _ a s] rd
      by (auto simp: t1(1) reading_def)
    then show ?thesis by (simp add: t1 dispatch_pending)
  qed
  moreover have "columns_agree (text @ [b]) ls' u" if "columns_agree text ls' u"
    using columns_agree_mono [OF that _ refl] by simp
  ultimately show ?thesis
    using turn step run unfolding walk_agrees_def literal_run_snoc by (auto simp: suffix_def)
qed

lemma seg_walk_agrees:
  assumes "walk_agrees text st cont seg t" and "cfg_run (st, fs) bs = Some (st', fs')"
  shows "\<exists>w seg' t'. seg_walk bs st fs cont anchor seg t s = Inr (w, seg', t') \<and> wl_state w = st' \<and>
    walk_agrees (text @ bs) st' (wl_continuing w) seg' t'"
  using assms
proof (induction bs arbitrary: "text" st fs cont anchor seg t)
  case (Cons b bs)
  obtain st1 fs1 where one: "cfg_step (st, fs) b = Some (st1, fs1)" and rest: "cfg_run (st1, fs1) bs = Some (st', fs')"
    using Cons.prems(2) by (auto split: option.splits)
  show ?case
  proof (cases "lexeme_kind st1 = lexeme_kind st")
    case True
    obtain m ls raw where run: "literal_run text = (m, ls)" "columns_agree text ls t" "reading st raw m" "suffix raw text"
      and at: "if cont then \<exists>pd. tk_pending t = Some pd \<and> raw = pd_buf pd @ seg \<and> lexeme_kind st = Some (pd_kind pd)
         else tk_pending t = None \<and> raw = seg"
      using Cons.prems(1) unfolding walk_agrees_def by blast
    obtain m' ls' where step: "literal_step (m, ls) b = (m', ls')" by fastforce
    note stay = reading_stays [OF run(3) one True step]
    have "columns_agree (text @ [b]) ls t" using columns_agree_mono [OF run(2) _ refl] by simp
    moreover have "literal_run (text @ [b]) = (m', ls)" using stay step run(1) by (simp add: literal_run_snoc)
    moreover have "suffix (raw @ [b]) (text @ [b])" using run(4) by (auto simp: suffix_def)
    moreover have "if cont then \<exists>pd. tk_pending t = Some pd \<and> raw @ [b] = pd_buf pd @ seg @ [b] \<and> lexeme_kind st1 = Some (pd_kind pd)
         else tk_pending t = None \<and> raw @ [b] = seg @ [b]"
      using at True by (auto split: if_splits)
    ultimately have "walk_agrees (text @ [b]) st1 cont (seg @ [b]) t" using stay unfolding walk_agrees_def by blast
    from Cons.IH [OF this rest] show ?thesis using one True by simp
  next
    case False
    from Cons.IH [OF walk_agrees_cut [OF Cons.prems(1) one False refl] rest] show ?thesis using one False by simp
  qed
qed simp

definition boundary_agrees :: "bytes \<Rightarrow> state \<Rightarrow> scope_tracker \<Rightarrow> bool" where
  "boundary_agrees text st t \<longleftrightarrow>
    (case lexeme_kind st of
       None \<Rightarrow> walk_agrees text st False [] t
     | Some k \<Rightarrow> walk_agrees text st True [] t)"

lemma columns_agree_pending: "columns_agree text ls (t\<lparr>tk_pending := x\<rparr>) = columns_agree text ls t"
  by (simp add: columns_agree_def)

lemma finish_walk_agrees:
  assumes "walk_agrees text st cont seg t" and "wl_state w = st" and "wl_continuing w = cont"
  shows "boundary_agrees text st (finish_walk (Inr (w, seg, t)) s)"
proof -
  obtain m ls raw where run: "literal_run text = (m, ls)" "columns_agree text ls t" "reading st raw m" "suffix raw text"
    and at: "if cont then \<exists>pd. tk_pending t = Some pd \<and> raw = pd_buf pd @ seg \<and> lexeme_kind st = Some (pd_kind pd)
       else tk_pending t = None \<and> raw = seg"
    using assms(1) unfolding walk_agrees_def by blast
  show ?thesis
  proof (cases "lexeme_kind st")
    case None
    then have "\<not> cont" using at by (auto split: if_splits)
    have m: "m = Outside" using run(3) string_states [of st] None by (cases m) (auto simp: reading_def)
    then have "CHR 0x27 \<notin> set seg" "reading st [] m" using run(3) at \<open>\<not> cont\<close> by (simp_all add: reading_def)
    moreover have "sublist seg text" using suffix_imp_sublist [OF run(4)] at \<open>\<not> cont\<close> by simp
    ultimately have "columns_agree text ls (flush_gap t seg (wl_seg_anchor w) s)"
      "tk_pending (flush_gap t seg (wl_seg_anchor w) s) = None"
      using columns_agree_gap [OF run(2), of seg "wl_seg_anchor w" s] at \<open>\<not> cont\<close> by simp_all
    then show ?thesis
      using run(1) \<open>reading st [] m\<close> None assms(2) by (simp add: boundary_agrees_def walk_agrees_def finish_walk_def)
  next
    case (Some k)
    then have "tk_pending (finish_walk (Inr (w, seg, t)) s) \<noteq> None"
      "\<forall>pd. tk_pending (finish_walk (Inr (w, seg, t)) s) = Some pd \<longrightarrow> pd_buf pd = raw \<and> pd_kind pd = k"
      "columns_agree text ls (finish_walk (Inr (w, seg, t)) s)"
      using at assms(2,3) run(2) by (auto simp: finish_walk_def buffer_trailing_def columns_agree_pending split: if_splits)
    then show ?thesis
      using run Some by (auto simp: boundary_agrees_def walk_agrees_def)
  qed
qed

lemma observe_agrees:
  assumes "boundary_agrees text (pda_st p) t" and "cfg_run (cfg_of p) bs = Some (cfg_of q)"
  shows "boundary_agrees (text @ bs) (pda_st q) (observe t bs p s)"
proof -
  let ?cont = "lexeme_kind (pda_st p) \<noteq> None"
  have walk: "walk_agrees text (pda_st p) ?cont [] t" using assms(1) by (auto simp: boundary_agrees_def split: option.splits)
  have "observe t bs p s = finish_walk (seg_walk bs (pda_st p) (pda_stack p) ?cont (first_anchor t (pda_st p)) [] t s) s"
    using walk by (cases "lexeme_kind (pda_st p)")
      (auto simp: observe_seg_walk walk_agrees_def continues_def first_anchor_def flush_pending_def)
  then show ?thesis
    using seg_walk_agrees [OF walk, of "pda_stack p" bs "pda_st q" "pda_stack q" "first_anchor t (pda_st p)" s]
      assms(2) finish_walk_agrees unfolding cfg_of_def by metis
qed

lemma track_tokens_agrees:
  "track_tokens s p t toks = Some (q, u) \<Longrightarrow> boundary_agrees text (pda_st p) t \<Longrightarrow>
    boundary_agrees (text @ concat toks) (pda_st q) u"
proof (induction toks arbitrary: "text" p t)
  case (Cons bs toks)
  then obtain p1 where fd: "feed p bs = (Inr (), p1)" and rest: "track_tokens s p1 (observe t bs p s) toks = Some (q, u)"
    by (auto split: prod.splits sum.splits)
  from fd have "cfg_run (cfg_of p) bs = Some (cfg_of p1)" by (simp add: feed_ok_iff)
  from Cons.IH [OF rest observe_agrees [OF Cons.prems(2) this]] show ?case by simp
qed simp

section \<open>Open calls\<close>

text \<open>The name directly in front of each open delimiter, if there is one.\<close>

fun call_step :: "lexeme option \<times> bytes option list \<Rightarrow> bytes \<times> state \<Rightarrow> lexeme option \<times> bytes option list" where
  "call_step (prev, calls) (bs, pre) =
    (let lx = classify bs in
     if lx = LxWs then (prev, calls)
     else (Some lx,
       if lx = LxOpen then calls @ [case prev of Some (LxIdent f) \<Rightarrow> Some f | _ \<Rightarrow> None]
       else if lx = LxClose then butlast calls
       else calls))"

definition open_calls :: "(bytes \<times> state) list \<Rightarrow> bytes option list" where
  "open_calls evs = snd (foldl call_step (None, []) evs)"

definition SCOPE_METHODS :: "bytes list" where
  "SCOPE_METHODS = REF_METHODS @ ESTABLISHING_METHODS"

text \<open>The methods of the two lists are used as methods: no member, variable or column of such a name stands
  directly in front of a dot, a comparison, a pipe or a closing delimiter.\<close>

fun used_as_methods :: "lexeme option \<Rightarrow> (bytes \<times> state) list \<Rightarrow> bool" where
  "used_as_methods prev [] = True"
| "used_as_methods prev ((bs, pre) # evs) =
    (let lx = classify bs in
     \<not> (lx \<in> {LxDot, LxCmp, LxPipe, LxClose} \<and> list_ex (\<lambda>f. prev = Some (LxIdent f)) SCOPE_METHODS) \<and>
     used_as_methods (if lx = LxWs then prev else Some lx) evs)"

definition call_depths :: "bytes list \<Rightarrow> bytes option list \<Rightarrow> u32 list" where
  "call_depths methods calls =
    map (\<lambda>i. word_of_nat (Suc i)) (filter (\<lambda>i. case calls ! i of Some f \<Rightarrow> List.member methods f | None \<Rightarrow> False) [0..<length calls])"

lemma call_depths_snoc:
  "call_depths methods (calls @ [c]) = call_depths methods calls @
    (case c of Some f \<Rightarrow> if List.member methods f then [word_of_nat (Suc (length calls))] else [] | None \<Rightarrow> [])"
proof -
  have "filter (\<lambda>i. case (calls @ [c]) ! i of Some f \<Rightarrow> List.member methods f | None \<Rightarrow> False) [0..<length calls] =
      filter (\<lambda>i. case calls ! i of Some f \<Rightarrow> List.member methods f | None \<Rightarrow> False) [0..<length calls]"
    by (rule filter_cong) (simp_all add: nth_append)
  then show ?thesis by (simp add: call_depths_def split: option.split)
qed

lemma call_depths_bound:
  "length calls < 2 ^ 32 \<Longrightarrow> d \<in> set (call_depths methods calls) \<Longrightarrow> 0 < unat d \<and> unat d \<le> length calls"
proof -
  assume len: "length calls < 2 ^ 32" and "d \<in> set (call_depths methods calls)"
  then obtain i where "i < length calls" "d = word_of_nat (Suc i)" by (auto simp: call_depths_def simp del: of_nat_Suc)
  then show ?thesis using len unat_word_of_nat_u32 [of "Suc i"] by (simp del: of_nat_Suc)
qed

lemma call_depths_empty:
  "call_depths methods calls = [] \<longleftrightarrow> \<not> (\<exists>f. Some f \<in> set calls \<and> f \<in> set methods)"
  by (force simp: call_depths_def filter_empty_conv in_set_conv_nth split: option.splits)

definition tracks_calls :: "scope_tracker \<Rightarrow> lexeme option \<times> bytes option list \<Rightarrow> bool" where
  "tracks_calls t c \<longleftrightarrow> (\<forall>f \<in> set SCOPE_METHODS. tk_last_ident t = Some f \<longleftrightarrow> fst c = Some (LxIdent f)) \<and>
    unat (tk_depth t) = length (snd c) \<and>
    tk_ref_stack t = call_depths REF_METHODS (snd c) \<and> tk_est_stack t = call_depths ESTABLISHING_METHODS (snd c)"

lemma on_close_last_ident: "tk_last_ident (on_close t) = tk_last_ident t"
proof -
  obtain c e w where rs: "restore_scopes (restore_binders t) = (restore_binders t)
      \<lparr>tk_scope_saves := rev (dropWhile (\<lambda>b. ss_depth b = tk_depth t) (rev (tk_scope_saves t))),
       tk_cur_class := c, tk_rel_explicit := e, tk_saw_tilde_bracket := w\<rparr>"
    using restore_scopes_eq [OF refl, of "restore_binders t"] by (auto simp: restore_binders_eq [OF refl, of t] Let_def)
  show ?thesis by (simp add: on_close_def rs Let_def, simp add: restore_binders_eq [OF refl, of t] Let_def)
qed

definition call_state :: "scope_tracker \<Rightarrow> bytes option \<times> u32 \<times> u32 list \<times> u32 list" where
  "call_state t = (tk_last_ident t, tk_depth t, tk_ref_stack t, tk_est_stack t)"

lemma tracks_calls_cong: "call_state t = call_state u \<Longrightarrow> tracks_calls t c = tracks_calls u c"
  by (simp add: tracks_calls_def call_state_def)

text \<open>An opening delimiter pushes its depth exactly when the name in front of it is in the list.\<close>

lemma call_depths_push:
  assumes "\<forall>f \<in> set SCOPE_METHODS. name = Some f \<longleftrightarrow> prev = Some (LxIdent f)" and "set methods \<subseteq> set SCOPE_METHODS"
    and "c = (case prev of Some (LxIdent f) \<Rightarrow> Some f | _ \<Rightarrow> None)"
  shows "call_depths methods (calls @ [c]) = call_depths methods calls @
    (case name of Some f \<Rightarrow> if List.member methods f then [word_of_nat (Suc (length calls))] else [] | None \<Rightarrow> [])"
proof -
  have "(\<exists>f \<in> set methods. c = Some f) \<longleftrightarrow> (\<exists>f \<in> set methods. name = Some f)"
    using assms by (auto split: option.splits lexeme.splits)
  then show ?thesis unfolding call_depths_snoc by (auto split: option.splits)
qed

lemma tracks_open:
  assumes "tracks_calls t (prev, calls)" and "length calls + 1 < 2 ^ 32"
    and c: "c = (case prev of Some (LxIdent f) \<Rightarrow> Some f | _ \<Rightarrow> None)"
  shows "tracks_calls (on_open t pre) (Some LxOpen, calls @ [c])"
proof -
  have d: "unat (tk_depth t) = length calls"
    and name: "\<forall>f \<in> set SCOPE_METHODS. tk_last_ident t = Some f \<longleftrightarrow> prev = Some (LxIdent f)"
    and stacks: "tk_ref_stack t = call_depths REF_METHODS calls" "tk_est_stack t = call_depths ESTABLISHING_METHODS calls"
    using assms(1) by (simp_all add: tracks_calls_def)
  have inc: "unat (tk_depth t + 1) = Suc (length calls)" using u32_inc [of "tk_depth t"] assms(2) d by simp
  then have here: "tk_depth t + 1 = word_of_nat (Suc (length calls))"
    using assms(2) by (simp add: word_unat_eq_iff unat_word_of_nat_u32 del: of_nat_Suc)
  note push = call_depths_push [OF name _ c]
  have "tk_last_ident (on_open t pre) = None"
    by (simp add: on_open_def enter_method_def Let_def split: option.split)
  moreover have "tk_ref_stack (on_open t pre) = call_depths REF_METHODS (calls @ [c])"
    "tk_est_stack (on_open t pre) = call_depths ESTABLISHING_METHODS (calls @ [c])"
    using stacks here push [of REF_METHODS calls] push [of ESTABLISHING_METHODS calls]
    by (simp_all add: SCOPE_METHODS_def on_open_def enter_method_def Let_def split: option.split)
  ultimately show ?thesis using inc by (simp add: tracks_calls_def on_open_fields)
qed

lemma tracks_close:
  assumes "tracks_calls t (prev, calls @ [c])" and "length calls + 1 < 2 ^ 32"
    and "\<forall>f \<in> set SCOPE_METHODS. prev \<noteq> Some (LxIdent f)"
  shows "tracks_calls (on_close t) (Some LxClose, calls)"
proof -
  have d: "unat (tk_depth t) = Suc (length calls)" "\<forall>f \<in> set SCOPE_METHODS. tk_last_ident t \<noteq> Some f"
    and stacks: "tk_ref_stack t = call_depths REF_METHODS (calls @ [c])" "tk_est_stack t = call_depths ESTABLISHING_METHODS (calls @ [c])"
    using assms(1,3) by (simp_all add: tracks_calls_def)
  have here: "tk_depth t = word_of_nat (Suc (length calls))" 
    using d(1) assms(2) by (simp add: word_unat_eq_iff unat_word_of_nat_u32 del: of_nat_Suc)
  have pop: "(if vec_last (call_depths methods (calls @ [c])) = Some (tk_depth t) then butlast (call_depths methods (calls @ [c]))
      else call_depths methods (calls @ [c])) = call_depths methods calls" for methods
  proof -
    have "vec_last (call_depths methods calls) \<noteq> Some (tk_depth t)"
    proof
      assume "vec_last (call_depths methods calls) = Some (tk_depth t)"
      then have "call_depths methods calls \<noteq> []" "last (call_depths methods calls) = tk_depth t"
        by (simp_all add: vec_last_def split: if_splits)
      then have "tk_depth t \<in> set (call_depths methods calls)" using last_in_set by metis
      then show False using call_depths_bound [of calls "tk_depth t" methods] d(1) assms(2) by simp
    qed
    then show ?thesis by (auto simp: call_depths_snoc here [symmetric] vec_last_def simp del: of_nat_Suc split: option.split)
  qed
  have "unat (saturating_dec (tk_depth t)) = length calls"
    using d(1) by (auto simp: saturating_dec_def unat_minus_one)
  then show ?thesis
    using d(2) pop [of REF_METHODS] pop [of ESTABLISHING_METHODS]
    by (simp only: tracks_calls_def on_close_fields on_close_last_ident stacks fst_conv snd_conv simp_thms option.inject lexeme.distinct)
qed

lemma tracks_calls_dispatch:
  assumes "tracks_calls t (prev, calls)" and "length calls + 1 < 2 ^ 32" and "\<not> (classify bs = LxClose \<and> calls = [])"
    and "used_as_methods prev [(bs, pre)]"
  shows "tracks_calls (dispatch_token t bs pre s) (call_step (prev, calls) (bs, pre))"
proof -
  let ?u = "if classify bs = LxWs then t else fst (handle_lexeme t (classify bs) pre s)"
  have same: "call_state (dispatch_token t bs pre s) = call_state ?u"
    by (simp add: dispatch_token_def call_state_def Let_def split: prod.split)
  have free: "\<forall>f \<in> set SCOPE_METHODS. prev \<noteq> Some (LxIdent f)" if "classify bs \<in> {LxDot, LxCmp, LxPipe, LxClose}"
    using assms(4) that by (auto simp: Let_def list_ex_iff)
  have "tracks_calls ?u (call_step (prev, calls) (bs, pre))"
  proof (cases "classify bs")
    case LxOpen
    then show ?thesis using tracks_open [OF assms(1,2) refl] by (simp add: handle_lexeme_def)
  next
    case LxClose
    then obtain cs c where "calls = cs @ [c]" using assms(3) by (cases calls rule: rev_cases) auto
    then show ?thesis using tracks_close [of t prev cs c] assms(1,2) LxClose free by (simp add: handle_lexeme_def)
  next
    case (LxIdent x)
    then show ?thesis
      using assms(1) by (simp add: tracks_calls_def handle_lexeme_def on_ident_def resolve_member_def Let_def
          split: option.split resolved.split)
  qed (use assms(1) free in \<open>simp_all add: tracks_calls_def handle_lexeme_def on_pipe_def bind_lambda_def on_dot_def on_arrow_def Let_def
      split: option.split\<close>)
  then show ?thesis using tracks_calls_cong [OF same] by simp
qed

lemma call_step_length: "length (snd (call_step c (bs, pre))) = net_depth (classify bs) (length (snd c))"
  by (cases c) (simp add: Let_def net_depth_other)

lemma call_step_prev: "fst (call_step c (bs, pre)) = (if classify bs = LxWs then fst c else Some (classify bs))"
  by (cases c) (simp add: Let_def)

lemma tracks_calls_run:
  assumes "tracks_calls t c" and "nesting (length (snd c)) evs = Some n" and "length (snd c) + length evs < 2 ^ 32"
    and "used_as_methods (fst c) evs"
  shows "tracks_calls (run_lexemes t evs s) (foldl call_step c evs)"
  using assms
proof (induction evs arbitrary: t c)
  case (Cons ev evs)
  obtain bs pre prev calls where ev: "ev = (bs, pre)" and c: "c = (prev, calls)" by (metis prod.collapse)
  have ok: "\<not> (classify bs = LxClose \<and> calls = [])"
    and rest: "nesting (net_depth (classify bs) (length calls)) evs = Some n"
    using Cons.prems(2) by (auto simp: ev c split: if_splits)
  have here: "used_as_methods prev [(bs, pre)]" and later: "used_as_methods (fst (call_step c ev)) evs"
    using Cons.prems(4) unfolding ev call_step_prev by (cases "classify bs = LxWs"; simp add: c Let_def)+
  have len: "length (snd (call_step c ev)) = net_depth (classify bs) (length calls)"
    unfolding ev call_step_length by (simp add: c)
  have "tracks_calls (dispatch_token t bs pre s) (call_step c ev)"
    using tracks_calls_dispatch [OF Cons.prems(1) [unfolded c] _ ok here] Cons.prems(3) by (simp add: ev c)
  moreover have "length (snd (call_step c ev)) + length evs < 2 ^ 32"
    using Cons.prems(3) net_depth_le [of "classify bs" "length calls"] unfolding len by (simp add: c)
  ultimately show ?case using Cons.IH [of _ "call_step c ev", OF _ _ _ later] rest by (simp add: ev len [unfolded ev] del: call_step.simps)
qed simp

section \<open>Properties\<close>

text \<open>C11: No string literal is lost to the columns: whatever tokens the stream is cut into, the columns a row may
  be asked for contain, in the order of the text, the unquoted content of every string literal that a scan of
  the whole text by its quotes finds closed, with doubled quotes read as one; and every other recorded column is
  an identifier that occurs in the text and holds no quote.\<close>

theorem literals_recorded:
  assumes "track_tokens s pda_new tracker_new toks = Some (p, t)"
  shows "subseq (literals_of (concat toks)) (emitted_columns t) \<and>
    (\<forall>x \<in> set (emitted_columns t). x \<in> set (literals_of (concat toks)) \<or>
      (classify x = LxIdent x \<and> CHR 0x27 \<notin> set x \<and> sublist x (concat toks)))"
proof -
  have "boundary_agrees [] (pda_st pda_new) tracker_new"
    by (simp add: boundary_agrees_def pda_new_def)
      (simp add: walk_agrees_def literal_run_def columns_agree_def reading_def tracker_new_def)
  from track_tokens_agrees [OF assms this] show ?thesis
    by (auto simp: boundary_agrees_def walk_agrees_def columns_agree_def name_of_def literals_of_def emitted_columns_def
        split: option.splits)
qed

theorem literals_recorded_witness:
  "case track_tokens shop pda_new tracker_new [''|foo::A.all()->project([x|$x.size], ['' @ [CHR 0x27], ''it'' @ [CHR 0x27], CHR 0x27 # ''s'', CHR 0x27 # ''])''] of
     Some (p, t) \<Rightarrow> subseq [''it'' @ CHR 0x27 # ''s''] (emitted_columns t) | None \<Rightarrow> False"
proof -
  let ?toks = "[''|foo::A.all()->project([x|$x.size], ['' @ [CHR 0x27], ''it'' @ [CHR 0x27], CHR 0x27 # ''s'', CHR 0x27 # ''])'']"
  have "track_tokens shop pda_new tracker_new ?toks \<noteq> None" by code_simp
  then obtain p t where run: "track_tokens shop pda_new tracker_new ?toks = Some (p, t)"
    by (auto simp del: track_tokens.simps)
  have "literals_of (concat ?toks) = [''it'' @ CHR 0x27 # ''s'']" by code_simp
  then show ?thesis using literals_recorded [OF run] unfolding run by simp
qed

text \<open>C10: A string is taken for a column exactly inside the calls that refer to columns: after any nested sequence
  of lexemes in which the names of the two method lists are used as methods (no member, variable or column of such a
  name stands directly in front of a dot, a comparison, a pipe or a closing delimiter), the tracker's two stacks of
  depths answer the same as the names directly in front of the open delimiters: a column is expected when the flag
  of an established relation is set, some enclosing call is one of the methods that refer to columns, and none is one that
  establishes a relation.\<close>

theorem column_argument_tracked:
  assumes "nesting 0 evs = Some n" and "length evs < 2 ^ 32" and "used_as_methods None evs"
    and "u = run_lexemes tracker_new evs s"
  shows "in_column_arg u \<longleftrightarrow> tk_rel_explicit u \<and> (\<exists>f \<in> set REF_METHODS. Some f \<in> set (open_calls evs)) \<and>
    \<not> (\<exists>f \<in> set ESTABLISHING_METHODS. Some f \<in> set (open_calls evs))"
proof -
  have "tracks_calls tracker_new (None, [])" by (simp add: tracks_calls_def tracker_new_def call_depths_def)
  then have "tracks_calls u (foldl call_step (None, []) evs)"
    using tracks_calls_run [of tracker_new "(None, [])" evs n s] assms by simp
  then show ?thesis
    using call_depths_empty [of REF_METHODS "open_calls evs"] call_depths_empty [of ESTABLISHING_METHODS "open_calls evs"]
    by (auto simp: tracks_calls_def in_column_arg_def open_calls_def)
qed

theorem column_argument_tracked_witness:
  "in_column_arg (run_lexemes tracker_new [(''project'', AfterArrow), (''('', InIdent), ('')'', AfterValue), (''->'', AfterValue),
     (''restrict'', AfterArrow), (''('', InIdent)] shop)"
proof -
  let ?evs = "[(''project'', AfterArrow), (''('', InIdent), ('')'', AfterValue), (''->'', AfterValue),
     (''restrict'', AfterArrow), (''('', InIdent)]"
  have "nesting 0 ?evs = Some 1" "used_as_methods None ?evs" "tk_rel_explicit (run_lexemes tracker_new ?evs shop)"
    "list_ex (\<lambda>f. List.member (open_calls ?evs) (Some f)) REF_METHODS"
    "list_all (\<lambda>f. \<not> List.member (open_calls ?evs) (Some f)) ESTABLISHING_METHODS"
    by code_simp+
  then show ?thesis
    using column_argument_tracked [of ?evs 1, OF _ _ _ refl, of shop] by (auto simp: list_ex_iff list_all_iff simp del: run_lexemes_simps)
qed

end
