(* ===== verification/Schema_Guidance.thy ===== *)
theory Schema_Guidance
  imports Session_Props Scope_Typing Scope_Columns
begin

text \<open>
  What schema narrowing gives a host that samples from the mask: the composition of the automaton,
  the scope tracker, the trie rules and the session at every position that names something.  A text
  that the automaton reads inside one lexeme is \<open>spells\<close>; a session that has read some of it is
  \<open>in_name\<close>; every token that spells more of it keeps the session there, and is offered exactly when
  some legal name goes on that way.
\<close>

section \<open>Reading one lexeme\<close>

text \<open>The automaton reads a text from a configuration and, from the first byte on, stays in states of one
  lexeme kind.\<close>

fun spells :: "lex_kind \<Rightarrow> config \<Rightarrow> bytes \<Rightarrow> bool" where
  "spells k c [] \<longleftrightarrow> True"
| "spells k c (b # bs) \<longleftrightarrow>
    (case cfg_step c b of
       None \<Rightarrow> False
     | Some c' \<Rightarrow> lexeme_kind (fst c') = Some k \<and> spells k c' bs)"

lemma spells_run:
  assumes "spells k c bs"
  obtains st fs where "cfg_run c bs = Some (st, fs)" and "bs \<noteq> [] \<Longrightarrow> lexeme_kind st = Some k"
proof -
  have "\<exists>c'. cfg_run c bs = Some c' \<and> (bs \<noteq> [] \<longrightarrow> lexeme_kind (fst c') = Some k)"
    using assms by (induction bs arbitrary: c) (fastforce split: option.splits)+
  then show ?thesis using that by force
qed

lemma spells_append:
  "spells k c (xs @ ys) \<longleftrightarrow> spells k c xs \<and> (\<forall>c'. cfg_run c xs = Some c' \<longrightarrow> spells k c' ys)"
  by (induction xs arbitrary: c) (auto split: option.split)

lemma spells_rest: "spells k c (xs @ ys) \<Longrightarrow> cfg_run c xs = Some c' \<Longrightarrow> spells k c' ys"
  by (simp add: spells_append)

lemma spells_prefix: "spells k c ys \<Longrightarrow> prefix xs ys \<Longrightarrow> spells k c xs"
  by (auto simp: prefix_def spells_append)

text \<open>The tracker's walk over such a text only gathers it.\<close>

lemma seg_walk_spells:
  assumes "spells k (st, fs) bs" and "lexeme_kind st = Some k" and "cfg_run (st, fs) bs = Some (st', fs')"
  shows "seg_walk bs st fs cont anchor seg t s =
    Inr (\<lparr>wl_state = st', wl_stack = fs', wl_continuing = cont, wl_seg_anchor = anchor, wl_seg_start = 0\<rparr>,
      seg @ bs, t)"
  using assms by (induction bs arbitrary: st fs seg) (auto split: option.splits)

text \<open>A dot is read inside an identifier or into a string from nowhere.\<close>

lemma dot_leaves_lexeme:
  "cfg_step (st, fs) (CHR ''.'') = Some c \<Longrightarrow> lexeme_kind (fst c) \<noteq> Some LkIdent \<and>
    (lexeme_kind st = None \<longrightarrow> lexeme_kind (fst c) \<noteq> Some LkStr)"
  by (cases st) (auto simp: cfg_step_def step_defs hub_defs byte_eval split: option.splits frame.splits if_splits)

section \<open>Standing inside a name\<close>

definition ident_text :: "bytes \<Rightarrow> bool" where
  "ident_text xs \<longleftrightarrow> (case xs of [] \<Rightarrow> True | b # bs \<Rightarrow> is_ident_start b \<and> list_all is_ident_tail bs)"

text \<open>The positions that name something, and the kind of lexeme that names it.\<close>

definition name_position :: "l2_position \<Rightarrow> bool" where
  "name_position pos \<longleftrightarrow> pos \<in> {L2SourceIdent, L2Column, L2RelationColumn} \<or> (\<exists>cls. pos = L2Member cls)"

definition name_kind :: "l2_position \<Rightarrow> lex_kind" where
  "name_kind pos = (if pos = L2Column then LkStr else LkIdent)"

text \<open>\<open>x\<close> has been emitted since the session left the configuration \<open>c\<close>, which opens the position.\<close>

definition in_name :: "config \<Rightarrow> l2_position \<Rightarrow> bytes \<Rightarrow> decoder_session \<Rightarrow> bool" where
  "in_name c pos x se \<longleftrightarrow>
    lexeme_kind (fst c) = None \<and> spells (name_kind pos) c x \<and> cfg_run c x = Some (cfg_of (se_pda se)) \<and>
    (if x = [] then tk_pending (se_tracker se) = None \<and> opening_position (se_tracker se) (fst c) = pos
     else tk_pending (se_tracker se) =
       Some \<lparr>pd_kind = name_kind pos, pd_buf = x, pd_anchor = fst c, pd_pos = pos\<rparr>)"

text \<open>All name sets a rule can consult leave its trie room for 32-bit ids.\<close>

definition schema_fits :: "schema \<Rightarrow> bytes list \<Rightarrow> bool" where
  "schema_fits s columns \<longleftrightarrow> (\<forall>cls. names_fit (member_names s cls)) \<and> names_fit columns \<and>
    names_fit (map quote columns) \<and> names_fit (source_paths s @ [LET_KEYWORD])"

lemma ident_text_all: "ident_text xs \<Longrightarrow> list_all is_ident_tail xs"
  by (cases xs) (auto simp: ident_text_def ident_start_tail)

lemma in_name_state:
  assumes "in_name c pos x se" and "x \<noteq> []"
  shows "lexeme_kind (pda_st (se_pda se)) = Some (name_kind pos)"
proof -
  have "spells (name_kind pos) c x" "cfg_run c x = Some (cfg_of (se_pda se))"
    using assms(1) by (simp_all add: in_name_def)
  then show ?thesis using assms(2) by (elim spells_run) (simp add: cfg_of_def)
qed

lemma in_name_rest:
  "in_name c pos x se \<Longrightarrow> spells k c (x @ bs) \<Longrightarrow> spells k (cfg_of (se_pda se)) bs"
  by (auto simp: in_name_def dest: spells_rest)

lemma in_name_position: "in_name c pos x se \<Longrightarrow> position (se_tracker se) (pda_st (se_pda se)) = pos"
  using in_name_state [of c pos x se] by (auto simp: in_name_def position_def cfg_of_def split: if_splits)

lemma in_name_prefix: "in_name c pos x se \<Longrightarrow> narrow_prefix (se_tracker se) = x"
  by (auto simp: in_name_def narrow_prefix_def split: if_splits)

lemma observe_name:
  assumes "in_name c pos x se" and "spells (name_kind pos) c (x @ bs)" and "name_position pos"
  shows "observe (se_tracker se) bs (se_pda se) s =
    (if bs = [] then se_tracker se
     else (se_tracker se)\<lparr>tk_pending :=
       Some \<lparr>pd_kind = name_kind pos, pd_buf = x @ bs, pd_anchor = fst c, pd_pos = pos\<rparr>\<rparr>)"
proof -
  note rest = in_name_rest [OF assms(1,2)]
  obtain st fs where here: "cfg_of (se_pda se) = (pda_st (se_pda se), pda_stack (se_pda se))"
    and run: "cfg_run (cfg_of (se_pda se)) bs = Some (st, fs)" "bs \<noteq> [] \<Longrightarrow> lexeme_kind st = Some (name_kind pos)"
    using spells_run [OF rest] by (auto simp: cfg_of_def)
  show ?thesis
  proof (cases "x = []")
    case False
    then have at: "tk_pending (se_tracker se) =
        Some \<lparr>pd_kind = name_kind pos, pd_buf = x, pd_anchor = fst c, pd_pos = pos\<rparr>"
      and kind: "lexeme_kind (pda_st (se_pda se)) = Some (name_kind pos)"
      using assms(1) in_name_state [OF assms(1)] by (simp_all add: in_name_def)
    have kind2: "lexeme_kind st = Some (name_kind pos)"
      using run kind by (cases "bs = []") (simp_all add: here)
    show ?thesis
      using run(1) at kind kind2
      by (simp add: observe_seg_walk continues_def first_anchor_def here seg_walk_spells [OF rest [unfolded here] kind]
          finish_walk_def buffer_trailing_def tracker_pending_idem)
  next
    case True
    then have at: "tk_pending (se_tracker se) = None" "opening_position (se_tracker se) (fst c) = pos"
      and c: "cfg_of (se_pda se) = c" "lexeme_kind (fst c) = None"
      using assms(1) by (auto simp: in_name_def)
    have c': "pda_st (se_pda se) = fst c" "pda_stack (se_pda se) = snd c" using c(1) by (auto simp: cfg_of_def)
    show ?thesis
    proof (cases bs)
      case Nil
      then show ?thesis
        using c(2) by (simp add: observe_seg_walk continues_def flush_pending_def at c' finish_walk_def)
    next
      case (Cons b bs')
      obtain st1 fs1 where one: "cfg_step c b = Some (st1, fs1)" "lexeme_kind st1 = Some (name_kind pos)"
        "spells (name_kind pos) (st1, fs1) bs'"
        using rest by (auto simp: Cons c split: option.splits)
      have "cfg_run (st1, fs1) bs' = Some (st, fs)" using run(1) one(1) by (simp add: Cons c)
      then show ?thesis
        using one c(2) run(2) at assms(3)
        by (simp add: observe_seg_walk continues_def flush_pending_def c' Cons True seg_walk_spells [OF one(3,2)]
            finish_walk_def buffer_trailing_def name_position_def split: l2_position.split) auto
    qed
  qed
qed

section \<open>The mask inside a name\<close>

lemma nav_positions:
  "nav_from_var t var = Some p \<Longrightarrow> name_position p"
  "nav_from_member t m s = Some p \<Longrightarrow> name_position p"
  "fused_nav_position t s = Some p \<Longrightarrow> name_position p"
  by (auto simp: nav_from_var_def nav_from_member_def fused_nav_position_def name_position_def
      split: if_splits option.splits resolved.splits)

lemma name_position_fits:
  "schema_fits s columns \<Longrightarrow> name_position pos \<Longrightarrow> names_fit (names_at s columns pos)"
  by (auto simp: schema_fits_def name_position_def)

lemma in_name_names_ok:
  assumes "in_name c pos x se" and "name_position pos" and "se_schema se = Some s"
    and "schema_fits s (emitted_columns (se_tracker se))"
  shows "names_ok se"
  using assms name_position_fits [OF assms(4)] nav_positions(3) [of "se_tracker se" s]
  by (auto simp: names_ok_def in_name_position split: option.split)

text \<open>The fused rule has no say inside a name: it looks at tokens that begin with a dot.\<close>

lemma fused_silent:
  assumes "in_name c pos x se" and "spells (name_kind pos) c (x @ [b])"
    and "fused_nav_position (se_tracker se) s = Some fused"
  shows "fused_keeps_at s columns fused (b # bs)"
proof -
  have b: "spells (name_kind pos) (cfg_of (se_pda se)) [b]" by (rule in_name_rest [OF assms(1,2)])
  have "b \<noteq> CHR ''.''"
  proof
    assume dot: "b = CHR ''.''"
    obtain c' where step: "cfg_step (pda_st (se_pda se), pda_stack (se_pda se)) (CHR ''.'') = Some c'"
      and kind: "lexeme_kind (fst c') = Some (name_kind pos)"
      using b by (auto simp: dot cfg_of_def split: option.splits)
    note leaves = dot_leaves_lexeme [OF step]
    have "name_kind pos = LkStr" using leaves kind by (auto simp: name_kind_def split: if_splits)
    moreover have "x = [] \<Longrightarrow> lexeme_kind (pda_st (se_pda se)) = None"
      using assms(1) by (auto simp: in_name_def cfg_of_def)
    ultimately have "x \<noteq> []" using leaves kind by auto
    then show False
      using assms(1,3) \<open>name_kind pos = LkStr\<close> by (simp add: in_name_def fused_nav_position_def)
  qed
  then show ?thesis
    by (auto simp: fused_keeps_at_def fused_rule_def fused_post_dot_def split: l2_position.split)
qed

definition name_trie_kind :: "l2_position \<Rightarrow> trie_kind" where
  "name_trie_kind pos = (if pos = L2Column then TkStr else TkIdent)"

lemma name_token_kept:
  assumes "in_name c pos x se" and "name_position pos" and "se_schema se = Some s"
    and "bs \<noteq> []" and "spells (name_kind pos) c (x @ [hd bs])"
    and "x = [] \<or> name_prefix (names_at s (emitted_columns (se_tracker se)) pos) x"
  shows "overlay_keeps se bs \<longleftrightarrow> \<not> is_candidate bs (name_trie_kind pos) (x \<noteq> []) \<or>
    reaches (names_at s (emitted_columns (se_tracker se)) pos) (x @ bs)"
proof -
  let ?cols = "emitted_columns (se_tracker se)"
  have "keeps_at s ?cols pos x bs \<longleftrightarrow> name_rule (names_at s ?cols pos) (name_trie_kind pos) x bs"
    using assms(2,6) by (auto simp: keeps_at_def name_constraint_def name_position_def name_trie_kind_def)
  moreover have "fused_keeps_at s ?cols fused bs" if "fused_nav_position (se_tracker se) s = Some fused" for fused
    using fused_silent [OF assms(1,5) that] assms(4) by (cases bs) simp_all
  ultimately show ?thesis
    using assms(3) by (auto simp: overlay_keeps_def in_name_position [OF assms(1)] in_name_prefix [OF assms(1)]
        name_rule_def split: option.split)
qed

lemma empty_token_kept:
  assumes "in_name c pos x se" and "name_position pos"
    and "x = [] \<or> name_prefix (names_at s (emitted_columns (se_tracker se)) pos) x"
  shows "overlay_keeps se []"
  using assms(2,3)
  by (auto simp: overlay_keeps_def in_name_position [OF assms(1)] in_name_prefix [OF assms(1)] keeps_at_def
      name_constraint_def name_rule_def is_candidate_def name_position_def fused_keeps_at_def fused_rule_def
      fused_post_dot_def reaches_def split: option.split l2_position.split)

lemma extends_run: "extends p bs \<longleftrightarrow> cfg_run (cfg_of p) bs \<noteq> None"
proof
  assume "extends p bs"
  then show "cfg_run (cfg_of p) bs \<noteq> None"
    by (cases "feed p bs") (auto simp: extends_feed feed_ok_iff)
next
  assume "cfg_run (cfg_of p) bs \<noteq> None"
  then obtain st fs where "cfg_run (cfg_of p) bs = Some (cfg_of \<lparr>pda_st = st, pda_stack = fs\<rparr>)"
    by (auto simp: cfg_of_def)
  then show "extends p bs" by (simp add: extends_feed flip: feed_ok_iff)
qed

text \<open>The bit of a token that goes on with the name.\<close>

lemma name_token_bit:
  assumes ok: "session_ok g se" and name: "in_name c pos x se" "name_position pos" "se_schema se = Some s"
    and fits: "schema_fits s (emitted_columns (se_tracker se))"
    and tok: "unat tok < vocab_len (cg_vocab g)" "bs = token_bytes (cg_vocab g) tok"
    and read: "bs \<noteq> [] \<Longrightarrow> spells (name_kind pos) c (x @ [hd bs])" "cfg_run (cfg_of (se_pda se)) bs \<noteq> None"
    and way: "x = [] \<or> name_prefix (names_at s (emitted_columns (se_tracker se)) pos) x"
  shows "bm_test (fst (allowed_mask se g)) tok \<longleftrightarrow> bs = [] \<or> \<not> is_candidate bs (name_trie_kind pos) (x \<noteq> []) \<or>
      reaches (names_at s (emitted_columns (se_tracker se)) pos) (x @ bs)"
proof -
  obtain m se1 g1 where run: "allowed_mask se g = (m, se1, g1)" by (metis prod.collapse)
  have small: "vocab_len (cg_vocab g) + 1 < 2 ^ 32" using ok by (simp add: session_ok_def)
  have "tok \<noteq> eos_bit g" using tok(1) eos_laws(1) [OF small] by auto
  moreover have "names_ok se" by (rule in_name_names_ok [OF name fits])
  moreover have "syntactic g (se_pda se) tok"
    using read(2) tok by (simp add: syntactic_def extends_run)
  ultimately have "bm_test m tok \<longleftrightarrow> overlay_keeps se bs"
    using allowed_mask_laws(1) [OF ok run] tok(2) by auto
  then show ?thesis
    using name_token_kept [OF name _ read(1) way] empty_token_kept [OF name(1,2) way] run by (cases "bs = []") auto
qed

lemma live_token_accepted:
  assumes "session_ok g se" and "unat tok < vocab_len (cg_vocab g)"
    and "cfg_run (cfg_of (se_pda se)) (token_bytes (cg_vocab g) tok) \<noteq> None"
    and "allowed_mask se g = (m, se1, g1)"
  shows "fst (accept_token se1 g1 tok) = Inr ()"
proof -
  note laws = allowed_mask_laws [OF assms(1,4)]
  have small: "vocab_len (cg_vocab g) + 1 < 2 ^ 32" using assms(1) by (simp add: session_ok_def)
  have "tok \<noteq> eos_bit g1" using assms(2) eos_laws(1) [OF small] eos_bit_vocab [OF laws(3)] by auto
  then show ?thesis using assms(2,3) by (simp add: accept_token_Inr_iff laws extends_run)
qed

text \<open>A token that the mask offers and that spells more of the name, committed.\<close>

lemma name_token_step:
  assumes ok: "session_ok g se" and name: "in_name c pos x se" "name_position pos" "se_schema se = Some s"
    and tok: "unat tok < vocab_len (cg_vocab g)" "bs = token_bytes (cg_vocab g) tok"
    and read: "spells (name_kind pos) c (x @ bs)"
    and run: "allowed_mask se g = (m, se1, g1)"
  shows "\<exists>se2. accept_token se1 g1 tok = (Inr (), se2) \<and> session_ok g1 se2 \<and> cg_vocab g1 = cg_vocab g \<and>
      se_schema se2 = Some s \<and> emitted_columns (se_tracker se2) = emitted_columns (se_tracker se) \<and>
      in_name c pos (x @ bs) se2"
proof -
  note laws = allowed_mask_laws [OF ok run]
  have small: "vocab_len (cg_vocab g) + 1 < 2 ^ 32" using ok by (simp add: session_ok_def)
  have ne: "tok \<noteq> eos_bit g" using tok(1) eos_laws(1) [OF small] by auto
  have eos1: "eos_bit g1 = eos_bit g" using eos_bit_vocab [OF laws(3)] by simp
  obtain c' where c': "cfg_run (cfg_of (se_pda se)) bs = Some c'"
    using spells_run [OF in_name_rest [OF name(1) read]] by metis
  then obtain se2 where acc: "accept_token se1 g1 tok = (Inr (), se2)"
    using live_token_accepted [OF ok tok(1) _ run] tok(2) by (metis prod.collapse option.distinct(1))
  have "vocab_bytes (cg_vocab g) tok = Some bs"
    using tok vocab_bytes_eq_None [of "cg_vocab g" tok]
    by (cases "vocab_bytes (cg_vocab g) tok") (simp_all add: vocab_bytes_token)
  then have r: "feed (se_pda se) bs = (Inr (), se_pda se2)" "se_schema se2 = Some s"
    "se_tracker se2 = observe (se_tracker se) bs (se_pda se) s"
    using accept_token_result [OF acc] ne name(3) by (auto simp: laws eos1)
  have "cfg_run (cfg_of (se_pda se)) bs = Some (cfg_of (se_pda se2))" using r(1) by (simp add: feed_ok_iff)
  then have "in_name c pos (x @ bs) se2"
    using name(1) read r(3) observe_name [OF name(1) read name(2), of s]
    by (auto simp: in_name_def cfg_run_append)
  moreover have "emitted_columns (se_tracker se2) = emitted_columns (se_tracker se)"
    using r(3) observe_name [OF name(1) read name(2), of s] by (simp add: emitted_columns_def)
  ultimately show ?thesis
    using acc r(2) accept_token_ok [OF laws(2), of tok] laws(3) by auto
qed

text \<open>A host that samples the tokens of a name, one after the other.\<close>

lemma name_prefix_append: "name_prefix names (xs @ ys) \<Longrightarrow> name_prefix names xs"
  by (auto simp: name_prefix_iff dest: append_prefixD)

definition on_the_way :: "schema \<Rightarrow> bytes list \<Rightarrow> l2_position \<Rightarrow> bytes \<Rightarrow> bool" where
  "on_the_way s columns pos xs \<longleftrightarrow> xs = [] \<or> name_prefix (names_at s columns pos) xs"

lemma on_the_way_append: "on_the_way s columns pos (xs @ ys) \<Longrightarrow> on_the_way s columns pos xs"
  using name_prefix_append by (auto simp: on_the_way_def)

text \<open>For texts that are on the way to a name, and for identifiers, the bit is the question whether the
  text stays on the way.\<close>

lemma plain_token_bit:
  assumes "session_ok g se" and "in_name c pos x se" "name_position pos" "se_schema se = Some s"
    and "schema_fits s (emitted_columns (se_tracker se))"
    and "unat tok < vocab_len (cg_vocab g)" "bs = token_bytes (cg_vocab g) tok"
    and "spells (name_kind pos) c (x @ bs)"
    and "on_the_way s (emitted_columns (se_tracker se)) pos x"
    and "on_the_way s (emitted_columns (se_tracker se)) pos (x @ bs) \<or>
      pos \<noteq> L2Column \<and> list_all is_ident_tail (x @ bs)"
  shows "bm_test (fst (allowed_mask se g)) tok \<longleftrightarrow> on_the_way s (emitted_columns (se_tracker se)) pos (x @ bs)"
proof -
  let ?ns = "names_at s (emitted_columns (se_tracker se)) pos"
  have alive: "cfg_run (cfg_of (se_pda se)) bs \<noteq> None"
    using spells_run [OF in_name_rest [OF assms(2,8)]] by (metis option.distinct(1))
  have first: "bs \<noteq> [] \<Longrightarrow> spells (name_kind pos) c (x @ [hd bs])"
    using assms(8) by (cases bs) (auto intro: spells_prefix [OF assms(8)])
  have "x @ bs \<noteq> [] \<Longrightarrow> reaches ?ns (x @ bs) \<longleftrightarrow> name_prefix ?ns (x @ bs)"
    and "bs \<noteq> [] \<Longrightarrow> is_candidate bs (name_trie_kind pos) (x \<noteq> [])"
    if "pos \<noteq> L2Column" "list_all is_ident_tail (x @ bs)"
  proof -
    have "\<not> name_done ?ns (x @ bs)" using that(2) by (auto simp: name_done_nth list_all_length)
    then show "x @ bs \<noteq> [] \<Longrightarrow> reaches ?ns (x @ bs) \<longleftrightarrow> name_prefix ?ns (x @ bs)" by (auto simp: reaches_def)
    show "bs \<noteq> [] \<Longrightarrow> is_candidate bs (name_trie_kind pos) (x \<noteq> [])"
      using that by (cases bs) (simp_all add: is_candidate_def name_trie_kind_def)
  qed
  then show ?thesis
    using name_token_bit [OF assms(1-7) first alive] assms(9,10)
    by (cases "bs = []") (auto simp: on_the_way_def reaches_def)
qed

lemma guided_in_name:
  assumes "session_ok g se" and "in_name c pos x se" and "name_position pos" and "se_schema se = Some s"
    and "schema_fits s cols" and "cols = emitted_columns (se_tracker se)"
    and "\<forall>t \<in> set toks. unat t < vocab_len (cg_vocab g)"
    and "spells (name_kind pos) c (x @ text_of g toks)" and "on_the_way s cols pos x"
    and "on_the_way s cols pos (x @ text_of g toks) \<or>
      pos \<noteq> L2Column \<and> list_all is_ident_tail (x @ text_of g toks)"
  shows "case guided g se toks of
      None \<Rightarrow> \<not> on_the_way s cols pos (x @ text_of g toks)
    | Some (g', se') \<Rightarrow> on_the_way s cols pos (x @ text_of g toks) \<and> session_ok g' se' \<and>
        cg_vocab g' = cg_vocab g \<and> se_schema se' = Some s \<and> cols = emitted_columns (se_tracker se') \<and>
        in_name c pos (x @ text_of g toks) se'"
  using assms
proof (induction toks arbitrary: g se x)
  case Nil
  then show ?case by (simp add: text_of_def)
next
  case (Cons tok toks)
  let ?bs = "token_bytes (cg_vocab g) tok"
  obtain m se1 g1 where run: "allowed_mask se g = (m, se1, g1)" by (metis prod.collapse)
  have spell: "x @ text_of g (tok # toks) = (x @ ?bs) @ text_of g toks" by (simp add: text_of_def)
  have id: "unat tok < vocab_len (cg_vocab g)" using Cons.prems(7) by simp
  have read: "spells (name_kind pos) c (x @ ?bs)"
    by (rule spells_prefix [OF Cons.prems(8)]) (simp add: spell)
  note shorter = on_the_way_append [of s cols pos "x @ ?bs" "text_of g toks"]
  have plain: "on_the_way s cols pos (x @ ?bs) \<or> pos \<noteq> L2Column \<and> list_all is_ident_tail (x @ ?bs)"
    using Cons.prems(10) shorter by (auto simp: spell)
  have bit: "bm_test m tok \<longleftrightarrow> on_the_way s cols pos (x @ ?bs)"
    using plain_token_bit [OF Cons.prems(1-4) _ id refl read] Cons.prems(5,6,9) plain run by simp
  show ?case
  proof (cases "bm_test m tok")
    case False
    then show ?thesis using bit shorter by (auto simp: run spell)
  next
    case True
    obtain se2 where acc: "accept_token se1 g1 tok = (Inr (), se2)" and ok2: "session_ok g1 se2"
      "cg_vocab g1 = cg_vocab g" "se_schema se2 = Some s" "in_name c pos (x @ ?bs) se2"
      and cols2: "cols = emitted_columns (se_tracker se2)"
      using name_token_step [OF Cons.prems(1-4) id refl read run] Cons.prems(6) by auto
    have same: "text_of g1 toks = text_of g toks" using ok2(2) by (simp add: text_of_def)
    have "guided g se (tok # toks) = guided g1 se2 toks" using True by (simp add: run acc)
    then show ?thesis
      using Cons.IH [OF ok2(1,4) Cons.prems(3) ok2(3) Cons.prems(5) cols2, unfolded same ok2(2), folded spell]
        Cons.prems(7,8,10) True bit
      by (simp only:) simp
  qed
qed

lemma in_name_opens:
  assumes "tk_pending (se_tracker se) = None" and "lexeme_kind (pda_st (se_pda se)) = None"
  shows "in_name (cfg_of (se_pda se)) (position (se_tracker se) (pda_st (se_pda se))) [] se"
  using assms by (simp add: in_name_def position_def cfg_of_def)

lemma guided_append: "guided g se (xs @ ys) =
    (case guided g se xs of None \<Rightarrow> None | Some (g', se') \<Rightarrow> guided g' se' ys)"
  by (induction xs arbitrary: g se) (auto split: prod.split sum.split)

text \<open>Identifiers are read inside one lexeme after a dot.\<close>

lemma spells_ident_tail: "list_all is_ident_tail bs \<Longrightarrow> spells LkIdent (InIdent, fs) bs"
  by (induction bs) (simp_all add: cfg_step_def step_InIdent_def)

lemma spells_ident: "ident_text bs \<Longrightarrow> spells LkIdent (AfterDot, fs) bs"
proof (cases bs)
  case (Cons b bs')
  moreover assume "ident_text bs"
  ultimately have b: "is_ident_start b" and rest: "list_all is_ident_tail bs'" by (simp_all add: ident_text_def)
  have "\<not> is_ws b" using b by (auto simp: is_ws_def WS_def is_ident_start_def byte_class_defs)
  then show ?thesis using b spells_ident_tail [OF rest] by (simp add: Cons cfg_step_def step_AfterDot_def)
qed simp

text \<open>\<open>xs\<close> is the whole name \<open>nm\<close> and at least one byte more, which belongs to no identifier and no name.\<close>

definition finishes :: "bytes list \<Rightarrow> bytes \<Rightarrow> bytes \<Rightarrow> bool" where
  "finishes names nm xs \<longleftrightarrow> prefix nm xs \<and> length nm < length xs \<and> \<not> is_ident_tail (xs ! length nm) \<and>
    \<not> name_prefix names (take (Suc (length nm)) xs)"

lemma finishes_done: "finishes names nm xs \<Longrightarrow> nm \<in> set names \<Longrightarrow> name_done names xs"
  by (auto simp: finishes_def name_done_nth prefix_def)

lemma finishing_token:
  assumes "session_ok g se" and "in_name c pos x se" and "name_position pos" and "se_schema se = Some s"
    and "schema_fits s (emitted_columns (se_tracker se))" and "unat tok < vocab_len (cg_vocab g)"
    and "bs = token_bytes (cg_vocab g) tok" and "names = names_at s (emitted_columns (se_tracker se)) pos"
    and "nm \<in> set names" and "spells (name_kind pos) c nm" and "prefix x nm" and "x \<noteq> nm"
    and "finishes names nm (x @ bs)" and "cfg_run c (x @ bs) \<noteq> None"
  shows "guided g se [tok] \<noteq> None"
proof -
  obtain y ys where nm: "nm = x @ y # ys" using assms(11,12) by (metis prefixE append_Nil2 neq_Nil_conv)
  have bs: "bs \<noteq> []" "hd bs = y" using assms(13) by (auto simp: nm finishes_def prefix_def)
  have first: "spells (name_kind pos) c (x @ [hd bs])"
    by (rule spells_prefix [OF assms(10)]) (simp add: nm bs)
  have alive: "cfg_run (cfg_of (se_pda se)) bs \<noteq> None"
    using assms(2,14) by (auto simp: in_name_def cfg_run_append)
  have way: "x = [] \<or> name_prefix (names_at s (emitted_columns (se_tracker se)) pos) x"
    using assms(8,9,11) by (auto simp: name_prefix_iff)
  have "bm_test (fst (allowed_mask se g)) tok"
    using name_token_bit [OF assms(1-7) first alive way] finishes_done [OF assms(13,9)] assms(8)
    by (simp add: reaches_def)
  moreover obtain m se1 g1 where run: "allowed_mask se g = (m, se1, g1)" by (metis prod.collapse)
  moreover have "fst (accept_token se1 g1 tok) = Inr ()"
    using live_token_accepted [OF assms(1,6) _ run] alive assms(7) by simp
  ultimately show ?thesis by (auto split: prod.split sum.split)
qed

text \<open>So is a class path where a source is expected, and a quoted column, whatever its bytes, where a value is.\<close>

lemma spells_source_tail:
  "list_all is_ident_tail bs \<Longrightarrow> spells LkIdent (InSourceIdent, fs) (bs @ ys) \<longleftrightarrow> spells LkIdent (InSourceIdent, fs) ys"
  by (induction bs) (simp_all add: cfg_step_def step_InSourceIdent_def)

definition class_path :: "bytes list \<Rightarrow> bytes" where
  "class_path ids = (case ids of [] \<Rightarrow> [] | i # is \<Rightarrow> i @ concat (map ((@) ''::'') is))"

lemma spells_segment:
  assumes "ident_text i" and "i \<noteq> []" and "st \<in> {ExpectSource, SourceColon2}"
  shows "spells LkIdent (st, fs) (i @ ys) \<longleftrightarrow> spells LkIdent (InSourceIdent, fs) ys"
proof -
  obtain b bs where i: "i = b # bs" using assms(2) by (cases i) simp_all
  then have b: "is_ident_start b" and bs: "list_all is_ident_tail bs" using assms(1) by (simp_all add: ident_text_def)
  have "\<not> is_ws b" using b by (auto simp: is_ws_def WS_def is_ident_start_def byte_class_defs)
  then show ?thesis
    using b assms(3) spells_source_tail [OF bs]
    by (auto simp: i cfg_step_def step_ExpectSource_def step_SourceColon2_def)
qed

lemma spells_class_path:
  assumes "\<forall>i \<in> set ids. ident_text i \<and> i \<noteq> []"
  shows "spells LkIdent (ExpectSource, fs) (class_path ids)"
proof -
  have "spells LkIdent (InSourceIdent, fs) (concat (map ((@) ''::'') is))"
    if "\<forall>i \<in> set is. ident_text i \<and> i \<noteq> []" for "is"
    using that
    by (induction "is") (simp_all add: cfg_step_def step_InSourceIdent_def step_SourceColon_def spells_segment byte_eval)
  then show ?thesis using assms by (cases ids) (simp_all add: class_path_def spells_segment)
qed

lemma spells_string: "spells LkStr (InStrLit False, fs) (quote_body c @ [CHR 0x27])"
  by (induction c) (simp_all add: cfg_step_def step_InStrLit_def)

lemma spells_quote: "st \<in> {ExpectValue, ExpectValueReq} \<Longrightarrow> spells LkStr (st, fs) (quote c)"
  using spells_string [of fs c] hub_quote by (auto simp: quote_def cfg_step_def)

section \<open>Properties\<close>

text \<open>C3: At a navigation dot the schema is enforced letter by letter, and exactly: from a session whose
  automaton stands after a dot over a class of the schema, or over a relation row, a host that
  samples from the masks can emit an identifier, cut into tokens in any way, exactly when it
  begins a legal member of the class, or an emitted column.  So no phantom name is ever begun, and
  no tokenization of a legal name is ever masked.\<close>

theorem dot_names_exact:
  assumes "session_ok g se" and "se_schema se = Some s" and "schema_fits s (emitted_columns (se_tracker se))"
    and "pda_st (se_pda se) = AfterDot" and "tk_pending (se_tracker se) = None"
    and "position (se_tracker se) AfterDot \<noteq> L2None"
    and "\<forall>t \<in> set toks. unat t < vocab_len (cg_vocab g)"
    and "text_of g toks \<noteq> []" and "ident_text (text_of g toks)"
  shows "guided g se toks \<noteq> None \<longleftrightarrow>
    (\<exists>nm \<in> set (names_at s (emitted_columns (se_tracker se)) (position (se_tracker se) AfterDot)).
      prefix (text_of g toks) nm)"
proof -
  let ?pos = "position (se_tracker se) AfterDot"
  have pos: "name_position ?pos" "?pos \<noteq> L2Column"
    using assms(6) by (auto simp: name_position_def position_def opening_position_def split: if_splits option.splits)
  have start: "in_name (cfg_of (se_pda se)) ?pos [] se"
    using in_name_opens [OF assms(5)] assms(4) by simp
  have "spells (name_kind ?pos) (cfg_of (se_pda se)) (text_of g toks)"
    using spells_ident [OF assms(9)] assms(4) pos(2) by (simp add: name_kind_def cfg_of_def)
  then show ?thesis
    using guided_in_name [OF assms(1) start pos(1) assms(2,3) refl assms(7)] assms(8) pos(2)
      ident_text_all [OF assms(9)]
    by (auto simp: on_the_way_def name_prefix_iff split: option.splits)
qed

text \<open>C4: A legal name is never masked, at any position that names something: where the schema rules ask for a
  source class, a member, a quoted column or a bare one, every tokenization of every legal name that
  the automaton reads there as one lexeme can be sampled, from its first fragment on; and a last
  token may run past the end of the name into whatever the automaton allows there, as long as what
  follows cannot belong to an identifier or to a longer legal name.\<close>

theorem legal_name_never_masked:
  assumes "session_ok g se" and "se_schema se = Some s" and "schema_fits s (emitted_columns (se_tracker se))"
    and "tk_pending (se_tracker se) = None" and "lexeme_kind (pda_st (se_pda se)) = None"
    and "pos = position (se_tracker se) (pda_st (se_pda se))" and "name_position pos"
    and "names = names_at s (emitted_columns (se_tracker se)) pos" and "nm \<in> set names"
    and "spells (name_kind pos) (cfg_of (se_pda se)) nm"
    and "\<forall>t \<in> set (toks @ [tok]). unat t < vocab_len (cg_vocab g)" and "prefix (text_of g toks) nm"
  shows "guided g se toks \<noteq> None \<and>
    (text_of g toks \<noteq> nm \<and> finishes names nm (text_of g (toks @ [tok])) \<and>
       cfg_run (cfg_of (se_pda se)) (text_of g (toks @ [tok])) \<noteq> None \<longrightarrow>
     guided g se (toks @ [tok]) \<noteq> None)"
proof -
  have start: "in_name (cfg_of (se_pda se)) pos [] se" using in_name_opens [OF assms(4,5)] assms(6) by simp
  have way: "on_the_way s (emitted_columns (se_tracker se)) pos (text_of g toks)"
    using assms(8,9,12) by (auto simp: on_the_way_def name_prefix_iff)
  have ids: "\<forall>t \<in> set toks. unat t < vocab_len (cg_vocab g)" "unat tok < vocab_len (cg_vocab g)"
    using assms(11) by simp_all
  note reached = guided_in_name [OF assms(1) start assms(7) assms(2,3) refl ids(1), simplified,
      OF spells_prefix [OF assms(10,12)]]
  obtain g' se' where run: "guided g se toks = Some (g', se')" and ok: "session_ok g' se'"
    "cg_vocab g' = cg_vocab g" "se_schema se' = Some s"
    "emitted_columns (se_tracker se') = emitted_columns (se_tracker se)"
    and name: "in_name (cfg_of (se_pda se)) pos (text_of g toks) se'"
    using reached way by (fastforce simp: on_the_way_def split: option.splits)
  have spell: "text_of g (toks @ [tok]) = text_of g toks @ token_bytes (cg_vocab g) tok" by (simp add: text_of_def)
  have "guided g' se' [tok] \<noteq> None"
    if "text_of g toks \<noteq> nm" "finishes names nm (text_of g (toks @ [tok]))"
      "cfg_run (cfg_of (se_pda se)) (text_of g (toks @ [tok])) \<noteq> None"
    using that assms(3,8,9,12) ids(2)
    by (intro finishing_token [OF ok(1) name assms(7) ok(3) _ _ refl _ assms(9,10)]) (simp_all add: ok spell)
  then show ?thesis by (simp add: guided_append run del: guided.simps)
qed

text \<open>A session after a dot over the class \<open>foo::A\<close> of the sample schema.\<close>

definition dot_vocab :: vocab where
  "dot_vocab = from_byte_tokens [''|foo::A.all()->filter(x|$x.'', ''si'', ''ze'', ''zz'', '' > 1)''] 5"

definition dot_grammar :: compiled_grammar where
  "dot_grammar = compile_grammar dot_vocab"

definition dot_session :: decoder_session where
  "dot_session = snd (accept_token (with_schema dot_grammar shop) dot_grammar 0)"

lemma dot_simps:
  "cg_vocab dot_grammar = dot_vocab" "vocab_len dot_vocab = 5"
  "token_bytes dot_vocab 1 = ''si''" "token_bytes dot_vocab 2 = ''ze''" "token_bytes dot_vocab 3 = ''zz''"
  by (simp_all add: dot_grammar_def compile_grammar_def dot_vocab_def from_byte_tokens_def vocab_len_def
      token_bytes_def vocab_bytes_def vec_get_def)

lemma dot_session_laws:
  "session_ok dot_grammar dot_session" "se_schema dot_session = Some shop"
  "pda_st (se_pda dot_session) = AfterDot" "tk_pending (se_tracker dot_session) = None"
  "position (se_tracker dot_session) AfterDot = L2Member ''foo::A''" "emitted_columns (se_tracker dot_session) = []"
proof -
  have "session_ok dot_grammar (with_schema dot_grammar shop)"
    unfolding with_schema_def
    by (rule session_build_ok) (simp_all add: dot_simps, simp add: dot_grammar_def grammar_ok_compile)
  then show "session_ok dot_grammar dot_session" unfolding dot_session_def by (rule accept_token_ok)
  show "se_schema dot_session = Some shop"
    by (simp add: dot_session_def accept_token_def with_schema_def session_build_def Let_def
        split: option.split prod.split sum.split)
  show "pda_st (se_pda dot_session) = AfterDot" "tk_pending (se_tracker dot_session) = None"
    "position (se_tracker dot_session) AfterDot = L2Member ''foo::A''" "emitted_columns (se_tracker dot_session) = []"
    unfolding dot_session_def dot_grammar_def dot_vocab_def by code_simp+
qed

lemma shop_fits: "schema_fits shop []"
proof -
  have "member_names shop cls = []" if "cls \<noteq> ''foo::A''" "cls \<noteq> ''lib::B''" for cls
    using that by (simp add: member_names_def shop_def schema_of_data_def class_get_def step_names_def
        build_navigable_def)
  moreover have "member_names shop ''foo::A'' = [''size'', ''b'']" "member_names shop ''lib::B'' = [''price'']"
    by code_simp+
  ultimately have "names_fit (member_names shop cls)" for cls
    by (cases "cls = ''foo::A''"; cases "cls = ''lib::B''") (simp_all add: names_fit_def)
  moreover have "sum_list (map length (source_paths shop @ [LET_KEYWORD])) = 23" by code_simp
  ultimately show ?thesis by (simp add: schema_fits_def names_fit_def)
qed

theorem dot_names_exact_witness:
  "guided dot_grammar dot_session [1, 2] \<noteq> None \<and> guided dot_grammar dot_session [1, 3] = None"
proof -
  have spelled: "text_of dot_grammar [1, 2] = ''size''" "text_of dot_grammar [1, 3] = ''sizz''"
    by (simp_all add: text_of_def dot_simps)
  have ident: "ident_text ''size''" "ident_text ''sizz''" by code_simp+
  have names: "names_at shop [] (L2Member ''foo::A'') = [''size'', ''b'']" by (simp add: names_at_simps) code_simp
  note exact = dot_names_exact [OF dot_session_laws(1,2), unfolded dot_session_laws(6), OF shop_fits
      dot_session_laws(3,4), unfolded dot_session_laws(5) names]
  have "guided dot_grammar dot_session [1, 2] \<noteq> None \<longleftrightarrow> (\<exists>nm \<in> set [''size'', ''b'']. prefix ''size'' nm)"
    using exact [of "[1, 2]"] ident by (simp add: spelled dot_simps)
  moreover have "guided dot_grammar dot_session [1, 3] \<noteq> None \<longleftrightarrow> (\<exists>nm \<in> set [''size'', ''b'']. prefix ''sizz'' nm)"
    using exact [of "[1, 3]"] ident by (simp add: spelled dot_simps)
  ultimately show ?thesis by (cases "guided dot_grammar dot_session [1, 3]") (simp_all del: guided.simps)
qed

text \<open>A session where a source class is expected.\<close>

definition source_vocab :: vocab where
  "source_vocab = from_byte_tokens [''|'', ''fo'', ''o::'', ''A.all()''] 4"

definition source_session :: decoder_session where
  "source_session = snd (accept_token (with_schema (compile_grammar source_vocab) shop) (compile_grammar source_vocab) 0)"

lemma cg_vocab_compile: "cg_vocab (compile_grammar v) = v"
  by (simp add: compile_grammar_def)

lemma source_simps:
  "vocab_len source_vocab = 4" "token_bytes source_vocab 1 = ''fo''" "token_bytes source_vocab 2 = ''o::''"
  "token_bytes source_vocab 3 = ''A.all()''"
  by (simp_all add: source_vocab_def from_byte_tokens_def vocab_len_def token_bytes_def vocab_bytes_def vec_get_def)

lemma source_session_laws:
  "session_ok (compile_grammar source_vocab) source_session" "se_schema source_session = Some shop"
  "cfg_of (se_pda source_session) = (ExpectSource, [])" "tk_pending (se_tracker source_session) = None"
  "emitted_columns (se_tracker source_session) = []"
proof -
  have "session_ok (compile_grammar source_vocab) (with_schema (compile_grammar source_vocab) shop)"
    unfolding with_schema_def
    by (rule session_build_ok) (simp_all add: source_simps grammar_ok_compile cg_vocab_compile)
  then show "session_ok (compile_grammar source_vocab) source_session"
    unfolding source_session_def by (rule accept_token_ok)
  show "se_schema source_session = Some shop"
    by (simp add: source_session_def accept_token_def with_schema_def session_build_def Let_def
        split: option.split prod.split sum.split)
  show "cfg_of (se_pda source_session) = (ExpectSource, [])" "tk_pending (se_tracker source_session) = None"
    "emitted_columns (se_tracker source_session) = []"
    unfolding source_session_def source_vocab_def by code_simp+
qed

theorem legal_name_never_masked_witness:
  "guided (compile_grammar source_vocab) source_session [1, 2] \<noteq> None \<and>
   guided (compile_grammar source_vocab) source_session [1, 2, 3] \<noteq> None"
proof -
  let ?g = "compile_grammar source_vocab" and ?names = "names_at shop [] L2SourceIdent"
  have v: "cg_vocab ?g = source_vocab" by (rule cg_vocab_compile)
  have st: "pda_st (se_pda source_session) = ExpectSource" using source_session_laws(3) by (simp add: cfg_of_def)
  have pos: "position (se_tracker source_session) ExpectSource = L2SourceIdent"
    by (simp add: position_def opening_position_def)
  have "ident_text ''foo'' \<and> ident_text ''A''" by code_simp
  then have path: "spells LkIdent (ExpectSource, []) ''foo::A''"
    using spells_class_path [of "[''foo'', ''A'']" "[]"] by (simp add: class_path_def)
  have eval: "''foo::A'' \<in> set ?names" "finishes ?names ''foo::A'' ''foo::A.all()''"
    "cfg_run (ExpectSource, []) ''foo::A.all()'' \<noteq> None"
    by code_simp+
  have spelled: "text_of ?g [1, 2] = ''foo::''" "text_of ?g [1, 2, 3] = ''foo::A.all()''"
    by (simp_all add: text_of_def v source_simps)
  show ?thesis
    using legal_name_never_masked [OF source_session_laws(1,2) _ source_session_laws(4) _ refl _ refl,
        of "''foo::A''" "[1, 2]" 3] shop_fits path eval
    by (simp add: st pos source_session_laws name_position_def name_kind_def v source_simps spelled
        del: guided.simps names_at_simps)
qed

text \<open>Whether EOS is offered after a host samples the given tokens over the sample schema.\<close>

definition final_eos :: "bytes list \<Rightarrow> u32 list \<Rightarrow> bool option" where
  "final_eos tokens toks =
    (let g = compile_grammar (from_byte_tokens tokens 9)
     in map_option (\<lambda>(g', se). eos_allowed g' se) (guided g (with_schema g shop) toks))"

text \<open>Yet a phantom name can be completed, because a token that does not begin with an identifier
  byte is kept even in the middle of a name: over the sample schema, whose class \<open>foo::A\<close> has the
  members \<open>size\<close> and \<open>b\<close> only, a host that samples from the masks can emit \<open>$x.si > 1\<close> and stop; and
  since the rule constrains nothing once the text has left the names, it can emit the source class
  \<open>fo::Zzz\<close>, which the schema does not have, and stop.\<close>

lemma truncated_names_offered:
  "final_eos [''|foo::A.all()->filter(x|$x.'', ''si'', '' > 1)''] [0, 1, 2] = Some True \<and>
   ''si'' \<notin> set (member_names shop ''foo::A'') \<and>
   final_eos [''|'', ''fo'', ''::'', ''Zzz'', ''.all()''] [0, 1, 2, 3, 4] = Some True \<and>
   \<not> has_class shop ''fo::Zzz''"
proof (intro conjI)
  show "final_eos [''|foo::A.all()->filter(x|$x.'', ''si'', '' > 1)''] [0, 1, 2] = Some True" by code_simp
  show "final_eos [''|'', ''fo'', ''::'', ''Zzz'', ''.all()''] [0, 1, 2, 3, 4] = Some True" by code_simp
qed code_simp+

text \<open>A navigation that ends in a class leaves its class behind for the next dot that does not follow a
  variable: over the sample schema, once \<open>$x.b\<close> has reached \<open>lib::B\<close>, the dot of an enumeration literal, or of a nested
  source, stands over the members of \<open>lib::B\<close>, so the mask takes away the enumeration's value and the
  method \<open>all\<close>, which it offers when the navigation ended in a primitive.  The automaton accepts all of it.\<close>

lemma stale_cursor_masks:
  "final_eos [''|foo::A.all()->filter(x|isEmpty($x.b) || lib::Color.'', ''RED''] [0, 1] = None \<and>
   final_eos [''|foo::A.all()->filter(x|isEmpty($x.b) || lib::B.'', ''all''] [0, 1] = None \<and>
   final_eos [''|foo::A.all()->filter(x|isEmpty($x.size) || lib::B.'', ''all'', ''()->isEmpty())''] [0, 1, 2] = Some True \<and>
   accepts ''|foo::A.all()->filter(x|isEmpty($x.b) || lib::Color.RED == lib::Color.RED)'' \<and>
   accepts ''|foo::A.all()->filter(x|isEmpty($x.b) || lib::B.all()->isEmpty())''"
proof (intro conjI)
  show "final_eos [''|foo::A.all()->filter(x|isEmpty($x.b) || lib::Color.'', ''RED''] [0, 1] = None" by code_simp
  show "final_eos [''|foo::A.all()->filter(x|isEmpty($x.b) || lib::B.'', ''all''] [0, 1] = None" by code_simp
  show "final_eos [''|foo::A.all()->filter(x|isEmpty($x.size) || lib::B.'', ''all'', ''()->isEmpty())''] [0, 1, 2] = Some True"
    by code_simp
qed code_simp+

text \<open>The name in front of a delimiter is remembered over a comparison: a string in parentheses behind a
  comparison with a column named like a method that refers to columns is itself taken for a column.\<close>

lemma comparison_taken_for_call:
  "final_eos [''|foo::A.all()->project([x|$x.size], ['' @ quote ''n'' @ ''])->filter(r|$r.desc == ('', quote ''up''] [0, 1] = None"
  by code_simp

lemma comparison_left_alone:
  "final_eos [''|foo::A.all()->project([x|$x.size], ['' @ quote ''n'' @ ''])->filter(r|$r.size == ('', quote ''up'', ''))''] [0, 1, 2] = Some True"
  by code_simp

text \<open>All tokens of a gap are dispatched with the state in front of the gap, so a tilde and a bracket in one token
  do not open a column set: the column \<open>f\<close> that \<open>extend(~[f: ...])\<close> adds is then missing from the names
  of the row and masked, while the same text cut between the tilde and the bracket offers it.\<close>

lemma gap_bracket_lost:
  "final_eos [''|foo::A.all()->project(~'', ''[a: x|$x.b])->extend(~[f: r|$r.a])->filter(r|$r.'', ''f''] [0, 1, 2] = None"
  by code_simp

lemma cut_bracket_kept:
  "final_eos [''|foo::A.all()->project(~'', ''[a: x|$x.b])->extend(~'', ''[f: r|$r.a])->filter(r|$r.'', ''f'', '')'']
     [0, 1, 2, 3, 4] = Some True"
  by code_simp

text \<open>A binder with a type is never bound, because the bracket of its multiplicity forgets the candidate: the
  variable keeps the class an outer lambda of the same name gave it, and the members of its own class are masked.\<close>

lemma typed_binder_lost:
  "final_eos [''|foo::A.all()->filter(x|$x.b->exists(x: lib::B[1]|$x.'', ''price''] [0, 1] = None"
  "accepts ''|foo::A.all()->filter(x|$x.b->exists(x: lib::B[1]|$x.price>1))''"
  by code_simp+

lemma untyped_binder_kept:
  "final_eos [''|foo::A.all()->filter(x|$x.b->exists(x|$x.'', ''price'', ''>1))''] [0, 1, 2] = Some True"
  by code_simp

end
