(* ===== verification/Session_Histories.thy ===== *)
theory Session_Histories
  imports Session_Props
begin

text \<open>
  Every order in which a host can use a session, as a step relation: masks are read, tokens and bytes
  accepted or rejected, the stream reset, and in between other sessions that share the grammar
  fill its cache.  The invariant of the reachable states is proved by rule induction.
\<close>

inductive session_call :: "compiled_grammar \<times> decoder_session \<Rightarrow> compiled_grammar \<times> decoder_session \<Rightarrow> bool" where
  read_mask: "allowed_mask se g = (m, se', g') \<Longrightarrow> session_call (g, se) (g', se')"
| commit_token: "accept_token se g tok = (r, se') \<Longrightarrow> session_call (g, se) (g, se')"
| commit_byte: "accept_byte se b = (r, se') \<Longrightarrow> session_call (g, se) (g, se')"
| restart: "session_call (g, se) (g, session_reset se)"
| shared_cache: "cached_at g st = (c, g') \<Longrightarrow> session_call (g, se) (g', se)"

inductive history :: "compiled_grammar \<Rightarrow> schema option \<Rightarrow> compiled_grammar \<times> decoder_session \<Rightarrow> bool"
  for g :: compiled_grammar and s :: "schema option" where
  opened: "history g s (g, session_build g s)"
| called: "history g s c \<Longrightarrow> session_call c c' \<Longrightarrow> history g s c'"

text \<open>The session describes a live stream: the bytes consumed since it was opened or reset.\<close>

definition stream_of :: "decoder_session \<Rightarrow> bytes \<Rightarrow> bool" where
  "stream_of se q \<longleftrightarrow> feed pda_new q = (Inr (), se_pda se) \<and> se_offset se = length q"

definition history_inv :: "vocab \<Rightarrow> schema option \<Rightarrow> compiled_grammar \<times> decoder_session \<Rightarrow> bool" where
  "history_inv v s c \<longleftrightarrow> session_ok (fst c) (snd c) \<and> cg_vocab (fst c) = v \<and> se_schema (snd c) = s \<and>
    (\<exists>q. stream_of (snd c) q)"

lemma stream_of_new: "se_pda se = pda_new \<Longrightarrow> se_offset se = 0 \<Longrightarrow> stream_of se []"
  by (simp add: stream_of_def)

lemma stream_of_more:
  assumes "stream_of se q" and "feed (se_pda se) bs = (Inr (), se_pda se')"
    and "se_offset se' = se_offset se + length bs"
  shows "stream_of se' (q @ bs)"
  using assms by (simp add: stream_of_def feed_ok_iff cfg_run_append)

lemma advance_feed: "advance p b = (Inr (), q) \<Longrightarrow> feed p [b] = (Inr (), q)"
  by simp

lemma session_ok_grammar:
  assumes "session_ok g se" and "grammar_ok g'" and "cg_vocab g' = cg_vocab g"
  shows "session_ok g' se"
  using assms eos_bit_vocab [OF assms(3)] by (simp add: session_ok_def split: option.splits)

lemma stream_of_byte:
  assumes "accept_byte se b = (r, se')" and "stream_of se q"
  shows "se_schema se' = se_schema se \<and> (\<exists>q. stream_of se' q)"
proof (cases r)
  case (Inl e)
  then have "se' = se" using session.rejects_byte assms(1) by blast
  then show ?thesis using assms(2) by blast
next
  case (Inr u)
  then have "cfg_step (cfg_of (se_pda se)) b = Some (cfg_of (se_pda se'))" and off: "se_offset se' = Suc (se_offset se)"
    using session.accepts_byte [of se b se'] assms(1) by simp_all
  then have "feed (se_pda se) [b] = (Inr (), se_pda se')" unfolding feed_ok_iff by simp
  then have "stream_of se' (q @ [b])" using stream_of_more [OF assms(2)] off by simp
  moreover have "se_schema se' = se_schema se"
    using assms(1) by (auto simp: accept_byte_def split: prod.splits sum.splits)
  ultimately show ?thesis by blast
qed

lemma history_inv_call:
  assumes "session_call c c'" and "history_inv v s c"
  shows "history_inv v s c'"
  using assms
proof cases
  case (read_mask se g m se' g')
  have ok: "session_ok g se" using assms(2) read_mask by (simp add: history_inv_def)
  note laws = allowed_mask_laws [OF ok read_mask(3)]
  show ?thesis using assms(2) laws by (simp add: history_inv_def read_mask stream_of_def)
next
  case (commit_token se g tok r se')
  have inv: "session_ok g se" "\<exists>q. stream_of se q" using assms(2) commit_token by (simp_all add: history_inv_def)
  have "session_ok g se'" using accept_token_ok [OF inv(1), of tok] by (simp add: commit_token(3))
  moreover have "se_schema se' = se_schema se \<and> (\<exists>q. stream_of se' q)"
    using accept_token_result [OF commit_token(3)] inv(2) stream_of_more by blast
  ultimately show ?thesis using assms(2) by (simp add: history_inv_def commit_token)
next
  case (commit_byte se b r se' g)
  have inv: "session_ok g se" "\<exists>q. stream_of se q" using assms(2) commit_byte by (simp_all add: history_inv_def)
  have "session_ok g se'" using accept_byte_ok [OF inv(1), of b] by (simp add: commit_byte(3))
  moreover have "se_schema se' = se_schema se \<and> (\<exists>q. stream_of se' q)"
    using stream_of_byte [OF commit_byte(3)] inv(2) by blast
  ultimately show ?thesis using assms(2) by (simp add: history_inv_def commit_byte)
next
  case (restart g se)
  have "stream_of (session_reset se) []" by (rule stream_of_new) (simp_all add: session_reset_def pda_reset_def pda_new_def)
  then show ?thesis
    using assms(2) session_reset_ok by (auto simp: history_inv_def restart) (simp add: session_reset_def)
next
  case (shared_cache g st c0 g' se)
  have inv: "session_ok g se" using assms(2) shared_cache by (simp add: history_inv_def)
  then have "grammar_ok g" by (simp add: session_ok_def)
  then have "grammar_ok g'" "cg_vocab g' = cg_vocab g"
    using cached_at_laws [of g st] shared_cache(3) by simp_all
  then show ?thesis using assms(2) session_ok_grammar [OF inv] by (simp add: history_inv_def shared_cache)
qed

lemma history_invariant:
  assumes "history g s c" and "grammar_ok g" and "vocab_len (cg_vocab g) + 1 < 2 ^ 32"
  shows "history_inv (cg_vocab g) s c"
  using assms(1)
proof induction
  case opened
  have "stream_of (session_build g s) []" by (rule stream_of_new) (simp_all add: session_build_def)
  then show ?case
    using session_build_ok [OF assms(2,3), of s] by (auto simp: history_inv_def) (simp add: session_build_def)
next
  case (called c c')
  then show ?case using history_inv_call by blast
qed

section \<open>Properties\<close>

text \<open>C5: Whatever a host does with a session, in whatever order, it stays usable and never traps the
  stream: after any sequence of mask reads, accepted and rejected tokens and bytes, resets, and
  cache fills by other sessions on the same grammar, the session is well formed over the same
  vocabulary and schema, its automaton is the one that has read some live byte string whose length
  is the offset, and that string can be completed to a query.\<close>

theorem every_history_usable:
  assumes "history g s (g', se)" and "grammar_ok g" and "vocab_len (cg_vocab g) + 1 < 2 ^ 32"
  shows "session_ok g' se \<and> cg_vocab g' = cg_vocab g \<and> se_schema se = s \<and>
    (\<exists>q. feed pda_new q = (Inr (), se_pda se) \<and> session_offset se = length q \<and> (\<exists>rest. accepts (q @ rest)))"
proof -
  from history_invariant [OF assms] obtain q where q: "feed pda_new q = (Inr (), se_pda se)" "se_offset se = length q"
    and inv: "session_ok g' se" "cg_vocab g' = cg_vocab g" "se_schema se = s"
    by (auto simp: history_inv_def stream_of_def)
  have run: "cfg_run (Start, []) q = Some (pda_st (se_pda se), pda_stack (se_pda se))"
    using q(1) by (simp add: feed_new_iff cfg_of_def)
  then have "cfg_ok (pda_st (se_pda se)) (pda_stack (se_pda se))" by (rule cfg_run_ok) simp
  then obtain rest where "cfg_run (cfg_of (se_pda se)) rest = Some (AfterValue, [])"
    using completable by (auto simp: cfg_of_def)
  then have "feed pda_new (q @ rest) = (Inr (), \<lparr>pda_st = AfterValue, pda_stack = []\<rparr>)"
    using run by (simp add: feed_new_iff cfg_run_append cfg_of_def)
  then have "accepts (q @ rest)" using accepting_AfterValue by (auto simp: accepts_iff)
  then show ?thesis using q inv by (auto simp: session_offset_def)
qed

theorem every_history_usable_witness:
  "session_ok tiny (session_reset (snd (accept_token (session_build tiny (Some shop)) tiny 0)))"
proof -
  obtain r se where acc: "accept_token (session_build tiny (Some shop)) tiny 0 = (r, se)" by fastforce
  have "history tiny (Some shop) (tiny, session_reset se)"
    by (rule called [OF called [OF opened commit_token [OF acc]] restart])
  from every_history_usable [OF this] show ?thesis by (simp add: acc)
qed

text \<open>In every reachable session the mask and the commit agree: a token whose bit is set in the mask
  read last is accepted, EOS included, and without a schema every accepted token has its bit set.\<close>

theorem mask_and_commit_agree:
  assumes "history g s (g', se)" and "grammar_ok g" and "vocab_len (cg_vocab g) + 1 < 2 ^ 32"
    and "allowed_mask se g' = (m, se2, g2)"
  shows "(bm_test m tok \<longrightarrow> fst (accept_token se2 g2 tok) = Inr ()) \<and>
    (s = None \<longrightarrow> (bm_test m tok \<longleftrightarrow> fst (accept_token se2 g2 tok) = Inr ()))"
proof -
  have inv: "session_ok g' se" "cg_vocab g' = cg_vocab g" "se_schema se = s"
    using history_invariant [OF assms(1-3)] by (simp_all add: history_inv_def)
  note laws = allowed_mask_laws [OF inv(1) assms(4)]
  have eos: "eos_bit g2 = eos_bit g'" using eos_bit_vocab [OF laws(3)] by simp
  have "unat (eos_bit g') = vocab_len (cg_vocab g')" using inv(1) eos_laws(1) by (simp add: session_ok_def)
  then have acc: "fst (accept_token se2 g2 tok) = Inr () \<longleftrightarrow> syntactic g' (se_pda se) tok"
    by (auto simp: accept_token_Inr_iff laws eos syntactic_def is_complete_def)
  obtain K where K: "\<forall>i. bm_test m i \<longleftrightarrow> syntactic g' (se_pda se) i \<and>
      (i = eos_bit g' \<or> K (token_bytes (cg_vocab g') i))" "names_ok se \<longrightarrow> K = overlay_keeps se"
    using laws(1) by blast
  have "s = None \<Longrightarrow> K = (\<lambda>_. True)"
    using K(2) inv(3) by (simp add: names_ok_def overlay_keeps_def [abs_def])
  then show ?thesis using acc K(1) by auto
qed

theorem mask_and_commit_agree_witness:
  "bm_test (fst (allowed_mask (session_build tiny None) tiny)) 0 \<longleftrightarrow>
    fst (accept_token (fst (snd (allowed_mask (session_build tiny None) tiny)))
      (snd (snd (allowed_mask (session_build tiny None) tiny))) 0) = Inr ()"
proof -
  obtain m se2 g2 where run: "allowed_mask (session_build tiny None) tiny = (m, se2, g2)" by (metis prod.collapse)
  from mask_and_commit_agree [OF opened _ _ run] show ?thesis by (simp add: run)
qed

end
