(* ===== verification/Self_Check.thy ===== *)
theory Self_Check
  imports Session_Props
begin

text \<open>
  The tokenizer self-check of \<open>src/src/selfcheck.rs\<close>: the longest-match scan of the vocabulary, the
  loop that drives one sample through a session token by token, and the loop over the samples.
  The lemmas relate the loop to a reference: the greedy chop of the sample into tokens, and the
  language of the automaton.
\<close>

datatype self_check_error =
  Unsegmentable usize usize | DeadEnd usize usize u32 | Incomplete usize usize

definition SMOKE :: "bytes list" where
  "SMOKE =
    [''|X.all()->take(1)'',
     ''|X.all()->filter(x|$x.v > 1)'',
     ''|X.all()->project([x|$x.name], ['' @ [CHR 0x27] @ ''n'' @ [CHR 0x27] @ ''])'',
     ''|db::Db->tableReference('' @ [CHR 0x27] @ ''default'' @ [CHR 0x27] @ '', '' @ [CHR 0x27] @ ''T''
       @ [CHR 0x27] @ '')->tableToTDS()->limit(1)'']"

definition longest_step :: "vocab \<Rightarrow> bytes \<Rightarrow> (u32 \<times> usize) option \<Rightarrow> u32 \<Rightarrow> (u32 \<times> usize) option" where
  "longest_step v remaining best tok =
    (let token = token_bytes v tok
     in if token \<noteq> [] \<and> prefix token remaining \<and>
          (case best of None \<Rightarrow> True | Some (_, len) \<Rightarrow> length token > len)
        then Some (tok, length token) else best)"

definition longest_match :: "vocab \<Rightarrow> bytes \<Rightarrow> u32 option" where
  "longest_match v remaining = map_option fst (foldl (longest_step v remaining) None (token_ids v))"

text \<open>The scan keeps the first of the longest matches.\<close>

definition matches_at :: "vocab \<Rightarrow> bytes \<Rightarrow> u32 \<Rightarrow> bool" where
  "matches_at v remaining tok \<longleftrightarrow> token_bytes v tok \<noteq> [] \<and> prefix (token_bytes v tok) remaining"

fun best_of :: "vocab \<Rightarrow> bytes \<Rightarrow> u32 list \<Rightarrow> (u32 \<times> usize) option \<Rightarrow> bool" where
  "best_of v remaining seen None = (\<forall>i \<in> set seen. \<not> matches_at v remaining i)"
| "best_of v remaining seen (Some (tok, len)) =
    (\<exists>xs ys. seen = xs @ tok # ys \<and> matches_at v remaining tok \<and> len = length (token_bytes v tok) \<and>
      (\<forall>i \<in> set xs. matches_at v remaining i \<longrightarrow> length (token_bytes v i) < len) \<and>
      (\<forall>i \<in> set ys. matches_at v remaining i \<longrightarrow> length (token_bytes v i) \<le> len))"

lemma longest_step_best:
  assumes "best_of v remaining seen best"
  shows "best_of v remaining (vec_push seen tok) (longest_step v remaining best tok)"
proof (cases best)
  case None
  have "best_of v remaining (vec_push seen tok) (Some (tok, length (token_bytes v tok)))"
    if "matches_at v remaining tok"
    unfolding best_of.simps by (rule exI [of _ seen], rule exI [of _ "[]"]) (use assms None that in simp)
  then show ?thesis
    using assms None by (auto simp: longest_step_def matches_at_def Let_def simp del: best_of.simps(2))
next
  case (Some p)
  obtain w len where p: "p = (w, len)" by fastforce
  obtain xs ys where b: "seen = xs @ w # ys" "matches_at v remaining w" "len = length (token_bytes v w)"
    "\<forall>i \<in> set xs. matches_at v remaining i \<longrightarrow> length (token_bytes v i) < len"
    "\<forall>i \<in> set ys. matches_at v remaining i \<longrightarrow> length (token_bytes v i) \<le> len"
    using assms Some p by auto
  show ?thesis
  proof (cases "matches_at v remaining tok \<and> len < length (token_bytes v tok)")
    case True
    then have "longest_step v remaining best tok = Some (tok, length (token_bytes v tok))"
      by (simp add: longest_step_def Some p matches_at_def Let_def)
    moreover have "\<forall>i \<in> set seen. matches_at v remaining i \<longrightarrow> length (token_bytes v i) < length (token_bytes v tok)"
      using b True by fastforce
    ultimately show ?thesis
      using True by simp (rule exI [of _ seen], rule exI [of _ "[]"], simp)
  next
    case False
    then have "longest_step v remaining best tok = Some (w, len)"
      by (auto simp: longest_step_def Some p matches_at_def Let_def)
    moreover have "\<forall>i \<in> set (ys @ [tok]). matches_at v remaining i \<longrightarrow> length (token_bytes v i) \<le> len"
      using b(5) False by auto
    ultimately show ?thesis
      using b(1-4) by simp (rule exI [of _ xs], rule exI [of _ "ys @ [tok]"], simp)
  qed
qed

lemma longest_scan: "best_of v remaining ids (foldl (longest_step v remaining) None ids)"
proof (induction ids rule: rev_induct)
  case (snoc i ids)
  then show ?case using longest_step_best by simp
qed simp

lemma longest_match_Some:
  assumes "longest_match v remaining = Some tok"
  shows "tok \<in> set (token_ids v)" "matches_at v remaining tok"
proof -
  obtain len where "foldl (longest_step v remaining) None (token_ids v) = Some (tok, len)"
    using assms by (auto simp: longest_match_def)
  then have "best_of v remaining (token_ids v) (Some (tok, len))" using longest_scan by metis
  then show "tok \<in> set (token_ids v)" "matches_at v remaining tok" by auto
qed

lemma longest_match_None:
  "longest_match v remaining = None \<Longrightarrow> i \<in> set (token_ids v) \<Longrightarrow> \<not> matches_at v remaining i"
  using longest_scan [of v remaining "token_ids v"] by (simp add: longest_match_def)

text \<open>A match is a token of the vocabulary that consumes at least one byte.\<close>

lemma longest_match_bytes:
  assumes "longest_match v remaining = Some tok"
  obtains bs ys where "vocab_bytes v tok = Some bs" "bs \<noteq> []" "remaining = bs @ ys" "token_bytes v tok = bs"
proof -
  have "matches_at v remaining tok" by (rule longest_match_Some(2) [OF assms])
  then show thesis
    using that by (auto simp: matches_at_def token_bytes_def prefix_def split: option.splits)
qed

section \<open>The check\<close>

text \<open>The loop over one sample.  \<open>Inr\<close> carries the bytes consumed and the session at the end of the
  loop; the grammar's cache fills on the way.\<close>

function check_loop :: "vocab \<Rightarrow> usize \<Rightarrow> compiled_grammar \<Rightarrow> decoder_session \<Rightarrow> usize \<Rightarrow> bytes
    \<Rightarrow> (self_check_error + usize \<times> decoder_session) \<times> compiled_grammar" where
  "check_loop v query_index g se consumed remaining =
    (if remaining = [] then (Inr (consumed, se), g)
     else case longest_match v remaining of
       None \<Rightarrow> (Inl (Unsegmentable query_index consumed), g)
     | Some tok \<Rightarrow>
         (case allowed_mask se g of
            (m, se1, g1) \<Rightarrow>
              if \<not> bm_test m tok then (Inl (DeadEnd query_index consumed tok), g1)
              else (case accept_token se1 g1 tok of
                (Inl _, _) \<Rightarrow> (Inl (DeadEnd query_index consumed tok), g1)
              | (Inr _, se2) \<Rightarrow>
                  (let n = (case vocab_bytes v tok of Some bs \<Rightarrow> length bs | None \<Rightarrow> 0)
                   in check_loop v query_index g1 se2 (consumed + n) (drop n remaining)))))"
  by pat_completeness auto
termination
proof (relation "measure (\<lambda>(v, query_index, g, se, consumed, remaining). length remaining)")
qed (auto elim!: longest_match_bytes)

declare check_loop.simps [simp del]

definition check_sample :: "compiled_grammar \<Rightarrow> usize \<Rightarrow> bytes
    \<Rightarrow> (self_check_error + unit) \<times> compiled_grammar" where
  "check_sample g query_index query =
    (case check_loop (cg_vocab g) query_index g (session_new g) 0 query of
       (Inl e, g') \<Rightarrow> (Inl e, g')
     | (Inr (consumed, se), g') \<Rightarrow>
         (if \<not> is_complete se then Inl (Incomplete query_index consumed) else Inr (), g'))"

fun check_samples :: "compiled_grammar \<Rightarrow> (usize \<times> bytes) list
    \<Rightarrow> (self_check_error + unit) \<times> compiled_grammar" where
  "check_samples g [] = (Inr (), g)"
| "check_samples g ((query_index, query) # rest) =
    (case check_sample g query_index query of
       (Inl e, g') \<Rightarrow> (Inl e, g')
     | (Inr _, g') \<Rightarrow> check_samples g' rest)"

definition self_check :: "compiled_grammar \<Rightarrow> bytes list
    \<Rightarrow> (self_check_error + unit) \<times> compiled_grammar" where
  "self_check g samples = check_samples g (enumerate 0 samples)"

definition self_check_smoke :: "compiled_grammar \<Rightarrow> (self_check_error + unit) \<times> compiled_grammar" where
  "self_check_smoke g = self_check g SMOKE"

section \<open>The greedy chop\<close>

text \<open>The reference: the tokens of the greedy segmentation and the bytes it cannot cover.\<close>

function chop :: "vocab \<Rightarrow> bytes \<Rightarrow> u32 list \<times> bytes" where
  "chop v bs =
    (if bs = [] then ([], [])
     else case longest_match v bs of
       None \<Rightarrow> ([], bs)
     | Some tok \<Rightarrow>
         (case chop v (drop (length (token_bytes v tok)) bs) of (toks, rest) \<Rightarrow> (tok # toks, rest)))"
  by pat_completeness auto
termination
proof (relation "measure (\<lambda>(v, bs). length bs)")
qed (auto elim!: longest_match_bytes)

declare chop.simps [simp del]

lemma chop_Nil [simp]: "chop v [] = ([], [])"
  by (simp add: chop.simps)

lemma chop_match:
  assumes "longest_match v bs = Some tok" and "bs = token_bytes v tok @ ys"
  shows "chop v bs = (tok # fst (chop v ys), snd (chop v ys))"
proof -
  have "token_bytes v tok \<noteq> []" using longest_match_bytes [OF assms(1)] by metis
  then show ?thesis
    using assms by (subst chop.simps) (simp add: case_prod_unfold)
qed

lemma chop_stuck: "bs \<noteq> [] \<Longrightarrow> longest_match v bs = None \<Longrightarrow> chop v bs = ([], bs)"
  by (subst chop.simps) simp

lemma chop_concat: "concat (map (token_bytes v) (fst (chop v bs))) @ snd (chop v bs) = bs"
proof (induction "length bs" arbitrary: bs rule: less_induct)
  case less
  show ?case
  proof (cases "bs = []")
    case False
    show ?thesis
    proof (cases "longest_match v bs")
      case None
      then show ?thesis using chop_stuck False by simp
    next
      case (Some tok)
      from longest_match_bytes [OF this] obtain ys where ys: "token_bytes v tok \<noteq> []" "bs = token_bytes v tok @ ys"
        by metis
      then show ?thesis using less [of ys] chop_match [OF Some ys(2)] by simp
    qed
  qed simp
qed

lemma chop_ids: "set (fst (chop v bs)) \<subseteq> set (token_ids v)"
proof (induction "length bs" arbitrary: bs rule: less_induct)
  case less
  show ?case
  proof (cases "bs = [] \<or> longest_match v bs = None")
    case True
    then show ?thesis using chop_stuck by (cases "bs = []") auto
  next
    case False
    then obtain tok where m: "longest_match v bs = Some tok" by auto
    from longest_match_bytes [OF this] obtain ys where ys: "token_bytes v tok \<noteq> []" "bs = token_bytes v tok @ ys"
      by metis
    then show ?thesis
      using less [of ys] chop_match [OF m ys(2)] longest_match_Some(1) [OF m] by simp
  qed
qed

section \<open>What the loop finds\<close>

text \<open>A stuck loop stopped at a suffix \<open>ys\<close> of the sample, after live bytes \<open>xs\<close>.\<close>

definition loop_error :: "vocab \<Rightarrow> pda \<Rightarrow> usize \<Rightarrow> usize \<Rightarrow> bytes \<Rightarrow> self_check_error \<Rightarrow> bool" where
  "loop_error v p query_index consumed remaining e \<longleftrightarrow>
    (\<exists>xs ys. remaining = xs @ ys \<and> ys \<noteq> [] \<and> extends p xs \<and>
      ((longest_match v ys = None \<and> snd (chop v remaining) = ys \<and> e = Unsegmentable query_index (consumed + length xs)) \<or>
       (\<exists>tok zs. longest_match v ys = Some tok \<and> ys = token_bytes v tok @ zs \<and>
         \<not> extends p (xs @ token_bytes v tok) \<and> e = DeadEnd query_index (consumed + length xs) tok)))"

lemma extends_append: "extends p (xs @ ys) \<Longrightarrow> extends p xs"
  unfolding extends_def by (rule cfg_run_prefix_live)

lemma loop_error_dead:
  "loop_error v p qi n remaining (DeadEnd qi pos tok) \<Longrightarrow> \<not> extends p remaining"
  unfolding loop_error_def by (auto dest: extends_append [of _ "_ @ _", simplified])

lemma loop_error_Cons:
  assumes "loop_error v q qi (n + length bs) ys e" and "feed p bs = (Inr (), q)"
    and "longest_match v (bs @ ys) = Some tok" and "token_bytes v tok = bs"
  shows "loop_error v p qi n (bs @ ys) e"
proof -
  have ext: "extends q zs \<longleftrightarrow> extends p (bs @ zs)" for zs
    using assms(2) by (simp add: extends_def feed_ok_iff cfg_run_append)
  have chop: "snd (chop v (bs @ ys)) = snd (chop v ys)"
    using chop_match [OF assms(3), of ys] assms(4) by simp
  from assms(1) obtain xs zs where "ys = xs @ zs" "zs \<noteq> []" "extends q xs" and
    e: "(longest_match v zs = None \<and> snd (chop v ys) = zs \<and> e = Unsegmentable qi (n + length bs + length xs)) \<or>
       (\<exists>tok ws. longest_match v zs = Some tok \<and> zs = token_bytes v tok @ ws \<and>
         \<not> extends q (xs @ token_bytes v tok) \<and> e = DeadEnd qi (n + length bs + length xs) tok)"
    unfolding loop_error_def by blast
  then show ?thesis
    unfolding loop_error_def
    by - (rule exI [of _ "bs @ xs"], rule exI [of _ zs], use chop in \<open>auto simp: ext add.assoc\<close>)
qed

text \<open>Without a schema the mask and the session agree on a matched token.\<close>

lemma unguarded_step:
  assumes ok: "session_ok g se" and none: "se_schema se = None" and run: "allowed_mask se g = (m, se1, g1)"
    and tok: "tok \<in> set (token_ids (cg_vocab g))"
  shows "bm_test m tok \<longleftrightarrow> extends (se_pda se) (token_bytes (cg_vocab g) tok)" and "tok \<noteq> eos_bit g"
proof -
  have small: "vocab_len (cg_vocab g) + 1 < 2 ^ 32" using ok by (simp add: session_ok_def)
  then have id: "unat tok < vocab_len (cg_vocab g)" using tok token_ids_iff [of "cg_vocab g" tok] by simp
  then show ne: "tok \<noteq> eos_bit g" using eos_laws(1) [OF small] by auto
  obtain K where K: "\<forall>i. bm_test m i \<longleftrightarrow> syntactic g (se_pda se) i \<and>
      (i = eos_bit g \<or> K (token_bytes (cg_vocab g) i))" "names_ok se \<longrightarrow> K = overlay_keeps se"
    using allowed_mask_laws(1) [OF ok run] by blast
  have "K = (\<lambda>_. True)" using K(2) none by (simp add: names_ok_def overlay_keeps_def [abs_def])
  then show "bm_test m tok \<longleftrightarrow> extends (se_pda se) (token_bytes (cg_vocab g) tok)"
    using K(1) id ne by (simp add: syntactic_def)
qed

text \<open>What one run of the loop owes: the error it stopped at, or a sample that was chopped and sampled to
  its end.\<close>

definition loop_result :: "vocab \<Rightarrow> usize \<Rightarrow> compiled_grammar \<Rightarrow> decoder_session \<Rightarrow> usize \<Rightarrow> bytes
    \<Rightarrow> (self_check_error + usize \<times> decoder_session) \<times> compiled_grammar \<Rightarrow> bool" where
  "loop_result v qi g se n remaining out \<longleftrightarrow>
    (case out of (r, g') \<Rightarrow> grammar_ok g' \<and> cg_vocab g' = v \<and>
      (case r of
         Inl e \<Rightarrow> loop_error v (se_pda se) qi n remaining e
       | Inr (n', se') \<Rightarrow> n' = n + length remaining \<and> snd (chop v remaining) = [] \<and>
           feed (se_pda se) remaining = (Inr (), se_pda se') \<and>
           guided g se (fst (chop v remaining)) = Some (g', se')))"

lemma loop_stuck:
  assumes "grammar_ok g" and "cg_vocab g = v" and "remaining \<noteq> []" and "longest_match v remaining = None"
  shows "loop_result v qi g se n remaining (Inl (Unsegmentable qi n), g)"
  using assms chop_stuck [OF assms(3,4)] by (auto simp: loop_result_def loop_error_def extends_def)

lemma loop_dead:
  assumes "grammar_ok g1" and "cg_vocab g1 = v" and "longest_match v (bs @ ys) = Some tok" and "bs \<noteq> []"
    and "token_bytes v tok = bs" and "\<not> extends (se_pda se) bs"
  shows "loop_result v qi g se n (bs @ ys) (Inl (DeadEnd qi n tok), g1)"
proof -
  have "loop_error v (se_pda se) qi n (bs @ ys) (DeadEnd qi n tok)"
    unfolding loop_error_def using assms(3-6)
    by - (rule exI [of _ "[]"], rule exI [of _ "bs @ ys"], auto simp: extends_def)
  then show ?thesis using assms(1,2) by (simp add: loop_result_def)
qed

lemma loop_goes_on:
  assumes "loop_result v qi g1 se2 (n + length bs) ys out" and "longest_match v (bs @ ys) = Some tok"
    and "token_bytes v tok = bs" and "feed (se_pda se) bs = (Inr (), se_pda se2)"
    and "allowed_mask se g = (m, se1, g1)" and "bm_test m tok" and "accept_token se1 g1 tok = (Inr (), se2)"
  shows "loop_result v qi g se n (bs @ ys) out"
proof -
  have chop: "chop v (bs @ ys) = (tok # fst (chop v ys), snd (chop v ys))"
    using chop_match [OF assms(2)] assms(3) by simp
  have feed: "feed (se_pda se) (bs @ ys) = feed (se_pda se2) ys" if "feed (se_pda se2) ys = (Inr (), p)" for p
    using that assms(4) by (metis cfg_run_append feed_ok_iff option.simps(5))
  show ?thesis
    using assms(1,5-7) chop feed loop_error_Cons [OF _ assms(4,2,3)]
    by (auto simp: loop_result_def split: sum.splits prod.splits)
qed

lemma check_loop_result:
  assumes "session_ok g se" and "se_schema se = None" and "cg_vocab g = v"
  shows "loop_result v qi g se n remaining (check_loop v qi g se n remaining)"
  using assms
proof (induction "length remaining" arbitrary: remaining g se n rule: less_induct)
  case less
  have gok: "grammar_ok g" using less.prems(1) by (simp add: session_ok_def)
  show ?case
  proof (cases "remaining = [] \<or> longest_match v remaining = None")
    case True
    then show ?thesis
      using loop_stuck [OF gok less.prems(3)] less.prems(3) gok
      by (cases "remaining = []") (simp_all add: check_loop.simps loop_result_def)
  next
    case False
    then obtain tok where Some: "longest_match v remaining = Some tok" and ne: "remaining \<noteq> []" by auto
    from longest_match_bytes [OF Some] obtain bs ys where
      bs: "vocab_bytes v tok = Some bs" "bs \<noteq> []" "remaining = bs @ ys" "token_bytes v tok = bs" .
    obtain m se1 g1 where run: "allowed_mask se g = (m, se1, g1)" by (metis prod.collapse)
    note laws = allowed_mask_laws [OF less.prems(1) run]
    have g1: "grammar_ok g1" "cg_vocab g1 = v" using laws(2,3) less.prems(3) by (simp_all add: session_ok_def)
    have member: "tok \<in> set (token_ids (cg_vocab g))" using longest_match_Some(1) [OF Some] less.prems(3) by simp
    note live = unguarded_step [OF less.prems(1,2) run member]
    note unfold = check_loop.simps [of v qi g se n remaining]
    show ?thesis
    proof (cases "bm_test m tok")
      case False
      then have "check_loop v qi g se n remaining = (Inl (DeadEnd qi n tok), g1)"
        unfolding unfold using bs(1-3) ne Some run by simp
      then show ?thesis
        using loop_dead [OF g1 _ bs(2,4)] Some bs(3,4) False live(1) less.prems(3) by simp
    next
      case True
      from guided_step [OF less.prems(1) run True live(2)] obtain se2 where s2:
        "accept_token se1 g1 tok = (Inr (), se2)" "session_ok g1 se2" "se_schema se2 = se_schema se"
        "feed (se_pda se) bs = (Inr (), se_pda se2)"
        using bs(4) less.prems(3) by metis
      have "check_loop v qi g se n remaining = check_loop v qi g1 se2 (n + length bs) ys"
        unfolding unfold using bs(1-3) ne Some run True s2(1) by simp
      moreover have "length ys < length remaining" using bs(2,3) by simp
      ultimately show ?thesis
        using less.hyps [OF _ s2(2) _ g1(2)] s2(3) less.prems(2) loop_goes_on [OF _ _ bs(4) s2(4) run True s2(1)] Some bs(3)
        by simp
    qed
  qed
qed

text \<open>What the errors say of the sample they name.\<close>

fun sample_error :: "vocab \<Rightarrow> usize \<Rightarrow> bytes \<Rightarrow> self_check_error \<Rightarrow> bool" where
  "sample_error v i q (Unsegmentable qi pos) =
    (qi = i \<and> pos < length q \<and> fst (feed pda_new (take pos q)) = Inr () \<and>
     snd (chop v q) = drop pos q \<and> longest_match v (drop pos q) = None)"
| "sample_error v i q (DeadEnd qi pos tok) =
    (qi = i \<and> pos < length q \<and> fst (feed pda_new (take pos q)) = Inr () \<and>
     longest_match v (drop pos q) = Some tok \<and> fst (feed pda_new (take pos q @ token_bytes v tok)) \<noteq> Inr ())"
| "sample_error v i q (Incomplete qi consumed) =
    (qi = i \<and> consumed = length q \<and> snd (chop v q) = [] \<and> fst (feed pda_new q) = Inr () \<and> \<not> accepts q)"

lemma loop_error_sample:
  assumes "loop_error v pda_new i 0 q e"
  shows "sample_error v i q e" and "\<not> (accepts q \<and> snd (chop v q) = [])"
proof -
  from assms obtain xs ys where q: "q = xs @ ys" "ys \<noteq> []" "extends pda_new xs" and
    e: "(longest_match v ys = None \<and> snd (chop v q) = ys \<and> e = Unsegmentable i (length xs)) \<or>
       (\<exists>tok zs. longest_match v ys = Some tok \<and> ys = token_bytes v tok @ zs \<and>
         \<not> extends pda_new (xs @ token_bytes v tok) \<and> e = DeadEnd i (length xs) tok)"
    unfolding loop_error_def by auto
  have "sample_error v i q e \<and> \<not> (accepts q \<and> snd (chop v q) = [])"
    using e
  proof (elim disjE exE conjE)
    assume "longest_match v ys = None" "snd (chop v q) = ys" "e = Unsegmentable i (length xs)"
    then show ?thesis using q by (simp add: extends_feed)
  next
    fix tok zs assume d: "longest_match v ys = Some tok" "ys = token_bytes v tok @ zs"
      "\<not> extends pda_new (xs @ token_bytes v tok)" "e = DeadEnd i (length xs) tok"
    moreover from this have "\<not> extends pda_new q" using q(1) extends_append [of pda_new "xs @ token_bytes v tok" zs] by auto
    ultimately show ?thesis using q by (auto simp: extends_feed accepts_iff)
  qed
  then show "sample_error v i q e" "\<not> (accepts q \<and> snd (chop v q) = [])" by simp_all
qed

lemma check_sample_result:
  assumes "grammar_ok g" and "vocab_len (cg_vocab g) + 1 < 2 ^ 32" and "check_sample g i q = (r, g')"
  shows "grammar_ok g' \<and> cg_vocab g' = cg_vocab g \<and>
    (r = Inr () \<longleftrightarrow> accepts q \<and> snd (chop (cg_vocab g) q) = []) \<and>
    (\<forall>e. r = Inl e \<longrightarrow> sample_error (cg_vocab g) i q e)"
proof -
  have ok: "session_ok g (session_new g)" unfolding session_new_def by (rule session_build_ok [OF assms(1,2)])
  have new: "se_schema (session_new g) = None" "se_pda (session_new g) = pda_new"
    by (simp_all add: session_new_def session_build_def)
  obtain r1 g1 where loop: "check_loop (cg_vocab g) i g (session_new g) 0 q = (r1, g1)" by fastforce
  note res = check_loop_result [OF ok new(1) refl, of i 0 q, unfolded loop loop_result_def new(2) prod.case]
  show ?thesis
  proof (cases r1)
    case (Inl e)
    then show ?thesis
      using res loop_error_sample [of "cg_vocab g" i q e] assms(3) by (auto simp: check_sample_def loop)
  next
    case (Inr w)
    obtain n se where w: "w = (n, se)" by fastforce
    have fed: "feed pda_new q = (Inr (), se_pda se)" using res Inr w by simp
    then have "accepts q \<longleftrightarrow> is_complete se" by (simp add: accepts_iff is_complete_def)
    then show ?thesis
      using res Inr w fed assms(3) by (auto simp: check_sample_def loop split: if_splits)
  qed
qed

lemma check_samples_result:
  assumes "grammar_ok g" and "vocab_len (cg_vocab g) + 1 < 2 ^ 32"
  shows "(fst (check_samples g samples) = Inr () \<longleftrightarrow>
      (\<forall>(i, q) \<in> set samples. accepts q \<and> snd (chop (cg_vocab g) q) = [])) \<and>
    (\<forall>e. fst (check_samples g samples) = Inl e \<longrightarrow>
      (\<exists>xs i q ys. samples = xs @ (i, q) # ys \<and>
        (\<forall>(i, q) \<in> set xs. accepts q \<and> snd (chop (cg_vocab g) q) = []) \<and> sample_error (cg_vocab g) i q e))"
  using assms
proof (induction samples arbitrary: g)
  case (Cons s samples)
  obtain i q where s: "s = (i, q)" by fastforce
  obtain r g' where one: "check_sample g i q = (r, g')" by fastforce
  note res = check_sample_result [OF Cons.prems one]
  show ?case
  proof (cases r)
    case (Inl e)
    then show ?thesis
      using res by (auto simp: s one intro!: exI [of _ "[]"])
  next
    case (Inr u)
    then have ih: "(fst (check_samples g' samples) = Inr () \<longleftrightarrow>
      (\<forall>(i, q) \<in> set samples. accepts q \<and> snd (chop (cg_vocab g) q) = []))"
      "\<And>e. fst (check_samples g' samples) = Inl e \<Longrightarrow>
      \<exists>xs i q ys. samples = xs @ (i, q) # ys \<and>
        (\<forall>(i, q) \<in> set xs. accepts q \<and> snd (chop (cg_vocab g) q) = []) \<and> sample_error (cg_vocab g) i q e"
      using Cons.IH [of g'] Cons.prems res by auto
    have step: "check_samples g (s # samples) = check_samples g' samples" by (simp add: s one Inr)
    have good: "accepts q \<and> snd (chop (cg_vocab g) q) = []" using res Inr by simp
    have "\<exists>xs i q ys. s # samples = xs @ (i, q) # ys \<and>
        (\<forall>(i, q) \<in> set xs. accepts q \<and> snd (chop (cg_vocab g) q) = []) \<and> sample_error (cg_vocab g) i q e"
      if "fst (check_samples g' samples) = Inl e" for e
    proof -
      from ih(2) [OF that] obtain xs j p ys where "samples = xs @ (j, p) # ys"
        "\<forall>(i, q) \<in> set xs. accepts q \<and> snd (chop (cg_vocab g) q) = []" "sample_error (cg_vocab g) j p e"
        by blast
      then show ?thesis
        by (intro exI [of _ "s # xs"] exI [of _ j] exI [of _ p] exI [of _ ys]) (use good s in auto)
    qed
    then show ?thesis unfolding step using ih(1) good by (auto simp: s)
  qed
qed simp

lemma enumerate_split:
  assumes "enumerate 0 xs = ys @ (i, x) # zs"
  shows "i < length xs" "xs ! i = x" "\<forall>j < i. (j, xs ! j) \<in> set ys"
proof -
  have len: "length xs = length ys + 1 + length zs" using arg_cong [OF assms, of length] by simp
  have nth: "enumerate 0 xs ! k = (k, xs ! k)" if "k < length xs" for k
    using that by (simp add: nth_enumerate_eq)
  have at: "(length ys, xs ! length ys) = (i, x)" using nth [of "length ys"] len assms by simp
  then show "i < length xs" "xs ! i = x" using len by auto
  show "\<forall>j < i. (j, xs ! j) \<in> set ys"
  proof (intro allI impI)
    fix j assume "j < i"
    then have "enumerate 0 xs ! j = ys ! j" "j < length ys" using assms at by (simp_all add: nth_append)
    then show "(j, xs ! j) \<in> set ys" using nth [of j] len by (metis nth_mem trans_less_add1)
  qed
qed

lemma self_check_passes:
  assumes "grammar_ok g" and "vocab_len (cg_vocab g) + 1 < 2 ^ 32"
  shows "fst (self_check g samples) = Inr () \<longleftrightarrow>
    (\<forall>q \<in> set samples. accepts q \<and> snd (chop (cg_vocab g) q) = [])"
proof -
  have "set samples = snd ` set (enumerate 0 samples)" by (metis map_snd_enumerate set_map)
  then have "(\<forall>(i, q) \<in> set (enumerate 0 samples). P q) \<longleftrightarrow> (\<forall>q \<in> set samples. P q)" for P
    by (simp add: case_prod_unfold)
  then show ?thesis
    unfolding self_check_def using check_samples_result [OF assms] by simp
qed

section \<open>Properties\<close>

text \<open>C33: The longest match is what its name says: it is a token of the vocabulary that is a non-empty
  prefix of the remaining bytes, no matching token is longer, and among the longest it is the one
  with the smallest id; there is none exactly when no non-empty token is a prefix.\<close>

theorem longest_match_longest:
  assumes "vocab_len v < 2 ^ 32"
  shows "(longest_match v remaining = None \<longleftrightarrow>
      (\<forall>i. unat i < vocab_len v \<longrightarrow> token_bytes v i = [] \<or> \<not> prefix (token_bytes v i) remaining)) \<and>
    (\<forall>tok. longest_match v remaining = Some tok \<longrightarrow>
      unat tok < vocab_len v \<and> token_bytes v tok \<noteq> [] \<and> prefix (token_bytes v tok) remaining \<and>
      (\<forall>i. unat i < vocab_len v \<and> prefix (token_bytes v i) remaining \<longrightarrow>
        length (token_bytes v i) < length (token_bytes v tok) \<or>
        (length (token_bytes v i) = length (token_bytes v tok) \<and> tok \<le> i)))"
proof -
  note ids = token_ids_iff [OF assms]
  have none: "longest_match v remaining = None \<longleftrightarrow> (\<forall>i \<in> set (token_ids v). \<not> matches_at v remaining i)"
    using longest_match_None [of v remaining] longest_match_Some [of v remaining]
    by (cases "longest_match v remaining") auto
  have best: "(\<forall>i \<in> set (token_ids v). prefix (token_bytes v i) remaining \<longrightarrow>
        length (token_bytes v i) < length (token_bytes v tok) \<or>
        (length (token_bytes v i) = length (token_bytes v tok) \<and> tok \<le> i))"
    if m: "longest_match v remaining = Some tok" for tok
  proof -
    obtain len where "foldl (longest_step v remaining) None (token_ids v) = Some (tok, len)"
      using m by (auto simp: longest_match_def)
    then have "best_of v remaining (token_ids v) (Some (tok, len))" using longest_scan by metis
    then obtain xs ys where b: "token_ids v = xs @ tok # ys" "len = length (token_bytes v tok)"
      "matches_at v remaining tok"
      "\<forall>i \<in> set xs. matches_at v remaining i \<longrightarrow> length (token_bytes v i) < len"
      "\<forall>i \<in> set ys. matches_at v remaining i \<longrightarrow> length (token_bytes v i) \<le> len" by auto
    have "sorted_wrt (<) (token_ids v)" unfolding token_ids_def by (rule sorted_u32_range)
    then have later: "\<forall>i \<in> set ys. tok < i" by (simp add: b(1) sorted_wrt_append)
    show ?thesis
    proof (intro ballI impI)
      fix i assume i: "i \<in> set (token_ids v)" "prefix (token_bytes v i) remaining"
      have pos: "token_bytes v tok \<noteq> []" using b(3) by (simp add: matches_at_def)
      show "length (token_bytes v i) < length (token_bytes v tok) \<or>
        (length (token_bytes v i) = length (token_bytes v tok) \<and> tok \<le> i)"
      proof (cases "token_bytes v i = []")
        case False
        then have m: "matches_at v remaining i" using i(2) by (simp add: matches_at_def)
        consider "i \<in> set xs" | "i = tok" | "i \<in> set ys" using i(1) b(1) by auto
        then show ?thesis using b(2,4,5) later m by cases (auto simp: le_less)
      qed (use pos in simp)
    qed
  qed
  show ?thesis
    using none best longest_match_Some [of v remaining] by (auto simp: ids matches_at_def)
qed

theorem longest_match_longest_witness:
  "longest_match (from_byte_tokens [''a'', ''ab'', ''b'', ''ab''] 4) ''abc'' = Some 1 \<and>
   prefix ''ab'' ''abc''"
proof -
  let ?v = "from_byte_tokens [''a'', ''ab'', ''b'', ''ab''] 4"
  have m: "longest_match ?v ''abc'' = Some 1" by code_simp
  have "vocab_len ?v < 2 ^ 32" by (simp add: vocab_len_def from_byte_tokens_def)
  from longest_match_longest [OF this] m have "prefix (token_bytes ?v 1) ''abc''" by blast
  moreover have "token_bytes ?v 1 = ''ab''" by (simp add: from_byte_tokens_def token_bytes_def vocab_bytes_def vec_get_def)
  ultimately show ?thesis using m by simp
qed

text \<open>C12: The self-check passes exactly when every sample is a query of the grammar that the greedy
  longest-match chop covers to its last byte: although it drives a mask, a session and a
  filling cache over all samples in turn, nothing else can make it pass or fail.\<close>

theorem self_check_sound:
  assumes "grammar_ok g" and "vocab_len (cg_vocab g) + 1 < 2 ^ 32"
  shows "fst (self_check g samples) = Inr () \<longleftrightarrow>
    (\<forall>q \<in> set samples. accepts q \<and> snd (chop (cg_vocab g) q) = [])"
  using assms by (rule self_check_passes)

theorem self_check_sound_witness:
  "fst (self_check tiny [''|foo::A.all()->filter(x|$x.size > 1)'']) = Inr ()"
proof -
  have "accepts ''|foo::A.all()->filter(x|$x.size > 1)''"
    "snd (chop tiny_vocab ''|foo::A.all()->filter(x|$x.size > 1)'') = []"
    unfolding tiny_vocab_def by code_simp+
  then show ?thesis using self_check_sound [of tiny] by simp
qed

text \<open>C32: Every error of the self-check names the first sample that fails and why: an
  \<open>Unsegmentable\<close> carries the offset where the greedy chop stops behind a live prefix, with no token
  to continue; a \<open>DeadEnd\<close> carries an offset behind a live prefix and the longest match there, with which
  the prefix is no longer live; an \<open>Incomplete\<close> carries the length of a live sample that is
  chopped to its end and is no query.  All samples before it are queries that the chop covers.\<close>

theorem self_check_errors:
  assumes "grammar_ok g" and "vocab_len (cg_vocab g) + 1 < 2 ^ 32" and "fst (self_check g samples) = Inl e"
  shows "\<exists>i < length samples. sample_error (cg_vocab g) i (samples ! i) e \<and>
    (\<forall>j < i. accepts (samples ! j) \<and> snd (chop (cg_vocab g) (samples ! j)) = [])"
proof -
  from check_samples_result [OF assms(1,2), of "enumerate 0 samples"] assms(3)
  obtain xs i q ys where e: "enumerate 0 samples = xs @ (i, q) # ys"
    "\<forall>(i, q) \<in> set xs. accepts q \<and> snd (chop (cg_vocab g) q) = []" "sample_error (cg_vocab g) i q e"
    unfolding self_check_def by blast
  then show ?thesis
    using enumerate_split [OF e(1)] by (intro exI [of _ i]) auto
qed

theorem self_check_errors_witness:
  "\<exists>e. fst (self_check tiny [''|foo::A.all()->take(1)'']) = Inl e \<and> sample_error tiny_vocab 0 ''|foo::A.all()->take(1)'' e"
proof -
  have "snd (chop tiny_vocab ''|foo::A.all()->take(1)'') \<noteq> []"
    unfolding tiny_vocab_def by code_simp
  then have "fst (self_check tiny [''|foo::A.all()->take(1)'']) \<noteq> Inr ()"
    using self_check_passes [of tiny] by simp
  then obtain e where e: "fst (self_check tiny [''|foo::A.all()->take(1)'']) = Inl e"
    by (cases "fst (self_check tiny [''|foo::A.all()->take(1)''])") simp_all
  have "grammar_ok tiny" "vocab_len (cg_vocab tiny) + 1 < 2 ^ 32" by simp_all
  from self_check_errors [OF this e] have "sample_error tiny_vocab 0 ''|foo::A.all()->take(1)'' e" by auto
  with e show ?thesis by blast
qed

text \<open>A query of the grammar can only ever fail as \<open>Unsegmentable\<close>: the chop cuts the sample's own bytes, so
  a vocabulary without the needed bytes leaves it uncovered, and never makes it a dead end or incomplete.\<close>

lemma query_only_unsegmentable:
  assumes "accepts q" and "sample_error v i q e"
  shows "\<exists>pos. e = Unsegmentable i pos"
proof (cases e)
  case (DeadEnd qi pos tok)
  then have "longest_match v (drop pos q) = Some tok" "fst (feed pda_new (take pos q @ token_bytes v tok)) \<noteq> Inr ()"
    using assms(2) by simp_all
  moreover from this obtain zs where "drop pos q = token_bytes v tok @ zs"
    using longest_match_Some(2) [of v "drop pos q" tok] by (auto simp: matches_at_def prefix_def)
  then have "q = (take pos q @ token_bytes v tok) @ zs" by (metis append.assoc append_take_drop_id)
  ultimately show ?thesis
    using assms(1) extends_append [of pda_new "take pos q @ token_bytes v tok" zs] by (auto simp: extends_feed accepts_iff)
qed (use assms in auto)

end
