(* ===== verification/Rust_Text.thy ===== *)
theory Rust_Text
  imports Prelude "HOL-Library.Sublist"
begin

text \<open>
  The operations of \<open>str\<close> that the source uses, on the UTF-8 bytes of the text: searching
  (\<open>contains\<close>, \<open>find\<close>, \<open>matches\<close>), cutting (\<open>strip_prefix\<close>, \<open>split\<close>, \<open>lines\<close>, \<open>replace\<close>), the
  Unicode-aware \<open>trim\<close> family and the decimal text of an unsigned integer, with the laws the parsers
  rest on.
\<close>

text \<open>The two quotes and the backslash, and a text between double quotes.\<close>

abbreviation DQ :: u8 where "DQ \<equiv> CHR 0x22"
abbreviation SQ :: u8 where "SQ \<equiv> CHR 0x27"
abbreviation BACKSLASH :: u8 where "BACKSLASH \<equiv> CHR 0x5C"

definition quoted :: "bytes \<Rightarrow> bytes" where
  "quoted v = DQ # v @ [DQ]"

section \<open>Searching\<close>

text \<open>\<open>str::contains\<close>\<close>

fun str_contains :: "bytes \<Rightarrow> bytes \<Rightarrow> bool" where
  "str_contains [] needle = (needle = [])"
| "str_contains (b # bs) needle = (prefix needle (b # bs) \<or> str_contains bs needle)"

lemma str_contains_iff: "str_contains hay needle \<longleftrightarrow> sublist needle hay"
  by (induction hay) (auto simp: sublist_Cons_right)

lemma str_contains_mono: "str_contains hay needle \<Longrightarrow> str_contains (pre @ hay @ post) needle"
  unfolding str_contains_iff by (meson sublist_appendI sublist_order.order_trans)

lemma sublist_single: "sublist [b] hay \<longleftrightarrow> b \<in> set hay"
  by (simp add: sublist_def in_set_conv_decomp)

text \<open>\<open>str::find\<close> of a text: the byte offset of its first occurrence.\<close>

fun str_find :: "bytes \<Rightarrow> bytes \<Rightarrow> usize option" where
  "str_find [] needle = (if needle = [] then Some 0 else None)"
| "str_find (b # bs) needle =
    (if prefix needle (b # bs) then Some 0 else map_option Suc (str_find bs needle))"

lemma str_find_None: "str_find hay needle = None \<longleftrightarrow> \<not> sublist needle hay"
  by (induction hay) (auto simp: sublist_Cons_right)

lemma str_find_Some:
  "str_find hay needle = Some i \<Longrightarrow> i + length needle \<le> length hay \<and> prefix needle (drop i hay)"
  by (induction hay arbitrary: i) (force split: if_splits dest: prefix_length_le)+

lemma str_find_first: "str_find hay needle = Some i \<Longrightarrow> j < i \<Longrightarrow> \<not> prefix needle (drop j hay)"
  by (induction hay arbitrary: i j) (auto split: if_splits simp: less_Suc_eq_0_disj)

lemma str_find_prefix: "prefix needle hay \<Longrightarrow> str_find hay needle = Some 0"
  by (cases hay) auto

lemma str_find_char: "str_find hay [c] = (if c \<in> set hay then Some (length (takeWhile (\<lambda>b. b \<noteq> c) hay)) else None)"
  by (induction hay) auto

text \<open>A needle is found first behind text in which its first byte does not occur.\<close>

lemma str_find_skip:
  "n # needle = nd \<Longrightarrow> n \<notin> set pre \<Longrightarrow> str_find (pre @ hay) nd = map_option ((+) (length pre)) (str_find hay nd)"
  by (induction pre; cases "str_find hay nd") auto

lemma str_find_shorter:
  "str_find hay needle = Some i \<Longrightarrow> needle \<noteq> [] \<Longrightarrow> length hay - (i + length needle) < length hay"
  using str_find_Some [of hay needle i] by (cases needle) auto

text \<open>\<open>str::matches\<close>: the number of disjoint occurrences, found from the left.\<close>

function count_matches :: "bytes \<Rightarrow> bytes \<Rightarrow> nat" where
  "count_matches hay needle =
    (if needle = [] then length (filter (\<lambda>b. \<not> utf8_cont b) hay) + 1
     else case str_find hay needle of
       None \<Rightarrow> 0
     | Some i \<Rightarrow> Suc (count_matches (drop (i + length needle) hay) needle))"
  by auto
termination
  by (relation "measure (\<lambda>(hay, _). length hay)") (auto intro: str_find_shorter)

section \<open>Cutting\<close>

definition strip_prefix :: "bytes \<Rightarrow> bytes \<Rightarrow> bytes option" where
  "strip_prefix p s = (if prefix p s then Some (drop (length p) s) else None)"

lemma strip_prefix_append [simp]: "strip_prefix p (p @ s) = Some s"
  by (simp add: strip_prefix_def)

lemma strip_prefix_Cons [simp]:
  "strip_prefix [] s = Some s"
  "strip_prefix (c # p) [] = None"
  "strip_prefix (c # p) (b # s) = (if c = b then strip_prefix p s else None)"
  by (auto simp: strip_prefix_def)

text \<open>\<open>str::split\<close> on a predicate of ASCII characters: never empty.\<close>

fun split_on :: "(u8 \<Rightarrow> bool) \<Rightarrow> bytes \<Rightarrow> bytes list" where
  "split_on p [] = [[]]"
| "split_on p (b # bs) = (if p b then [] # split_on p bs else
    (case split_on p bs of w # ws \<Rightarrow> (b # w) # ws | [] \<Rightarrow> [[b]]))"

lemma split_on_ne [simp]: "split_on p s \<noteq> []"
  by (induction s) (auto split: list.splits)

lemma hd_split_on: "hd (split_on p s) = takeWhile (\<lambda>b. \<not> p b) s"
proof (induction s)
  case (Cons b bs)
  then show ?case using split_on_ne [of p bs] by (cases "split_on p bs") auto
qed simp

text \<open>\<open>str::lines\<close>: pieces end at a line feed, which is dropped together with a carriage return
  before it; a last piece without a line feed is a line unless it is empty, and keeps a carriage
  return at its end.\<close>

abbreviation LF :: u8 where "LF \<equiv> CHR 0x0A"
abbreviation CR :: u8 where "CR \<equiv> CHR 0x0D"

definition chomp_cr :: "bytes \<Rightarrow> bytes" where
  "chomp_cr l = (if l \<noteq> [] \<and> last l = CR then butlast l else l)"

fun lines_loop :: "bytes \<Rightarrow> bytes \<Rightarrow> bytes list" where
  "lines_loop cur [] = (if cur = [] then [] else [cur])"
| "lines_loop cur (b # bs) =
    (if b = LF then chomp_cr cur # lines_loop [] bs else lines_loop (cur @ [b]) bs)"

definition str_lines :: "bytes \<Rightarrow> bytes list" where
  "str_lines s = lines_loop [] s"

definition unlines :: "bytes list \<Rightarrow> bytes" where
  "unlines ls = concat (map (\<lambda>l. l @ [LF]) ls)"

definition line_text :: "bytes \<Rightarrow> bool" where
  "line_text l \<longleftrightarrow> LF \<notin> set l \<and> CR \<notin> set l"

text \<open>A TOML comment behind an entry: nothing, or any text behind a space and a hash.\<close>

definition comment_text :: "bytes \<Rightarrow> bool" where
  "comment_text c \<longleftrightarrow> line_text c \<and> (c = [] \<or> prefix '' #'' c)"

lemma lines_loop_line: "LF \<notin> set l \<Longrightarrow> lines_loop cur (l @ LF # s) = chomp_cr (cur @ l) # lines_loop [] s"
  by (induction l arbitrary: cur) auto

lemma chomp_cr_id [simp]: "line_text l \<Longrightarrow> chomp_cr l = l"
  by (auto simp: chomp_cr_def line_text_def dest: last_in_set)

lemma str_lines_unlines:
  "\<forall>l \<in> set ls. line_text l \<Longrightarrow> str_lines (unlines ls @ rest) = ls @ str_lines rest"
proof (induction ls)
  case (Cons l ls)
  then have "LF \<notin> set l" "line_text l" by (auto simp: line_text_def)
  with Cons show ?case by (simp add: str_lines_def unlines_def lines_loop_line)
qed (simp add: unlines_def)

lemma str_lines_Nil [simp]: "str_lines [] = []"
  by (simp add: str_lines_def)

lemma str_lines_single: "LF \<notin> set l \<Longrightarrow> str_lines l = (if l = [] then [] else [l])"
proof -
  have "LF \<notin> set l \<Longrightarrow> lines_loop cur l = (if cur @ l = [] then [] else [cur @ l])" for cur
    by (induction l arbitrary: cur) auto
  then show "LF \<notin> set l \<Longrightarrow> ?thesis" by (simp add: str_lines_def)
qed

text \<open>\<open>str::replace\<close> with a non-empty pattern.\<close>

function str_replace :: "bytes \<Rightarrow> bytes \<Rightarrow> bytes \<Rightarrow> bytes" where
  "str_replace s pat to =
    (if pat = [] then s
     else case str_find s pat of
       None \<Rightarrow> s
     | Some i \<Rightarrow> take i s @ to @ str_replace (drop (i + length pat) s) pat to)"
  by auto
termination
  by (relation "measure (\<lambda>(s, _, _). length s)") (auto intro: str_find_shorter)

declare count_matches.simps [simp del] str_replace.simps [simp del]

section \<open>Trimming\<close>

text \<open>The UTF-8 encodings of the characters with the Unicode property White_Space.\<close>

definition WHITE_SPACE :: "bytes list" where
  "WHITE_SPACE =
    [[CHR '' ''], [CHR 0x09], [CHR 0x0A], [CHR 0x0B], [CHR 0x0C], [CHR 0x0D],
     [CHR 0xC2, CHR 0x85], [CHR 0xC2, CHR 0xA0], [CHR 0xE1, CHR 0x9A, CHR 0x80]] @
    map (\<lambda>b. [CHR 0xE2, CHR 0x80, b])
      [CHR 0x80, CHR 0x81, CHR 0x82, CHR 0x83, CHR 0x84, CHR 0x85, CHR 0x86, CHR 0x87, CHR 0x88,
       CHR 0x89, CHR 0x8A, CHR 0xA8, CHR 0xA9, CHR 0xAF] @
    [[CHR 0xE2, CHR 0x81, CHR 0x9F], [CHR 0xE3, CHR 0x80, CHR 0x80]]"

definition leading_ws :: "bytes \<Rightarrow> usize" where
  "leading_ws s = (case find (\<lambda>w. prefix w s) WHITE_SPACE of Some w \<Rightarrow> length w | None \<Rightarrow> 0)"

definition trailing_ws :: "bytes \<Rightarrow> usize" where
  "trailing_ws s = (case find (\<lambda>w. suffix w s) WHITE_SPACE of Some w \<Rightarrow> length w | None \<Rightarrow> 0)"

lemma WHITE_SPACE_ne: "w \<in> set WHITE_SPACE \<Longrightarrow> w \<noteq> []"
  by (auto simp: WHITE_SPACE_def)

lemma leading_ws_le: "leading_ws s \<le> length s"
  by (auto simp: leading_ws_def find_Some_iff split: option.splits dest: prefix_length_le)

lemma trailing_ws_le: "trailing_ws s \<le> length s"
  by (auto simp: trailing_ws_def find_Some_iff split: option.splits dest: suffix_length_le)

function trim_start :: "bytes \<Rightarrow> bytes" where
  "trim_start s = (if leading_ws s = 0 then s else trim_start (drop (leading_ws s) s))"
  by auto
termination
proof (relation "measure length")
  fix s :: bytes assume "leading_ws s \<noteq> 0"
  then show "(drop (leading_ws s) s, s) \<in> measure length" using leading_ws_le [of s] by simp
qed simp

function trim_end :: "bytes \<Rightarrow> bytes" where
  "trim_end s = (if trailing_ws s = 0 then s else trim_end (take (length s - trailing_ws s) s))"
  by auto
termination
proof (relation "measure length")
  fix s :: bytes assume "trailing_ws s \<noteq> 0"
  then show "(take (length s - trailing_ws s) s, s) \<in> measure length" using trailing_ws_le [of s] by simp
qed simp

declare trim_start.simps [simp del] trim_end.simps [simp del]

definition trim :: "bytes \<Rightarrow> bytes" where
  "trim s = trim_end (trim_start s)"

text \<open>A printable ASCII byte other than the space ends every run of white space.\<close>

definition solid :: "u8 \<Rightarrow> bool" where
  "solid b = byte_between (CHR ''!'') (CHR ''~'') b"

lemma WHITE_SPACE_not_solid: "w \<in> set WHITE_SPACE \<Longrightarrow> b \<in> set w \<Longrightarrow> \<not> solid b"
  by (auto simp: WHITE_SPACE_def solid_def byte_between_def)

lemma leading_ws_solid: "solid b \<Longrightarrow> leading_ws (b # s) = 0"
proof -
  assume b: "solid b"
  have "\<not> prefix w (b # s)" if "w \<in> set WHITE_SPACE" for w
    using WHITE_SPACE_ne [OF that] WHITE_SPACE_not_solid [OF that] b by (cases w) auto
  then have "find (\<lambda>w. prefix w (b # s)) WHITE_SPACE = None" by (simp add: find_None_iff)
  then show ?thesis by (simp add: leading_ws_def)
qed

lemma trailing_ws_solid: "solid b \<Longrightarrow> trailing_ws (s @ [b]) = 0"
proof -
  assume b: "solid b"
  have "\<not> suffix w (s @ [b])" if "w \<in> set WHITE_SPACE" for w
    using WHITE_SPACE_ne [OF that] WHITE_SPACE_not_solid [OF that] b
    by (cases w rule: rev_cases) auto
  then have "find (\<lambda>w. suffix w (s @ [b])) WHITE_SPACE = None" by (simp add: find_None_iff)
  then show ?thesis by (simp add: trailing_ws_def)
qed

lemma leading_ws_space: "leading_ws (CHR '' '' # s) = 1"
  by (simp add: leading_ws_def WHITE_SPACE_def)

lemma trailing_ws_space: "trailing_ws (s @ [CHR '' '']) = 1"
  by (simp add: trailing_ws_def WHITE_SPACE_def)

lemma trim_start_Nil [simp]: "trim_start [] = []"
  using leading_ws_le [of "[]"] by (subst trim_start.simps) simp

lemma trim_end_Nil [simp]: "trim_end [] = []"
  using trailing_ws_le [of "[]"] by (subst trim_end.simps) simp

lemma trim_Nil [simp]: "trim [] = []"
  by (simp add: trim_def)

lemma trim_sublist: "sublist (trim s) s"
proof -
  have "suffix (trim_start s) s" for s
  proof (induction s rule: trim_start.induct)
    case (1 s)
    then show ?case
      by (subst trim_start.simps) (auto intro: suffix_order.order_trans [OF _ suffix_drop])
  qed
  moreover have "prefix (trim_end s) s" for s
  proof (induction s rule: trim_end.induct)
    case (1 s)
    then show ?case
      by (subst trim_end.simps) (auto intro: prefix_order.order_trans [OF _ take_is_prefix])
  qed
  ultimately show ?thesis
    by (metis prefix_imp_sublist sublist_order.order_trans suffix_imp_sublist trim_def)
qed

lemma trim_start_solid: "solid b \<Longrightarrow> trim_start (b # s) = b # s"
  by (simp add: trim_start.simps leading_ws_solid)

lemma trim_start_space [simp]: "trim_start (CHR '' '' # s) = trim_start s"
  by (subst trim_start.simps) (simp add: leading_ws_space)

lemma trim_end_solid: "solid b \<Longrightarrow> trim_end (s @ [b]) = s @ [b]"
  by (simp add: trim_end.simps trailing_ws_solid)

lemma trim_end_space [simp]: "trim_end (s @ [CHR '' '']) = trim_end s"
  by (subst trim_end.simps) (simp add: trailing_ws_space)

lemma trim_edges: "s \<noteq> [] \<Longrightarrow> solid (hd s) \<Longrightarrow> solid (last s) \<Longrightarrow> trim s = s"
  by (metis append_butlast_last_id list.exhaust_sel trim_def trim_end_solid trim_start_solid)

lemma trim_end_edge: "s \<noteq> [] \<Longrightarrow> solid (last s) \<Longrightarrow> trim_end s = s"
  by (metis append_butlast_last_id trim_end_solid)

lemma trim_start_edge: "s \<noteq> [] \<Longrightarrow> solid (hd s) \<Longrightarrow> trim_start s = s"
  by (metis list.exhaust_sel trim_start_solid)

lemma trailing_ws_bound: "solid b \<Longrightarrow> trailing_ws (s @ b # w) \<le> length w"
proof (cases "find (\<lambda>v. suffix v (s @ b # w)) WHITE_SPACE")
  case (Some v)
  assume b: "solid b"
  from Some have v: "v \<in> set WHITE_SPACE" "suffix v (s @ b # w)"
    by (auto simp: find_Some_iff)
  have "length v \<le> length w"
  proof (rule ccontr)
    assume "\<not> length v \<le> length w"
    then have "suffix (b # w) v"
      using v(2) by (intro suffix_length_suffix [OF _ v(2)]) (auto simp: suffix_def)
    then have "b \<in> set v" using set_mono_suffix by fastforce
    with b WHITE_SPACE_not_solid [OF v(1)] show False by blast
  qed
  with Some show ?thesis by (simp add: trailing_ws_def)
qed (simp add: trailing_ws_def)

text \<open>Trimming the end stops at a solid byte.\<close>

lemma trim_end_keeps: "solid b \<Longrightarrow> \<exists>w'. prefix w' w \<and> trim_end (s @ b # w) = s @ b # w'"
proof (induction "length w" arbitrary: w rule: less_induct)
  case less
  define k where "k = trailing_ws (s @ b # w)"
  show ?case
  proof (cases "k = 0")
    case True
    then show ?thesis by (subst trim_end.simps) (auto simp: k_def)
  next
    case False
    have k: "k \<le> length w" using trailing_ws_bound [OF less.prems] by (simp add: k_def)
    define u where "u = take (length w - k) w"
    have "trim_end (s @ b # w) = trim_end (s @ b # u)"
      using False k by (subst trim_end.simps) (simp add: k_def u_def Suc_diff_le)
    moreover have "length u < length w" using False k by (simp add: u_def)
    ultimately show ?thesis
      using less.hyps [of u] less.prems take_is_prefix [of "length w - k" w]
      by (metis u_def prefix_order.order_trans)
  qed
qed

section \<open>Integers as text\<close>

text \<open>The decimal text of an unsigned integer.\<close>

fun decimal :: "nat \<Rightarrow> string" where
  "decimal n =
    (if n < 10 then [char_of (48 + n)] else decimal (n div 10) @ [char_of (48 + n mod 10)])"

declare decimal.simps [simp del]

text \<open>Reading the decimal text back.\<close>

definition read_decimal :: "string \<Rightarrow> nat" where
  "read_decimal ds = foldl (\<lambda>n d. 10 * n + (of_char d - 48)) 0 ds"

lemma read_decimal_decimal [simp]: "read_decimal (decimal n) = n"
proof (induction n rule: decimal.induct)
  case (1 n)
  show ?case
  proof (cases "n < 10")
    case True
    then show ?thesis by (simp add: decimal.simps [of n] read_decimal_def)
  next
    case False
    moreover have "(48 + n mod 10) mod 256 = 48 + n mod 10" by simp
    ultimately show ?thesis
      using 1 by (subst decimal.simps) (simp add: read_decimal_def)
  qed
qed

lemma decimal_inj: "decimal m = decimal n \<longleftrightarrow> m = n"
  by (metis read_decimal_decimal)

lemma decimal_digits: "c \<in> set (decimal n) \<Longrightarrow> is_ascii_digit c"
proof (induction n rule: decimal.induct)
  case (1 n)
  have digit: "is_ascii_digit (char_of (48 + k))" if "k < 10" for k :: nat
    using that by (simp add: is_ascii_digit_def byte_between_def)
  show ?case
    using 1 digit [of n] digit [of "n mod 10"]
    by (subst (asm) (2) decimal.simps) (auto split: if_splits)
qed

lemma decimal_split:
  assumes "decimal m @ c # xs = decimal n @ d # ys" and "\<not> is_ascii_digit c" and "\<not> is_ascii_digit d"
  shows "m = n" "c # xs = d # ys"
proof -
  have "takeWhile is_ascii_digit (decimal k @ e # zs) = decimal k" if "\<not> is_ascii_digit e" for k e zs
    using decimal_digits that by (simp add: takeWhile_append)
  then have "decimal m = decimal n" using assms by metis
  then show "m = n" "c # xs = d # ys" using assms(1) by (simp_all add: decimal_inj)
qed

lemma decimal_ne [simp]: "decimal n \<noteq> []"
  by (subst decimal.simps) simp

text \<open>\<open>str::parse::<usize>\<close>: an optional plus sign, then at least one digit and nothing else, and a
  value that fits 64 bits.\<close>

definition parse_usize :: "bytes \<Rightarrow> usize option" where
  "parse_usize s =
    (let ds = (case s of CHR ''+'' # d # ds \<Rightarrow> d # ds | _ \<Rightarrow> s)
     in if ds = [] \<or> \<not> list_all is_ascii_digit ds \<or> 2 ^ 64 \<le> read_decimal ds then None
        else Some (read_decimal ds))"

lemma parse_usize_decimal: "parse_usize (decimal n) = (if n < 2 ^ 64 then Some n else None)"
proof -
  have ds: "list_all is_ascii_digit (decimal n)" by (auto simp: list_all_iff dest: decimal_digits)
  obtain d ds' where dec: "decimal n = d # ds'" by (cases "decimal n") auto
  with ds have "is_ascii_digit d" by simp
  then have "d \<noteq> CHR ''+''" by (auto simp: is_ascii_digit_def byte_between_def)
  then have "(case decimal n of CHR ''+'' # d # ds \<Rightarrow> d # ds | _ \<Rightarrow> decimal n) = decimal n"
    unfolding dec by (auto split: list.splits char.splits bool.splits)
  then show ?thesis using ds by (simp add: parse_usize_def)
qed

text \<open>\<open>slice::join\<close> with a separator.\<close>

fun join :: "bytes \<Rightarrow> bytes list \<Rightarrow> bytes" where
  "join sep [] = []"
| "join sep [x] = x"
| "join sep (x # y # ys) = x @ sep @ join sep (y # ys)"

end
