(* ===== verification/Python_Boundary.thy ===== *)
theory Python_Boundary
  imports Session_Props Rust_Text
begin

text \<open>
  The Python surface of \<open>src/src/ffi.rs\<close>: a session object that owns a decode session and a reused
  byte buffer, the packing of its mask, and the conversion of the core errors into the one
  exception type with their \<open>Display\<close> text.  The shared grammar behind the \<open>Rc\<close> is the grammar
  the operations take and return; the JSON parser of the schema and the text of its error are
  parameters.
\<close>

section \<open>Display\<close>
definition hex_digit :: "nat \<Rightarrow> char" where
  "hex_digit n = (if n < 10 then char_of (48 + n) else char_of (87 + n))"

text \<open>The format \<open>{:#04x}\<close> of a byte.\<close>

definition hex_byte :: "u8 \<Rightarrow> string" where
  "hex_byte b = ''0x'' @ [hex_digit (of_char b div 16), hex_digit (of_char b mod 16)]"

fun decode_error_display :: "decode_error \<Rightarrow> string" where
  "decode_error_display (DeadState offset b st frm) =
    ''recognizer reached a dead state at offset '' @ decimal offset @ '' (byte '' @ hex_byte b @
    '') in state '' @ st @ '' with stack top '' @ frm"
| "decode_error_display (InadmissibleToken tok) =
    ''token id '' @ decimal (unat tok) @ '' is inadmissible: its bytes dead-end the recognizer''"
| "decode_error_display (UnknownToken tok) =
    ''token id '' @ decimal (unat tok) @ '' is unknown: no entry in the host vocabulary''"
| "decode_error_display UnexpectedEos =
    ''end-of-stream is not legal here: the query is not yet complete''"

fun schema_error_display :: "('e \<Rightarrow> string) \<Rightarrow> 'e schema_error \<Rightarrow> string" where
  "schema_error_display show_json (SchemaJson e) =
    ''schema JSON is not a valid Schema contract: '' @ show_json e"

datatype py_error = PureCARDError string

definition decode_py_error :: "decode_error \<Rightarrow> py_error" where
  "decode_py_error err = PureCARDError (decode_error_display err)"

definition schema_py_error :: "('e \<Rightarrow> string) \<Rightarrow> 'e schema_error \<Rightarrow> py_error" where
  "schema_py_error show_json err = PureCARDError (schema_error_display show_json err)"

section \<open>The classes\<close>

definition py_compile_grammar :: "string \<Rightarrow> bytes list \<Rightarrow> u32 \<Rightarrow> compiled_grammar" where
  "py_compile_grammar spec byte_tokens eos_id = from_spec spec (from_byte_tokens byte_tokens eos_id)"

record py_session =
  py_cell :: decoder_session
  py_mask :: bytes
  py_vocab_len :: usize

definition py_session_new :: "(bytes \<Rightarrow> 'e + schema_data) \<Rightarrow> ('e \<Rightarrow> string) \<Rightarrow> compiled_grammar
    \<Rightarrow> bytes option \<Rightarrow> py_error + py_session" where
  "py_session_new from_str show_json g schema_json =
    (let size_v = vocab_len (cg_vocab g) in
     case (case schema_json of
             Some json \<Rightarrow> map_sum (\<lambda>e. e) Some (from_json from_str json)
           | None \<Rightarrow> Inr None) of
       Inl err \<Rightarrow> Inl (schema_py_error show_json err)
     | Inr sch \<Rightarrow>
         Inr \<lparr>py_cell = (case sch of Some s \<Rightarrow> with_schema g s | None \<Rightarrow> session_new g),
              py_mask = [], py_vocab_len = size_v\<rparr>)"

definition py_allowed_mask :: "py_session \<Rightarrow> compiled_grammar \<Rightarrow> bytes \<times> py_session \<times> compiled_grammar" where
  "py_allowed_mask ps g =
    (case allowed_mask (py_cell ps) g of
       (m, se, g') \<Rightarrow>
         (let buf = pack_le_bytes_into m (py_mask ps)
          in (buf, ps\<lparr>py_cell := se, py_mask := buf\<rparr>, g')))"

definition py_accept_token :: "py_session \<Rightarrow> compiled_grammar \<Rightarrow> u32 \<Rightarrow> (py_error + unit) \<times> py_session" where
  "py_accept_token ps g tok =
    (case accept_token (py_cell ps) g tok of
       (Inl err, se) \<Rightarrow> (Inl (decode_py_error err), ps\<lparr>py_cell := se\<rparr>)
     | (Inr _, se) \<Rightarrow> (Inr (), ps\<lparr>py_cell := se\<rparr>))"

definition py_is_complete :: "py_session \<Rightarrow> bool" where
  "py_is_complete ps = is_complete (py_cell ps)"

definition py_reset :: "py_session \<Rightarrow> py_session" where
  "py_reset ps = ps\<lparr>py_cell := session_reset (py_cell ps)\<rparr>"

definition py_get_vocab_len :: "py_session \<Rightarrow> usize" where
  "py_get_vocab_len ps = py_vocab_len ps"

section \<open>Lemmas\<close>

definition py_ok :: "compiled_grammar \<Rightarrow> py_session \<Rightarrow> bool" where
  "py_ok g ps \<longleftrightarrow> session_ok g (py_cell ps) \<and> py_vocab_len ps = vocab_len (cg_vocab g)"

lemma py_session_new_ok:
  assumes "grammar_ok g" and "vocab_len (cg_vocab g) + 1 < 2 ^ 32"
    and "py_session_new from_str show_json g schema_json = Inr ps"
  shows "py_ok g ps"
  using assms session_build_ok [OF assms(1,2)]
  by (auto simp: py_ok_def py_session_new_def Let_def session_new_def with_schema_def
      split: sum.splits option.splits)

lemma py_reset_ok: "py_ok g ps \<Longrightarrow> py_ok g (py_reset ps)"
  by (simp add: py_ok_def py_reset_def session_reset_ok)

lemma py_accept_token_ok: "py_ok g ps \<Longrightarrow> py_ok g (snd (py_accept_token ps g tok))"
  using accept_token_ok [of g "py_cell ps" tok]
  by (auto simp: py_ok_def py_accept_token_def split: prod.splits sum.splits)

text \<open>The getter reads the length of the vocabulary of the grammar, the index of the bit for the end
  of the stream, at every moment of the life of the object.\<close>

lemma py_get_vocab_len: "py_ok g ps \<Longrightarrow> py_get_vocab_len ps = unat (eos_bit g)"
  by (simp add: py_get_vocab_len_def py_ok_def session_ok_def eos_laws(1))

text \<open>The errors \<open>accept_token\<close> raises are told apart by their text.\<close>

definition token_error :: "decode_error \<Rightarrow> bool" where
  "token_error e \<longleftrightarrow> e = UnexpectedEos \<or> (\<exists>t. e = UnknownToken t \<or> e = InadmissibleToken t)"

lemma display_inj:
  assumes "token_error e" and "token_error f" and "decode_error_display e = decode_error_display f"
  shows "e = f"
proof -
  have space: "\<not> is_ascii_digit (CHR '' '')" by (simp add: is_ascii_digit_def byte_between_def)
  have mixed: "decimal m @ '' is unknown: no entry in the host vocabulary'' \<noteq>
      decimal n @ '' is inadmissible: its bytes dead-end the recognizer''" for m n
  proof
    assume eq: "decimal m @ '' is unknown: no entry in the host vocabulary'' =
      decimal n @ '' is inadmissible: its bytes dead-end the recognizer''"
    from decimal_split(2) [OF eq space space] show False by simp
  qed
  show ?thesis
    using assms mixed mixed [symmetric]
    by (cases e; cases f) (simp_all add: token_error_def decimal_inj word_unat_eq_iff)
qed

lemma accept_token_error:
  assumes "accept_token se g tok = (Inl e, se')"
  shows "token_error e \<and> se' = se \<and> (e = UnexpectedEos \<or> e = UnknownToken tok \<or> e = InadmissibleToken tok)"
  using accept_token_result [OF assms] by (auto simp: token_error_def split: if_splits)

section \<open>Properties\<close>

text \<open>C36: The packed mask is the mask: the bytes handed to Python have length \<open>ceil((V + 1) / 8)\<close>, bit
  \<open>id mod 8\<close> of byte \<open>id div 8\<close> is set for a token \<open>id\<close> of the vocabulary exactly when the automaton
  survives its bytes and the schema rules of the position keep it, and bit \<open>V\<close> exactly when the
  stream is complete; whatever the reused buffer held before, and the object stays usable.\<close>

theorem packed_mask_bits:
  assumes "py_ok g ps" and "names_ok (py_cell ps)" and "py_allowed_mask ps g = (out, ps', g')"
  shows "length out = div_ceil (py_vocab_len ps + 1) 8 \<and>
    (\<forall>i. unat i < py_vocab_len ps \<longrightarrow>
      (bit (of_char (out ! (unat i div 8)) :: nat) (unat i mod 8) \<longleftrightarrow>
        fst (feed (se_pda (py_cell ps)) (token_bytes (cg_vocab g) i)) = Inr () \<and>
        overlay_keeps (py_cell ps) (token_bytes (cg_vocab g) i))) \<and>
    (bit (of_char (out ! (py_vocab_len ps div 8)) :: nat) (py_vocab_len ps mod 8) \<longleftrightarrow> py_is_complete ps) \<and>
    py_ok g' ps'"
proof -
  have ok: "session_ok g (py_cell ps)" and len: "py_vocab_len ps = vocab_len (cg_vocab g)"
    using assms(1) by (simp_all add: py_ok_def)
  obtain m se where run: "allowed_mask (py_cell ps) g = (m, se, g')"
    and out: "out = pack_le_bytes_into m (py_mask ps)" and ps': "ps' = ps\<lparr>py_cell := se, py_mask := out\<rparr>"
    using assms(3) by (auto simp: py_allowed_mask_def Let_def split: prod.splits)
  note laws = allowed_mask_laws [OF ok run]
  have small: "vocab_len (cg_vocab g) + 1 < 2 ^ 32" using ok by (simp add: session_ok_def)
  note eos = eos_laws(1) [OF small]
  have m: "bm_ok m" "bm_len m = vocab_len (cg_vocab g) + 1"
    using laws(2,3,4) by (simp_all add: session_ok_def buffer_ok_def)
  have bits: "bm_test m i \<longleftrightarrow> syntactic g (se_pda (py_cell ps)) i \<and>
      (i = eos_bit g \<or> overlay_keeps (py_cell ps) (token_bytes (cg_vocab g) i))" for i
    using laws(1) assms(2) by auto
  have packed: "length out = div_ceil (bm_len m) 8 \<and>
      (bit (of_char (out ! (unat i div 8)) :: nat) (unat i mod 8) \<longleftrightarrow> bm_test m i)" if "unat i < bm_len m" for i
    unfolding out by (rule packed_bit [OF m(1) that])
  have "\<forall>i. unat i < py_vocab_len ps \<longrightarrow>
      (bit (of_char (out ! (unat i div 8)) :: nat) (unat i mod 8) \<longleftrightarrow>
        fst (feed (se_pda (py_cell ps)) (token_bytes (cg_vocab g) i)) = Inr () \<and>
        overlay_keeps (py_cell ps) (token_bytes (cg_vocab g) i))"
    using packed bits eos by (auto simp: m(2) len syntactic_def extends_feed)
  moreover have "bit (of_char (out ! (py_vocab_len ps div 8)) :: nat) (py_vocab_len ps mod 8) \<longleftrightarrow> py_is_complete ps"
    using packed [of "eos_bit g"] bits [of "eos_bit g"] eos
    by (simp add: m(2) len syntactic_def py_is_complete_def is_complete_def)
  moreover have "py_ok g' ps'" using laws(2,3) len by (simp add: py_ok_def ps')
  ultimately show ?thesis using packed [of "eos_bit g"] by (simp add: m(2) len eos)
qed

theorem packed_mask_bits_witness:
  "length (fst (py_allowed_mask \<lparr>py_cell = session_new tiny, py_mask = ''stale'', py_vocab_len = 7\<rparr> tiny)) = 1"
proof -
  let ?ps = "\<lparr>py_cell = session_new tiny, py_mask = ''stale'', py_vocab_len = 7\<rparr>"
  obtain out ps' g' where run: "py_allowed_mask ?ps tiny = (out, ps', g')" by (metis prod.collapse)
  have "py_ok tiny ?ps" by (simp add: py_ok_def session_new_def tiny_session)
  moreover have "names_ok (py_cell ?ps)" by (simp add: names_ok_def session_new_def session_build_def)
  ultimately have "length out = div_ceil (py_vocab_len ?ps + 1) 8" using packed_mask_bits run by blast
  then show ?thesis by (simp add: run div_ceil_def)
qed

text \<open>A rejected token surfaces in Python as one exception whose text identifies the rejection: the
  exception is raised exactly when the core refuses the token, the object is then unchanged, and
  two refusals with the same text are the same error of the same token.\<close>

theorem python_rejection_identified:
  assumes "py_accept_token ps g tok = (r, ps')" and "py_accept_token ps2 g2 tok2 = (r2, ps2')"
  shows "(r = Inr () \<longleftrightarrow> fst (accept_token (py_cell ps) g tok) = Inr ()) \<and>
    (r \<noteq> Inr () \<longrightarrow> ps' = ps) \<and>
    (r \<noteq> Inr () \<and> r = r2 \<longrightarrow> fst (accept_token (py_cell ps2) g2 tok2) = fst (accept_token (py_cell ps) g tok))"
proof -
  obtain x se where a: "accept_token (py_cell ps) g tok = (x, se)" by fastforce
  obtain y se2 where b: "accept_token (py_cell ps2) g2 tok2 = (y, se2)" by fastforce
  show ?thesis
  proof (cases x)
    case (Inl e)
    note ea = accept_token_error [OF a [unfolded Inl]]
    have r: "r = Inl (decode_py_error e)" "ps' = ps"
      using assms(1) a Inl ea by (auto simp: py_accept_token_def)
    have "y = Inl e" if "r2 = Inl (decode_py_error e)"
    proof (cases y)
      case (Inl f)
      note eb = accept_token_error [OF b [unfolded Inl]]
      have "decode_error_display f = decode_error_display e"
        using that assms(2) b Inl by (simp add: py_accept_token_def decode_py_error_def)
      then show ?thesis using display_inj [of f e] ea eb Inl by simp
    qed (use that assms(2) b in \<open>simp add: py_accept_token_def\<close>)
    then show ?thesis using r a b Inl by auto
  next
    case (Inr u)
    then show ?thesis using assms(1) a by (simp add: py_accept_token_def)
  qed
qed

theorem python_rejection_identified_witness:
  "fst (py_accept_token \<lparr>py_cell = session_new tiny, py_mask = [], py_vocab_len = 7\<rparr> tiny 1) \<noteq> Inr ()"
proof -
  let ?ps = "\<lparr>py_cell = session_new tiny, py_mask = [], py_vocab_len = 7\<rparr>"
  obtain r ps' where run: "py_accept_token ?ps tiny 1 = (r, ps')" by fastforce
  have dead: "fst (feed pda_new ''foo::A'') \<noteq> Inr ()" by code_simp
  have "vocab_bytes tiny_vocab 1 = Some ''foo::A''"
    by (simp add: tiny_vocab_def from_byte_tokens_def vocab_bytes_def vec_get_def)
  then have "fst (accept_token (session_new tiny) tiny 1) \<noteq> Inr ()"
    using dead by (simp add: accept_token_Inr_iff extends_feed session_new_def session_build_def vocab_bytes_token
        del: feed.simps)
  then show ?thesis using python_rejection_identified [OF run run] by (simp add: run)
qed

end
