(* ===== verification/Guarantee.thy ===== *)
theory Guarantee
  imports Rust_Text
begin

text \<open>
  Two small classifications: the envelope of a query by its marker substrings
  (\<open>src/src/grammar/mod.rs\<close>) and the levels of guarantee (\<open>src/src/lib.rs\<close>), whose derived order
  is an instance of \<^theory_text>\<open>linorder\<close>.
\<close>

section \<open>Envelopes\<close>

datatype envelope = Relational | ClassNav | RelationApi

definition RELATIONAL_MARKER :: bytes where
  "RELATIONAL_MARKER = ''tableReference''"

definition CLASS_NAV_MARKER :: bytes where
  "CLASS_NAV_MARKER = ''.all(''"

definition RELATION_API_MARKER :: bytes where
  "RELATION_API_MARKER = ''~''"

definition classify_envelope :: "bytes \<Rightarrow> envelope option" where
  "classify_envelope query =
    (if str_contains query RELATION_API_MARKER then Some RelationApi
     else if str_contains query RELATIONAL_MARKER then Some Relational
     else if str_contains query CLASS_NAV_MARKER then Some ClassNav
     else None)"

text \<open>The strength of a classification: how early its marker is tested.\<close>

fun envelope_rank :: "envelope option \<Rightarrow> nat" where
  "envelope_rank None = 0"
| "envelope_rank (Some ClassNav) = 1"
| "envelope_rank (Some Relational) = 2"
| "envelope_rank (Some RelationApi) = 3"

section \<open>Guarantee levels\<close>

datatype guarantee_level = Syntactic | SchemaConsistent | Faithful

fun level_rank :: "guarantee_level \<Rightarrow> nat" where
  "level_rank Syntactic = 0"
| "level_rank SchemaConsistent = 1"
| "level_rank Faithful = 2"

instantiation guarantee_level :: linorder
begin

definition less_eq_guarantee_level :: "guarantee_level \<Rightarrow> guarantee_level \<Rightarrow> bool" where
  "less_eq_guarantee_level a b \<longleftrightarrow> level_rank a \<le> level_rank b"

definition less_guarantee_level :: "guarantee_level \<Rightarrow> guarantee_level \<Rightarrow> bool" where
  "less_guarantee_level a b \<longleftrightarrow> level_rank a < level_rank b"

instance
proof
  fix a b c :: guarantee_level
  show "a < b \<longleftrightarrow> a \<le> b \<and> \<not> b \<le> a" "a \<le> a" "a \<le> b \<or> b \<le> a"
    by (auto simp: less_eq_guarantee_level_def less_guarantee_level_def)
  show "a \<le> b \<Longrightarrow> b \<le> c \<Longrightarrow> a \<le> c" by (simp add: less_eq_guarantee_level_def)
  show "a \<le> b \<Longrightarrow> b \<le> a \<Longrightarrow> a = b"
    by (cases a; cases b) (simp_all add: less_eq_guarantee_level_def)
qed

end

definition MAX_ENFORCEABLE :: guarantee_level where
  "MAX_ENFORCEABLE = SchemaConsistent"

definition guarantees :: "guarantee_level \<Rightarrow> guarantee_level \<Rightarrow> bool" where
  "guarantees l other \<longleftrightarrow> l \<ge> other"

definition is_enforceable :: "guarantee_level \<Rightarrow> bool" where
  "is_enforceable l \<longleftrightarrow> l \<le> MAX_ENFORCEABLE"

lemma enforceable_iff: "is_enforceable l \<longleftrightarrow> guarantees MAX_ENFORCEABLE l"
  "guarantees l other \<Longrightarrow> is_enforceable l \<Longrightarrow> is_enforceable other"
  "is_enforceable l \<longleftrightarrow> l \<noteq> Faithful"
  by (cases l; cases other; simp add: is_enforceable_def guarantees_def MAX_ENFORCEABLE_def less_eq_guarantee_level_def)+

section \<open>Property\<close>

text \<open>Classification by envelope is decided by the strongest marker, and context only strengthens
  it: a query is relation-API exactly when it holds a \<open>~\<close>, otherwise relational exactly when
  \<open>tableReference\<close> occurs in it, otherwise class navigation exactly when \<open>.all(\<close> does; and
  embedding a query in a longer text never weakens its class.\<close>

theorem envelope_by_strongest_marker:
  "(classify_envelope q = Some RelationApi \<longleftrightarrow> CHR ''~'' \<in> set q) \<and>
   (classify_envelope q = Some Relational \<longleftrightarrow> CHR ''~'' \<notin> set q \<and> sublist ''tableReference'' q) \<and>
   (classify_envelope q = Some ClassNav \<longleftrightarrow>
      CHR ''~'' \<notin> set q \<and> \<not> sublist ''tableReference'' q \<and> sublist ''.all('' q) \<and>
   envelope_rank (classify_envelope q) \<le> envelope_rank (classify_envelope (pre @ q @ post))"
  using str_contains_mono [of q _ pre post]
  by (auto simp: classify_envelope_def RELATION_API_MARKER_def RELATIONAL_MARKER_def CLASS_NAV_MARKER_def
      str_contains_iff sublist_single)

end
