(* ===== verification/Manifest_Gate.thy ===== *)
theory Manifest_Gate
  imports Rust_Text "HOL-Library.Monad_Syntax"
begin

text \<open>
  The hand-written scan of a Cargo manifest in \<open>src/xtask/src/tasks.rs\<close>: the runtime
  dependencies of the core, judged by the dependency gate.  Slicing a
  \<open>str\<close> inside a character panics, which is the value \<^term>\<open>None\<close> of the scan that can do it.
\<close>

section \<open>Lines\<close>

definition is_quote :: "u8 \<Rightarrow> bool" where
  "is_quote b \<longleftrightarrow> b = DQ \<or> b = SQ"

definition is_key_byte :: "u8 \<Rightarrow> bool" where
  "is_key_byte b = (is_ascii_alphanumeric b \<or> b = CHR ''_'' \<or> b = CHR ''-'')"

fun comment_start :: "u8 option \<Rightarrow> usize \<Rightarrow> bytes \<Rightarrow> usize option" where
  "comment_start quote idx [] = None"
| "comment_start quote idx (b # bs) =
    (case quote of
       Some opened \<Rightarrow> comment_start (if b = opened then None else quote) (Suc idx) bs
     | None \<Rightarrow>
         if is_quote b then comment_start (Some b) (Suc idx) bs
         else if b = CHR ''#'' then Some idx
         else comment_start None (Suc idx) bs)"

definition strip_toml_comment :: "bytes \<Rightarrow> bytes" where
  "strip_toml_comment line =
    (case comment_start None 0 line of Some idx \<Rightarrow> take idx line | None \<Rightarrow> line)"

text \<open>The loop of \<open>package_override\<close> at the position behind the byte \<open>prev\<close>.\<close>

definition override_value :: "bytes \<Rightarrow> bytes option" where
  "override_value v =
    (case trim_start v of
       [] \<Rightarrow> None
     | quote # body \<Rightarrow>
         if \<not> is_quote quote then None
         else case str_find body [quote] of
           None \<Rightarrow> None
         | Some closed \<Rightarrow> (let name = trim (take closed body) in if name \<noteq> [] then Some name else None))"

function override_loop :: "u8 option \<Rightarrow> bytes \<Rightarrow> bytes option" where
  "override_loop prev rest =
    (case str_find rest ''package'' of
       None \<Rightarrow> None
     | Some rel \<Rightarrow>
         let before = (if rel = 0 then prev else Some (rest ! (rel - 1)));
             after = drop (rel + 7) rest;
             key_start = (case before of None \<Rightarrow> True | Some b \<Rightarrow> \<not> is_key_byte b)
         in case (if key_start then strip_prefix ''='' (trim_start after) else None) of
              Some v \<Rightarrow> override_value v
            | None \<Rightarrow> override_loop (Some (CHR ''e'')) after)"
  by auto
termination
  by (relation "measure (\<lambda>(_, rest). length rest)") (auto dest: str_find_Some)

declare override_loop.simps [simp del]

definition package_override :: "bytes \<Rightarrow> bytes option" where
  "package_override line = override_loop None line"

text \<open>The loop of \<open>toml_flag_is_true\<close> at the position behind the byte \<open>prev\<close>, with the open quote.  An
  index inside a character, outside quotes, panics in the slice \<open>line[idx..]\<close>.\<close>

definition flag_here :: "bytes \<Rightarrow> u8 option \<Rightarrow> bytes \<Rightarrow> bool" where
  "flag_here flag prev rest =
    (let after = drop (length flag) rest;
         key_start = (case prev of None \<Rightarrow> True | Some b \<Rightarrow> \<not> is_key_byte b);
         key_end = (case after of [] \<Rightarrow> True | b # _ \<Rightarrow> \<not> is_key_byte b)
     in key_start \<and> key_end \<and>
        (case strip_prefix ''='' (trim_start after) of
           None \<Rightarrow> False
         | Some v \<Rightarrow> takeWhile is_ascii_alphanumeric (trim_start v) = ''true''))"

fun flag_loop :: "bytes \<Rightarrow> u8 option \<Rightarrow> u8 option \<Rightarrow> bytes \<Rightarrow> bool option" where
  "flag_loop flag quote prev [] = Some False"
| "flag_loop flag quote prev (b # bs) =
    (case quote of
       Some opened \<Rightarrow> flag_loop flag (if b = opened then None else quote) (Some b) bs
     | None \<Rightarrow>
         if is_quote b then flag_loop flag (Some b) (Some b) bs
         else if utf8_cont b then None
         else if prefix flag (b # bs) \<and> flag_here flag prev (b # bs) then Some True
         else flag_loop flag None (Some b) bs)"

definition toml_flag_is_true :: "bytes \<Rightarrow> bytes \<Rightarrow> bool option" where
  "toml_flag_is_true line flag = flag_loop flag None None (strip_toml_comment line)"

section \<open>The dependency scan\<close>

definition CORE_DEPS_TABLE :: bytes where "CORE_DEPS_TABLE = ''[dependencies]''"
definition CORE_DEPS_SUBTABLE_PREFIX :: bytes where "CORE_DEPS_SUBTABLE_PREFIX = ''[dependencies.''"

definition subtable_dependency_name :: "bytes \<Rightarrow> bytes option" where
  "subtable_dependency_name header =
    (case strip_prefix CORE_DEPS_SUBTABLE_PREFIX header of
       None \<Rightarrow> None
     | Some rest \<Rightarrow>
         let name = trim (hd (split_on (\<lambda>b. b = CHR ''.'' \<or> b = CHR '']'') rest))
         in if name \<noteq> [] then Some name else None)"

text \<open>The mutable state of the scan.\<close>

record dep_scan =
  ds_entries :: "bytes list"
  ds_optional :: "bool list"
  ds_in_deps :: bool
  ds_subtable :: "usize option"

definition dep_scan_new :: dep_scan where
  "dep_scan_new = \<lparr>ds_entries = [], ds_optional = [], ds_in_deps = False, ds_subtable = None\<rparr>"

definition dep_header :: "dep_scan \<Rightarrow> bytes \<Rightarrow> dep_scan" where
  "dep_header sc trimmed =
    (let sc = sc\<lparr>ds_subtable := None\<rparr>;
         sc = (case subtable_dependency_name trimmed of
                 Some name \<Rightarrow> sc\<lparr>ds_subtable := Some (length (ds_entries sc)),
                   ds_entries := vec_push (ds_entries sc) name, ds_optional := vec_push (ds_optional sc) False\<rparr>
               | None \<Rightarrow> sc)
     in sc\<lparr>ds_in_deps := (trimmed = CORE_DEPS_TABLE)\<rparr>)"

definition dep_body :: "dep_scan \<Rightarrow> usize \<Rightarrow> bytes \<Rightarrow> dep_scan option" where
  "dep_body sc idx trimmed = do {
     let sc = (case package_override trimmed of
                 Some real \<Rightarrow> sc\<lparr>ds_entries := (ds_entries sc)[idx := real]\<rparr> | None \<Rightarrow> sc);
     on \<leftarrow> toml_flag_is_true trimmed ''optional'';
     Some (if on then sc\<lparr>ds_optional := (ds_optional sc)[idx := True]\<rparr> else sc)
   }"

definition dep_inline :: "dep_scan \<Rightarrow> bytes \<Rightarrow> dep_scan option" where
  "dep_inline sc trimmed =
    (let name = trim (hd (split_on (\<lambda>b. b = CHR ''='' \<or> b = CHR ''.'') trimmed))
     in if name = [] then Some sc
        else do {
          let real = (case package_override trimmed of Some r \<Rightarrow> r | None \<Rightarrow> name);
          on \<leftarrow> toml_flag_is_true trimmed ''optional'';
          Some (sc\<lparr>ds_entries := vec_push (ds_entries sc) real, ds_optional := vec_push (ds_optional sc) on\<rparr>)
        })"

definition dep_line :: "dep_scan \<Rightarrow> bytes \<Rightarrow> dep_scan option" where
  "dep_line sc raw_line =
    (let trimmed = trim (strip_toml_comment raw_line)
     in if trimmed = [] then Some sc
        else if prefix ''['' trimmed then Some (dep_header sc trimmed)
        else case ds_subtable sc of
          Some idx \<Rightarrow> dep_body sc idx trimmed
        | None \<Rightarrow> if \<not> ds_in_deps sc then Some sc else dep_inline sc trimmed)"

fun dep_lines :: "dep_scan \<Rightarrow> bytes list \<Rightarrow> dep_scan option" where
  "dep_lines sc [] = Some sc"
| "dep_lines sc (l # ls) = do { sc' \<leftarrow> dep_line sc l; dep_lines sc' ls }"

definition required_names :: "dep_scan \<Rightarrow> bytes list" where
  "required_names sc = map fst (filter (\<lambda>(name, is_optional). \<not> is_optional) (zip (ds_entries sc) (ds_optional sc)))"

definition core_dependency_entries :: "bytes \<Rightarrow> bytes list option" where
  "core_dependency_entries toml_src = map_option required_names (dep_lines dep_scan_new (str_lines toml_src))"

definition CORE_DEP_ALLOWLIST :: "bytes list" where
  "CORE_DEP_ALLOWLIST = [''thiserror'', ''serde'', ''serde_json'']"

definition disallowed_core_deps :: "bytes list \<Rightarrow> bytes list \<Rightarrow> bytes list" where
  "disallowed_core_deps entries allowlist = filter (\<lambda>dep. dep \<notin> set allowlist) entries"

section \<open>Printed manifests\<close>

text \<open>The abstract contents of a manifest: tables of dependencies in their two spellings, and other
  tables or arrays of tables with their lines.\<close>

datatype dep_spec =
    Plain bytes
  | Detailed bytes "bytes option" bool

type_synonym dependency = "bytes \<times> dep_spec"

datatype table =
    Deps_Table "(dependency \<times> bytes) list"
  | Dep_Subtable dependency
  | Other_Table bool bytes "bytes list"

fun package_text :: "bytes option \<Rightarrow> bytes" where
  "package_text (Some p) = '', package = '' @ quoted p"
| "package_text None = []"

fun optional_text :: "bool \<Rightarrow> bytes" where
  "optional_text True = '', optional = true''"
| "optional_text False = []"

fun spec_text :: "dep_spec \<Rightarrow> bytes" where
  "spec_text (Plain v) = quoted v"
| "spec_text (Detailed v package optional) =
    ''{ version = '' @ quoted v @ package_text package @ optional_text optional @ '' }''"

definition dep_text :: "dependency \<Rightarrow> bytes" where
  "dep_text d = fst d @ '' = '' @ spec_text (snd d)"

fun spec_body :: "dep_spec \<Rightarrow> bytes list" where
  "spec_body (Plain v) = [''version = '' @ quoted v]"
| "spec_body (Detailed v package optional) =
    [''version = '' @ quoted v] @
    (case package of Some p \<Rightarrow> [''package = '' @ quoted p] | None \<Rightarrow> []) @
    (if optional then [''optional = true''] else [])"

definition other_header :: "bool \<Rightarrow> bytes \<Rightarrow> bytes" where
  "other_header array name = (if array then ''[['' @ name @ '']]'' else ''['' @ name @ '']'')"

fun table_lines :: "table \<Rightarrow> bytes list" where
  "table_lines (Deps_Table ds) = ''[dependencies]'' # map (\<lambda>(d, comment). dep_text d @ comment) ds"
| "table_lines (Dep_Subtable d) = (''[dependencies.'' @ fst d @ '']'') # spec_body (snd d)"
| "table_lines (Other_Table array name ls) = other_header array name # ls"

definition manifest_text :: "table list \<Rightarrow> bytes" where
  "manifest_text m = unlines (concat (map table_lines m))"

text \<open>The crates that a manifest declares as dependencies that are always compiled.\<close>

fun real_crate :: "dependency \<Rightarrow> bytes" where
  "real_crate (k, Plain v) = k"
| "real_crate (k, Detailed v package optional) = (case package of Some p \<Rightarrow> p | None \<Rightarrow> k)"

fun is_optional :: "dependency \<Rightarrow> bool" where
  "is_optional (k, Plain v) = False"
| "is_optional (k, Detailed v package optional) = optional"

fun table_deps :: "table \<Rightarrow> dependency list" where
  "table_deps (Deps_Table ds) = map fst ds"
| "table_deps (Dep_Subtable d) = [d]"
| "table_deps (Other_Table array name ls) = []"

definition required_crates :: "table list \<Rightarrow> bytes list" where
  "required_crates m = map real_crate (filter (\<lambda>d. \<not> is_optional d) (concat (map table_deps m)))"

text \<open>What a printed manifest may hold.  The key of a dependency is a bare key that holds neither of the
  words the scan looks for; a version is one line without quotes, escapes and the word of a rename.\<close>

definition crate_name :: "bytes \<Rightarrow> bool" where
  "crate_name k \<longleftrightarrow> k \<noteq> [] \<and> list_all is_key_byte k"

definition dep_key :: "bytes \<Rightarrow> bool" where
  "dep_key k \<longleftrightarrow> crate_name k \<and> \<not> str_contains k ''package'' \<and> \<not> str_contains k ''optional''"

definition version_text :: "bytes \<Rightarrow> bool" where
  "version_text v \<longleftrightarrow> DQ \<notin> set v \<and> BACKSLASH \<notin> set v \<and> line_text v \<and> \<not> str_contains v ''package''"

fun package_ok :: "bytes option \<Rightarrow> bool" where
  "package_ok (Some p) = crate_name p"
| "package_ok None = True"

fun spec_ok :: "dep_spec \<Rightarrow> bool" where
  "spec_ok (Plain v) = version_text v"
| "spec_ok (Detailed v package optional) = (version_text v \<and> package_ok package)"

text \<open>The name of another table is a dotted bare key.  TOML would read a runtime dependency from a table
  whose name holds the word \<open>dependencies\<close>, other than the development, build and workspace tables, and from a
  dotted key or an inline table in its lines; a multi-line string or an escape can hide either.  None of
  these occurs in the other tables of a printed manifest.\<close>

definition OTHER_DEPENDENCIES :: "bytes list" where
  "OTHER_DEPENDENCIES = [''dev-dependencies'', ''build-dependencies'', ''workspace.dependencies'']"

definition other_name :: "bytes \<Rightarrow> bool" where
  "other_name k \<longleftrightarrow> k \<noteq> [] \<and> list_all (\<lambda>b. is_key_byte b \<or> b = CHR ''.'') k \<and>
    (\<not> str_contains k ''dependencies'' \<or> list_ex (\<lambda>d. k = d \<or> prefix (d @ ''.'') k) OTHER_DEPENDENCIES)"

definition other_line :: "bytes \<Rightarrow> bool" where
  "other_line l \<longleftrightarrow> line_text l \<and> \<not> prefix ''['' (trim (strip_toml_comment l)) \<and> \<not> str_contains l ''dependencies'' \<and>
    BACKSLASH \<notin> set l \<and> \<not> str_contains l [DQ, DQ, DQ] \<and> \<not> str_contains l [SQ, SQ, SQ]"

fun table_ok :: "table \<Rightarrow> bool" where
  "table_ok (Deps_Table ds) = list_all (\<lambda>((k, s), c). dep_key k \<and> spec_ok s \<and> comment_text c) ds"
| "table_ok (Dep_Subtable (k, s)) = (dep_key k \<and> spec_ok s)"
| "table_ok (Other_Table array name ls) = (other_name name \<and> list_all other_line ls)"

section \<open>Scanning printed text\<close>

lemma key_byte_cases:
  assumes "is_key_byte b"
  shows "solid b" "\<not> is_quote b" "\<not> utf8_cont b" "b \<noteq> CHR ''#''" "b \<noteq> CHR '' ''" "b \<noteq> CHR ''=''"
    "b \<noteq> CHR ''.''" "b \<noteq> CHR '']''" "b \<noteq> CHR ''[''" "b \<noteq> LF" "b \<noteq> CR"
  using assms by (auto simp: is_key_byte_def byte_class_defs solid_def is_quote_def utf8_cont_def)

lemma crate_name_bytes:
  assumes "crate_name k"
  shows "k \<noteq> []" "b \<in> set k \<Longrightarrow> is_key_byte b" "solid (hd k)" "solid (last k)" "trim k = k"
  using assms key_byte_cases(1) by (auto simp: crate_name_def list_all_iff intro!: trim_edges)

text \<open>The three scans skip a run of plain bytes and a quoted value.\<close>

lemma comment_skip:
  "\<forall>b \<in> set k. \<not> is_quote b \<and> b \<noteq> CHR ''#'' \<Longrightarrow>
    comment_start None i (k @ rest) = comment_start None (i + length k) rest"
  by (induction k arbitrary: i) auto

lemma comment_quoted: "comment_start None i (quoted v @ rest) = comment_start None (i + length v + 2) rest"
  if "DQ \<notin> set v"
proof -
  have "DQ \<notin> set v \<Longrightarrow> comment_start (Some DQ) i (v @ DQ # rest) = comment_start None (Suc (i + length v)) rest" for i
    by (induction v arbitrary: i) auto
  with that show ?thesis by (simp add: quoted_def is_quote_def)
qed

lemma flag_skip:
  assumes "\<forall>b \<in> set (k @ [c]). \<not> is_quote b \<and> \<not> utf8_cont b" and "\<not> sublist flag (k @ [c])" and "c \<notin> set flag"
  shows "flag_loop flag None prev (k @ c # rest) = flag_loop flag None (Some c) rest"
  using assms
proof (induction k arbitrary: prev)
  case Nil
  then have "\<not> prefix flag (c # rest)" by (cases flag) auto
  with Nil show ?case by simp
next
  case (Cons b k)
  have "\<not> prefix flag (b # k @ c # rest)"
  proof
    assume "prefix flag (b # k @ c # rest)"
    then have "prefix flag ((b # k @ [c]) @ rest)" by simp
    then have "prefix flag (b # k @ [c]) \<or> prefix (b # k @ [c]) flag"
      by (metis prefix_same_cases prefixI)
    with Cons.prems(2,3) show False
      by (metis append_Cons in_set_conv_decomp set_mono_prefix prefix_imp_sublist subsetD)
  qed
  moreover have "\<not> sublist flag (k @ [c])" using Cons.prems(2) by (simp add: sublist_Cons_right)
  ultimately show ?case using Cons by simp
qed

lemma flag_quoted: "flag_loop flag None prev (quoted v @ rest) = flag_loop flag None (Some DQ) rest"
  if "DQ \<notin> set v"
proof -
  have "DQ \<notin> set v \<Longrightarrow> flag_loop flag (Some DQ) p (v @ DQ # rest) = flag_loop flag None (Some DQ) rest" for p
    by (induction v arbitrary: p) auto
  with that show ?thesis by (simp add: quoted_def is_quote_def)
qed

lemma str_find_sep:
  assumes "\<not> sublist nd (xs @ [c])" and "c \<notin> set nd" and "nd \<noteq> []"
  shows "str_find (xs @ c # ys) nd = map_option ((+) (Suc (length xs))) (str_find ys nd)"
  using assms
proof (induction xs)
  case Nil
  then have "\<not> prefix nd (c # ys)" by (cases nd) auto
  then show ?case by (cases "str_find ys nd") auto
next
  case (Cons b xs)
  have "\<not> prefix nd ((b # xs @ [c]) @ ys)"
  proof
    assume "prefix nd ((b # xs @ [c]) @ ys)"
    then have "prefix nd (b # xs @ [c]) \<or> prefix (b # xs @ [c]) nd"
      by (metis prefix_same_cases prefixI)
    with Cons.prems(1,2) show False
      by (metis append_Cons in_set_conv_decomp set_mono_prefix prefix_imp_sublist subsetD)
  qed
  moreover have "\<not> sublist nd (xs @ [c])" using Cons.prems(1) by (simp add: sublist_Cons_right)
  ultimately show ?case using Cons by (cases "str_find ys nd") auto
qed

text \<open>Text that leaves the quote state of the comment scan as it was.\<close>

definition balanced :: "bytes \<Rightarrow> bool" where
  "balanced t \<longleftrightarrow> (\<forall>i rest. comment_start None i (t @ rest) = comment_start None (i + length t) rest)"

lemma balancedI: "(\<And>i rest. comment_start None i (t @ rest) = comment_start None (i + length t) rest) \<Longrightarrow> balanced t"
  by (simp add: balanced_def)

lemma balanced_append: "balanced s \<Longrightarrow> balanced t \<Longrightarrow> balanced (s @ t)"
  by (simp add: balanced_def add.assoc)

lemma balanced_plain: "\<forall>b \<in> set k. \<not> is_quote b \<and> b \<noteq> CHR ''#'' \<Longrightarrow> balanced k"
  by (intro balancedI comment_skip)

lemma balanced_quoted: "DQ \<notin> set v \<Longrightarrow> balanced (quoted v)"
  by (intro balancedI) (simp add: comment_quoted, simp add: quoted_def)

lemma balanced_name: "crate_name k \<Longrightarrow> balanced k"
  by (intro balanced_plain) (use crate_name_bytes(2) key_byte_cases in blast)

lemma strip_balanced: "balanced t \<Longrightarrow> strip_toml_comment t = t"
  using balanced_def [of t] by (metis append_Nil2 comment_start.simps(1) option.simps(4) strip_toml_comment_def)

lemma strip_comment:
  assumes "balanced t" and "comment_text c" and "t \<noteq> []" and "solid (hd t)" and "solid (last t)"
  shows "trim (strip_toml_comment (t @ c)) = t"
proof (cases "c = []")
  case True
  with assms show ?thesis by (simp add: strip_balanced trim_edges)
next
  case False
  with assms(2) obtain r where c: "c = CHR '' '' # CHR ''#'' # r"
    by (auto simp: comment_text_def prefix_def)
  have "comment_start None 0 (t @ c) = Some (Suc (length t))"
    using assms(1) by (simp add: balanced_def c is_quote_def)
  then have "strip_toml_comment (t @ c) = t @ '' ''" by (simp add: strip_toml_comment_def c)
  then show ?thesis
    using assms(3-5) by (metis append_is_Nil_conv hd_append2 trim_def trim_end_edge trim_end_space trim_start_edge)
qed

text \<open>The override scan skips text in which the word does not occur.\<close>

lemma override_sep:
  assumes "\<not> sublist ''package'' (xs @ [c])" and "c \<notin> set ''package''"
  shows "override_loop prev (xs @ c # ys) = override_loop (Some c) ys"
proof (cases "str_find ys ''package''")
  case None
  then have "str_find (xs @ c # ys) ''package'' = None" using str_find_sep [OF assms] by simp
  with None show ?thesis by (simp add: override_loop.simps)
next
  case (Some rel)
  have found: "str_find (xs @ c # ys) ''package'' = Some (Suc (length xs) + rel)"
    using str_find_sep [OF assms] Some by simp
  have before: "(xs @ c # ys) ! (Suc (length xs) + rel - 1) = (if rel = 0 then c else ys ! (rel - 1))"
    by (cases rel) (simp_all add: nth_append)
  have after: "drop (Suc (length xs) + rel + 7) (xs @ c # ys) = drop (rel + 7) ys"
    using drop_Suc_Cons [of "rel + 7" c ys] by (simp add: add.commute)
  show ?thesis
    by (subst (1 2) override_loop.simps) (simp only: found Some before after Let_def option.case, simp)
qed

lemma override_none: "str_find ys ''package'' = None \<Longrightarrow> override_loop prev ys = None"
  by (simp add: override_loop.simps)

lemma override_hit:
  assumes "\<not> is_key_byte c" and "crate_name p"
  shows "override_loop (Some c) (''package = '' @ quoted p @ rest) = Some p"
proof -
  have find: "str_find (''package = '' @ quoted p @ rest) ''package'' = Some 0" by (rule str_find_prefix) simp
  have quote: "DQ \<notin> set p" using crate_name_bytes(2) [OF assms(2), of DQ] key_byte_cases(2) [of DQ] by (auto simp: is_quote_def)
  have sp: "trim_start (DQ # x) = DQ # x" "trim_start (CHR ''='' # x) = CHR ''='' # x" for x
    by (simp_all add: trim_start_solid solid_def byte_between_def)
  have "takeWhile (\<lambda>b. b \<noteq> DQ) (p @ DQ # rest) = p" using quote by (induction p) auto
  then have "str_find (p @ DQ # rest) [DQ] = Some (length p)" by (simp add: str_find_char)
  then have "override_value ('' '' @ quoted p @ rest) = Some p"
    using crate_name_bytes [OF assms(2)] by (simp add: override_value_def quoted_def sp is_quote_def)
  then show ?thesis
    using assms(1) find by (subst override_loop.simps) (simp add: sp)
qed

text \<open>The printed specification of a dependency.\<close>

lemma not_sublist_sep:
  "\<not> str_contains xs nd \<Longrightarrow> c \<notin> set nd \<Longrightarrow> nd \<noteq> [] \<Longrightarrow> \<not> sublist nd (xs @ [c])"
proof
  assume a: "\<not> str_contains xs nd" "c \<notin> set nd" "nd \<noteq> []" and "sublist nd (xs @ [c])"
  then obtain ps ss where eq: "xs @ [c] = ps @ nd @ ss" by (auto simp: sublist_def)
  show False
  proof (cases ss rule: rev_cases)
    case Nil
    with eq a(3) have "last nd = c" by (metis append_Nil2 last_appendR last_snoc)
    with a(2,3) show False by (metis last_in_set)
  next
    case (snoc s x)
    with eq have "xs = ps @ nd @ s" by simp
    with a(1) show False by (auto simp: str_contains_iff sublist_def)
  qed
qed

lemma word_free: "sublist ''package'' xs \<Longrightarrow> CHR ''p'' \<in> set xs" "sublist ''optional'' xs \<Longrightarrow> CHR ''o'' \<in> set xs"
  by (auto simp: sublist_def)

lemma dep_key_parts:
  assumes "dep_key k"
  shows "crate_name k" "\<not> sublist ''package'' (k @ '' '')" "\<not> sublist ''optional'' (k @ '' '')"
  using assms not_sublist_sep [of k "''package''" "CHR '' ''"] not_sublist_sep [of k "''optional''" "CHR '' ''"]
  by (simp_all add: dep_key_def)

lemma version_parts:
  assumes "version_text v"
  shows "DQ \<notin> set v" "\<not> sublist ''package'' (v @ [DQ])"
  using assms not_sublist_sep [of v "''package''" DQ] by (simp_all add: version_text_def)

lemma crate_name_no_quote: "crate_name k \<Longrightarrow> DQ \<notin> set k"
  using crate_name_bytes(2) [of k DQ] key_byte_cases(2) [of DQ] by (auto simp: is_quote_def)

lemma balanced_literals:
  "balanced ''{ version = ''" "balanced '', package = ''" "balanced '', optional = true''" "balanced '' }''"
  "balanced '' = ''" "balanced ''version = ''" "balanced ''package = ''" "balanced ''optional = true''" "balanced []"
  "balanced ''[dependencies.''" "balanced '']''" "balanced ''[dependencies]''"
  by (rule balanced_plain; simp add: is_quote_def)+

lemma balanced_package: "package_ok pk \<Longrightarrow> balanced (package_text pk)"
  by (cases pk) (simp_all add: balanced_append balanced_literals balanced_quoted crate_name_no_quote del: append_Cons)

lemma balanced_optional: "balanced (optional_text opt)"
  by (cases opt) (simp_all add: balanced_literals)

lemma balanced_spec: "spec_ok sp \<Longrightarrow> balanced (spec_text sp)"
  by (cases sp)
    (simp_all add: balanced_append balanced_literals balanced_quoted balanced_package balanced_optional
      version_parts(1) del: append_Cons)

lemma balanced_dep: "dep_key (fst d) \<Longrightarrow> spec_ok (snd d) \<Longrightarrow> balanced (dep_text d)"
  by (simp add: dep_text_def balanced_append balanced_literals balanced_spec balanced_name dep_key_parts del: append_Cons)

lemma solid_literals: "solid DQ" "solid (CHR ''}'')" "solid (CHR '']'')" "solid (CHR ''['')" "solid (CHR ''e'')"
    "solid (CHR ''v'')" "solid (CHR ''p'')" "solid (CHR ''o'')" "solid (CHR ''='')" "solid (CHR ''{'')"
  by (simp_all add: solid_def byte_between_def)

lemma dep_text_edges:
  assumes "dep_key (fst d)"
  shows "dep_text d \<noteq> []" "solid (hd (dep_text d))" "solid (last (dep_text d))" "hd (dep_text d) \<noteq> CHR ''[''"
proof -
  have k: "fst d \<noteq> []" "solid (hd (fst d))" "hd (fst d) \<noteq> CHR ''[''"
    using crate_name_bytes(1,3) [OF dep_key_parts(1) [OF assms]]
      crate_name_bytes(2) [OF dep_key_parts(1) [OF assms], of "hd (fst d)"] key_byte_cases(9) by auto
  then show "dep_text d \<noteq> []" "solid (hd (dep_text d))" "hd (dep_text d) \<noteq> CHR ''[''"
    by (simp_all add: dep_text_def)
  show "solid (last (dep_text d))"
    by (cases "snd d") (simp_all add: dep_text_def quoted_def solid_literals)
qed

text \<open>What the two value scans find in a printed dependency.\<close>

fun spec_package :: "dep_spec \<Rightarrow> bytes option" where
  "spec_package (Plain v) = None"
| "spec_package (Detailed v package optional) = package"

fun spec_optional :: "dep_spec \<Rightarrow> bool" where
  "spec_optional (Plain v) = False"
| "spec_optional (Detailed v package optional) = optional"

lemma override_version:
  assumes "version_text v"
  shows "override_loop prev (quoted v @ rest) = override_loop (Some DQ) rest"
proof -
  have "override_loop prev (quoted v @ rest) = override_loop (Some DQ) (v @ DQ # rest)"
    using override_sep [of "[]" DQ] by (simp add: quoted_def sublist_Cons_right)
  also have "\<dots> = override_loop (Some DQ) rest"
    by (rule override_sep [OF version_parts(2) [OF assms]]) simp
  finally show ?thesis .
qed

lemma override_tail:
  assumes "package_ok pk"
  shows "override_loop (Some DQ) (package_text pk @ optional_text opt @ '' }'') = pk"
proof (cases pk)
  case None
  show ?thesis by (cases opt) (simp_all add: None override_none)
next
  case (Some p)
  have "override_loop (Some DQ) ('', '' @ (''package = '' @ quoted p @ optional_text opt @ '' }'')) = Some p"
    using override_sep [of "'',''" "CHR '' ''"] override_hit [of "CHR '' ''" p] assms Some
    by (simp add: sublist_Cons_right is_key_byte_def byte_class_defs)
  with Some show ?thesis by simp
qed

lemma package_of_dep:
  assumes "dep_key (fst d)" and "spec_ok (snd d)"
  shows "package_override (dep_text d) = spec_package (snd d)"
proof -
  have start: "package_override (dep_text d) = override_loop (Some (CHR '' '')) (''= '' @ spec_text (snd d))"
    using override_sep [of "fst d" "CHR '' ''"] dep_key_parts(2) [OF assms(1)]
    by (simp add: package_override_def dep_text_def)
  show ?thesis
  proof (cases "snd d")
    case (Plain v)
    then show ?thesis
      using start override_sep [of "''=''" "CHR '' ''"] override_version [of v _ "[]"] assms(2)
      by (simp add: sublist_Cons_right override_none)
  next
    case (Detailed v pk opt)
    then show ?thesis
      using start override_sep [of "''= { version =''" "CHR '' ''"] override_version [of v] override_tail [of pk opt] assms(2)
      by (simp add: sublist_Cons_right)
  qed
qed

text \<open>The flag is found exactly where it is printed.\<close>

lemma optional_set: "set ''optional'' = {CHR ''o'', CHR ''p'', CHR ''t'', CHR ''i'', CHR ''n'', CHR ''a'', CHR ''l''}"
  by auto

lemma plain_bytes: "\<forall>b \<in> set (k @ '' ''). \<not> is_quote b \<and> \<not> utf8_cont b" if "crate_name k"
  using crate_name_bytes(2) [OF that] key_byte_cases(2,3)
  by (auto simp: is_quote_def utf8_cont_def byte_between_def)

lemma flag_text:
  "flag_loop ''optional'' None prev (''= '' @ rest) = flag_loop ''optional'' None (Some (CHR '' '')) rest"
  "flag_loop ''optional'' None prev (''= { version = '' @ rest) = flag_loop ''optional'' None (Some (CHR '' '')) rest"
  "flag_loop ''optional'' None prev (''version = '' @ rest) = flag_loop ''optional'' None (Some (CHR '' '')) rest"
  "flag_loop ''optional'' None prev (''package = '' @ rest) = flag_loop ''optional'' None (Some (CHR '' '')) rest"
  "flag_loop ''optional'' None prev ('', package = '' @ rest) = flag_loop ''optional'' None (Some (CHR '' '')) rest"
  "flag_loop ''optional'' None prev ('', '' @ rest) = flag_loop ''optional'' None (Some (CHR '' '')) rest"
  "flag_loop ''optional'' None prev '' }'' = Some False"
  by (simp_all add: is_quote_def utf8_cont_def byte_between_def)

lemma flag_here_true: "flag_here ''optional'' prev (''optional = true'' @ rest)"
  if "prev = None \<or> prev = Some (CHR '' '')" and "rest = [] \<or> rest = '' }''"
proof -
  have sp: "trim_start (CHR ''='' # x) = CHR ''='' # x" "trim_start (CHR ''t'' # x) = CHR ''t'' # x" for x
    by (simp_all add: trim_start_solid solid_def byte_between_def)
  show ?thesis
    using that by (auto simp: flag_here_def Let_def sp is_key_byte_def byte_class_defs)
qed

lemma flag_true: "prev = None \<or> prev = Some (CHR '' '') \<Longrightarrow> rest = [] \<or> rest = '' }'' \<Longrightarrow>
  flag_loop ''optional'' None prev (''optional = true'' @ rest) = Some True"
  using flag_here_true [of prev rest] by (simp add: is_quote_def utf8_cont_def byte_between_def)

lemma flag_tail:
  assumes "package_ok pk"
  shows "flag_loop ''optional'' None prev (package_text pk @ optional_text opt @ '' }'') = Some opt"
proof -
  have opt: "flag_loop ''optional'' None q (optional_text opt @ '' }'') = Some opt" for q
    using flag_text(6) [of q "''optional = true }''"] flag_true [of "Some (CHR '' '')" "'' }''"] flag_text(7) [of q]
    by (cases opt) simp_all
  show ?thesis
  proof (cases pk)
    case (Some p)
    then show ?thesis
      using opt flag_text(5) [of prev "quoted p @ optional_text opt @ '' }''"]
        flag_quoted [OF crate_name_no_quote [of p], of "''optional''"] assms
      by simp
  qed (simp add: opt)
qed

lemma flag_of_dep:
  assumes "dep_key (fst d)" and "spec_ok (snd d)"
  shows "toml_flag_is_true (dep_text d) ''optional'' = Some (spec_optional (snd d))"
proof -
  note k = dep_key_parts [OF assms(1)]
  have strip: "strip_toml_comment (dep_text d) = dep_text d" by (rule strip_balanced [OF balanced_dep [OF assms]])
  have start: "toml_flag_is_true (dep_text d) ''optional'' =
      flag_loop ''optional'' None (Some (CHR '' '')) (''= '' @ spec_text (snd d))"
    using flag_skip [OF plain_bytes [OF k(1)] k(3), of None "''= '' @ spec_text (snd d)"] strip
    by (simp add: toml_flag_is_true_def dep_text_def optional_set)
  show ?thesis
  proof (cases "snd d")
    case (Plain v)
    then show ?thesis
      using assms(2) flag_text(1) flag_quoted [OF version_parts(1) [of v], of "''optional''" _ "[]"]
      by (simp only: start) simp
  next
    case (Detailed v pk opt)
    then show ?thesis
      using assms(2) flag_text(2) [of _ "quoted v @ package_text pk @ optional_text opt @ '' }''"]
        flag_quoted [OF version_parts(1) [of v], of "''optional''"] flag_tail [of pk _ opt]
      by (simp only: start) simp
  qed
qed

section \<open>The scan of a printed manifest\<close>

definition scan_ok :: "dep_scan \<Rightarrow> bool" where
  "scan_ok sc \<longleftrightarrow> length (ds_entries sc) = length (ds_optional sc)"

definition pushed :: "dep_scan \<Rightarrow> dependency \<Rightarrow> dep_scan" where
  "pushed sc d = sc\<lparr>ds_entries := ds_entries sc @ [real_crate d], ds_optional := ds_optional sc @ [is_optional d]\<rparr>"

definition required_of :: "dependency list \<Rightarrow> bytes list" where
  "required_of ds = map real_crate (filter (\<lambda>d. \<not> is_optional d) ds)"

lemma pushed_laws:
  assumes "scan_ok sc"
  shows "scan_ok (pushed sc d)" "required_names (pushed sc d) = required_names sc @ required_of [d]"
    "ds_in_deps (pushed sc d) = ds_in_deps sc" "ds_subtable (pushed sc d) = ds_subtable sc"
  using assms by (simp_all add: pushed_def scan_ok_def required_names_def required_of_def)

lemma spec_fields:
  "real_crate d = (case spec_package (snd d) of Some p \<Rightarrow> p | None \<Rightarrow> fst d)"
  "is_optional d = spec_optional (snd d)"
proof -
  obtain k s where d: "d = (k, s)" by (cases d)
  show "real_crate d = (case spec_package (snd d) of Some p \<Rightarrow> p | None \<Rightarrow> fst d)"
    unfolding d by (cases s) (simp_all split: option.split)
  show "is_optional d = spec_optional (snd d)" unfolding d by (cases s) simp_all
qed

lemma inline_key:
  assumes "crate_name k"
  shows "trim (hd (split_on (\<lambda>b. b = CHR ''='' \<or> b = CHR ''.'') (k @ '' = '' @ rest))) = k"
proof -
  have "takeWhile (\<lambda>b. \<not> (b = CHR ''='' \<or> b = CHR ''.'')) (k @ '' = '' @ rest) = k @ '' ''"
    using crate_name_bytes(2) [OF assms] key_byte_cases(6,7) by (subst takeWhile_append2) auto
  then show ?thesis
    using crate_name_bytes [OF assms] by (simp add: hd_split_on trim_def trim_start_edge trim_end_edge)
qed

lemma dep_line_inline:
  assumes "dep_key (fst d)" and "spec_ok (snd d)" and "comment_text c" and "ds_in_deps sc" and "ds_subtable sc = None"
  shows "dep_line sc (dep_text d @ c) = Some (pushed sc d)"
proof -
  note edges = dep_text_edges [OF assms(1)]
  have "trim (strip_toml_comment (dep_text d @ c)) = dep_text d"
    by (rule strip_comment [OF balanced_dep [OF assms(1,2)] assms(3) edges(1-3)])
  moreover have "\<not> prefix ''['' (dep_text d)" using edges(1,4) by (cases "dep_text d") auto
  moreover have "dep_inline sc (dep_text d) = Some (pushed sc d)"
    using inline_key [OF dep_key_parts(1) [OF assms(1)]] crate_name_bytes(1) [OF dep_key_parts(1) [OF assms(1)]]
      package_of_dep [OF assms(1,2)] flag_of_dep [OF assms(1,2)]
    by (simp add: dep_inline_def pushed_def spec_fields dep_text_def [of d] del: append_Cons split: option.splits)
  ultimately show ?thesis using assms(4,5) edges(1) by (simp add: dep_line_def)
qed

lemma inline_lines:
  assumes "list_all (\<lambda>((k, s), c). dep_key k \<and> spec_ok s \<and> comment_text c) ds"
    and "scan_ok sc" and "ds_in_deps sc" and "ds_subtable sc = None"
  shows "\<exists>sc'. dep_lines sc (map (\<lambda>(d, c). dep_text d @ c) ds) = Some sc' \<and> scan_ok sc' \<and>
    required_names sc' = required_names sc @ required_of (map fst ds)"
  using assms
proof (induction ds arbitrary: sc)
  case Nil
  then show ?case by (simp add: required_of_def)
next
  case (Cons dc ds)
  obtain d c where dc: "dc = (d, c)" by (cases dc)
  have ok: "dep_key (fst d)" "spec_ok (snd d)" "comment_text c"
    using Cons.prems(1) by (auto simp: dc split: prod.splits)
  have line: "dep_line sc (dep_text d @ c) = Some (pushed sc d)"
    by (rule dep_line_inline [OF ok Cons.prems(3,4)])
  from Cons.IH [of "pushed sc d"] Cons.prems pushed_laws [OF Cons.prems(2), of d] line
  show ?case by (auto simp: dc required_of_def)
qed

lemma dep_line_header:
  assumes "trim (strip_toml_comment l) = l" and "prefix ''['' l"
  shows "dep_line sc l = Some (dep_header sc l)"
  using assms by (auto simp: dep_line_def)

lemma strip_id: "balanced t \<Longrightarrow> t \<noteq> [] \<Longrightarrow> solid (hd t) \<Longrightarrow> solid (last t) \<Longrightarrow> trim (strip_toml_comment t) = t"
  using strip_comment [of t "[]"] by (simp add: comment_text_def line_text_def)

text \<open>The body of a sub-table.\<close>

lemma body_line:
  assumes "balanced t" and "t \<noteq> []" and "solid (hd t)" and "solid (last t)" and "\<not> prefix ''['' t"
    and "ds_subtable sc = Some idx"
  shows "dep_line sc t = dep_body sc idx t"
  using assms strip_id [OF assms(1-4)] by (auto simp: dep_line_def)

lemma version_line:
  assumes "version_text v" and "ds_subtable sc = Some idx"
  shows "dep_line sc (''version = '' @ quoted v) = Some sc"
proof -
  have "balanced (''version = '' @ quoted v)"
    using balanced_append balanced_literals(6) balanced_quoted version_parts(1) [OF assms(1)] by blast
  then have "dep_line sc (''version = '' @ quoted v) = dep_body sc idx (''version = '' @ quoted v)"
    and strip: "strip_toml_comment (''version = '' @ quoted v) = ''version = '' @ quoted v"
    using body_line [of "''version = '' @ quoted v", OF _ _ _ _ _ assms(2)] strip_balanced
    by (simp_all add: quoted_def solid_literals)
  moreover have "package_override (''version = '' @ quoted v) = None"
    using override_sep [of "''version =''" "CHR '' ''"] override_version [OF assms(1), of _ "[]"]
    by (simp add: package_override_def sublist_Cons_right override_none)
  moreover have "toml_flag_is_true (''version = '' @ quoted v) ''optional'' = Some False"
    using flag_text(3) [of None "quoted v"] flag_quoted [OF version_parts(1) [OF assms(1)], of "''optional''" _ "[]"]
    unfolding toml_flag_is_true_def strip by simp
  ultimately show ?thesis by (simp add: dep_body_def)
qed

lemma package_line:
  assumes "crate_name p" and "ds_subtable sc = Some idx"
  shows "dep_line sc (''package = '' @ quoted p) = Some (sc\<lparr>ds_entries := (ds_entries sc)[idx := p]\<rparr>)"
proof -
  have "balanced (''package = '' @ quoted p)"
    using balanced_append balanced_literals(7) balanced_quoted crate_name_no_quote [OF assms(1)] by blast
  then have "dep_line sc (''package = '' @ quoted p) = dep_body sc idx (''package = '' @ quoted p)"
    and strip: "strip_toml_comment (''package = '' @ quoted p) = ''package = '' @ quoted p"
    using body_line [of "''package = '' @ quoted p", OF _ _ _ _ _ assms(2)] strip_balanced
    by (simp_all add: quoted_def solid_literals)
  moreover have "package_override (''package = '' @ quoted p) = Some p"
  proof -
    have "override_loop (Some (CHR '' '')) (''package = '' @ quoted p) = Some p"
      using override_hit [of "CHR '' ''" p "[]"] assms(1) by (simp add: is_key_byte_def byte_class_defs)
    moreover have "override_loop None (''package = '' @ quoted p) = override_loop (Some (CHR '' '')) (''package = '' @ quoted p)"
      by (subst (1 2) override_loop.simps) (simp add: str_find_prefix is_key_byte_def byte_class_defs)
    ultimately show ?thesis by (simp only: package_override_def)
  qed
  moreover have "toml_flag_is_true (''package = '' @ quoted p) ''optional'' = Some False"
    using flag_text(4) [of None "quoted p"] flag_quoted [OF crate_name_no_quote [OF assms(1)], of "''optional''" _ "[]"]
    unfolding toml_flag_is_true_def strip by simp
  ultimately show ?thesis by (simp add: dep_body_def)
qed

lemma optional_line:
  assumes "ds_subtable sc = Some idx"
  shows "dep_line sc ''optional = true'' = Some (sc\<lparr>ds_optional := (ds_optional sc)[idx := True]\<rparr>)"
proof -
  have "dep_line sc ''optional = true'' = dep_body sc idx ''optional = true''"
    by (rule body_line [OF balanced_literals(8)]) (simp_all add: solid_literals assms)
  moreover have "package_override ''optional = true'' = None"
    by (simp add: package_override_def override_none)
  moreover have "toml_flag_is_true ''optional = true'' ''optional'' = Some True"
    using flag_true [of None "[]"] unfolding toml_flag_is_true_def strip_balanced [OF balanced_literals(8)] by simp
  ultimately show ?thesis by (simp add: dep_body_def)
qed

text \<open>The tables.\<close>

lemma subtable_name: "crate_name k \<Longrightarrow> subtable_dependency_name (''[dependencies.'' @ k @ '']'') = Some k"
proof -
  assume k: "crate_name k"
  have "takeWhile (\<lambda>b. \<not> (b = CHR ''.'' \<or> b = CHR '']'')) (k @ '']'') = k"
    using crate_name_bytes(2) [OF k] key_byte_cases(7,8) by (subst takeWhile_append2) auto
  then show ?thesis
    using crate_name_bytes [OF k] strip_prefix_append [of "''[dependencies.''" "k @ '']''"]
    by (simp add: subtable_dependency_name_def CORE_DEPS_SUBTABLE_PREFIX_def hd_split_on del: strip_prefix_Cons)
qed

text \<open>The state behind the header of the sub-table of \<open>k\<close>, when its entry has come to be \<open>r\<close>.\<close>

definition in_subtable :: "dep_scan \<Rightarrow> bytes \<Rightarrow> bool \<Rightarrow> dep_scan" where
  "in_subtable sc r on = sc\<lparr>ds_subtable := Some (length (ds_entries sc)), ds_entries := ds_entries sc @ [r],
    ds_optional := ds_optional sc @ [on], ds_in_deps := False\<rparr>"

lemma subtable_head:
  assumes "dep_key k"
  shows "dep_line sc (''[dependencies.'' @ k @ '']'') = Some (in_subtable sc k False)"
proof -
  define h where "h = ''[dependencies.'' @ k @ '']''"
  note name = dep_key_parts(1) [OF assms]
  have "balanced h" unfolding h_def
    using balanced_append balanced_literals(10,11) balanced_name [OF name] by blast
  then have "trim (strip_toml_comment h) = h" by (rule strip_id) (simp_all add: h_def solid_literals)
  moreover have "h \<noteq> CORE_DEPS_TABLE" by (simp add: h_def CORE_DEPS_TABLE_def)
  moreover have "prefix ''['' h" by (simp add: h_def)
  ultimately show ?thesis
    unfolding h_def [symmetric]
    using dep_line_header [of h sc] subtable_name [OF name, folded h_def]
    by (simp add: dep_header_def in_subtable_def)
qed

lemma in_subtable_ok:
  assumes "scan_ok sc"
  shows "scan_ok (in_subtable sc r on)"
    and "required_names (in_subtable sc r on) = required_names sc @ (if on then [] else [r])"
  using assms by (auto simp: in_subtable_def required_names_def scan_ok_def)

lemma subtable_version:
  "version_text v \<Longrightarrow> dep_line (in_subtable sc r on) (''version = '' @ quoted v) = Some (in_subtable sc r on)"
  by (rule version_line) (simp_all add: in_subtable_def)

lemma subtable_package:
  assumes "crate_name p"
  shows "dep_line (in_subtable sc r on) (''package = '' @ quoted p) = Some (in_subtable sc p on)"
  using package_line [OF assms, of "in_subtable sc r on"] by (simp add: in_subtable_def)

lemma subtable_optional:
  "scan_ok sc \<Longrightarrow> dep_line (in_subtable sc r False) ''optional = true'' = Some (in_subtable sc r True)"
  using optional_line [of "in_subtable sc r False"] list_update_length [of "ds_optional sc" False "[]" True]
  by (simp add: in_subtable_def scan_ok_def)

lemma subtable_lines:
  assumes "dep_key k" and "spec_ok sp" and "scan_ok sc"
  shows "\<exists>sc'. dep_lines sc (table_lines (Dep_Subtable (k, sp))) = Some sc' \<and> scan_ok sc' \<and>
    required_names sc' = required_names sc @ required_of [(k, sp)]"
proof (cases sp)
  case (Plain v)
  then have "dep_lines sc (table_lines (Dep_Subtable (k, sp))) = Some (in_subtable sc k False)"
    using subtable_head [OF assms(1)] subtable_version [of v] assms(2) by (simp del: append_Cons)
  then show ?thesis using Plain in_subtable_ok [OF assms(3)] by (simp add: required_of_def)
next
  case (Detailed v pk opt)
  define real where "real = (case pk of Some p \<Rightarrow> p | None \<Rightarrow> k)"
  have rename: "dep_lines (in_subtable sc k False) ((case pk of Some p \<Rightarrow> [''package = '' @ quoted p] | None \<Rightarrow> []) @ ls) =
      dep_lines (in_subtable sc real False) ls" for ls
    using assms(2) Detailed subtable_package by (cases pk) (simp_all add: real_def)
  define h where "h = ''[dependencies.'' @ k @ '']''"
  have lines: "table_lines (Dep_Subtable (k, sp)) =
      h # (''version = '' @ quoted v) # (case pk of Some p \<Rightarrow> [''package = '' @ quoted p] | None \<Rightarrow> []) @
      (if opt then [''optional = true''] else [])"
    by (simp add: h_def Detailed del: append_Cons)
  have "dep_lines sc (table_lines (Dep_Subtable (k, sp))) = Some (in_subtable sc real opt)"
    unfolding lines
    using subtable_head [OF assms(1), folded h_def] subtable_version [of v] assms(2) rename subtable_optional [OF assms(3)]
    by (simp add: Detailed del: append_Cons)
  then show ?thesis using Detailed in_subtable_ok [OF assms(3)] by (auto simp: required_of_def real_def)
qed

lemma other_lines:
  assumes "ds_in_deps sc = False" and "ds_subtable sc = None"
    and "list_all (\<lambda>l. \<not> prefix ''['' (trim (strip_toml_comment l))) ls"
  shows "dep_lines sc ls = Some sc"
  using assms(3) by (induction ls) (simp_all add: dep_line_def assms(1,2) Let_def)

lemma prefix_stops:
  assumes "prefix p (k @ c # r)" and "c \<notin> set p"
  shows "prefix p k"
proof -
  have "prefix k (k @ c # r)" by simp
  then consider "prefix p k" | "prefix k p" using assms(1) prefix_same_cases by blast
  then show ?thesis
  proof cases
    case 2
    then obtain q where p: "p = k @ q" by (auto simp: prefix_def)
    then have "prefix q (c # r)" using assms(1) by simp
    then show ?thesis using assms(2) p by (cases q) simp_all
  qed
qed

lemma other_name_differs:
  assumes "other_name k"
  shows "k \<noteq> ''dependencies''" and "\<not> prefix ''dependencies.'' k"
proof -
  have "\<not> list_ex (\<lambda>d. k = d \<or> prefix (d @ ''.'') k) OTHER_DEPENDENCIES" if "prefix ''dependencies'' k"
    using that by (auto simp: OTHER_DEPENDENCIES_def prefix_def)
  then have "\<not> prefix ''dependencies'' k"
    using assms prefix_imp_sublist by (auto simp: other_name_def str_contains_iff)
  then show "k \<noteq> ''dependencies''" "\<not> prefix ''dependencies.'' k" by (auto simp: prefix_def)
qed

lemma other_header_text:
  assumes "other_name k" and "h = other_header array k"
  shows "trim (strip_toml_comment h) = h" and "prefix ''['' h" and "h \<noteq> CORE_DEPS_TABLE"
    and "\<not> prefix CORE_DEPS_SUBTABLE_PREFIX h" and "line_text h"
proof -
  have name: "\<forall>b \<in> set k. is_key_byte b \<or> b = CHR ''.''"
    using assms(1) by (auto simp: other_name_def list_all_iff)
  have byte: "\<not> is_quote b \<and> b \<noteq> CHR ''#'' \<and> b \<noteq> LF \<and> b \<noteq> CR"
    if "is_key_byte b \<or> b = CHR ''.'' \<or> b = CHR ''['' \<or> b = CHR '']''" for b
    using that key_byte_cases(2,4,10,11) [of b] by (auto simp: is_quote_def)
  have "\<forall>b \<in> set h. is_key_byte b \<or> b = CHR ''.'' \<or> b = CHR ''['' \<or> b = CHR '']''"
    using name by (auto simp: assms(2) other_header_def)
  then have plain: "\<forall>b \<in> set h. \<not> is_quote b \<and> b \<noteq> CHR ''#'' \<and> b \<noteq> LF \<and> b \<noteq> CR"
    using byte by blast
  then have "balanced h" by (intro balanced_plain) blast
  then show "trim (strip_toml_comment h) = h"
    by (rule strip_id) (simp_all add: assms(2) other_header_def solid_literals)
  show "prefix ''['' h" by (simp add: assms(2) other_header_def)
  show "line_text h" using plain by (auto simp: line_text_def)
  have "k @ '']'' \<noteq> ''dependencies]''"
    using other_name_differs(1) [OF assms(1)] append1_eq_conv [of k "CHR '']''" "''dependencies''"] by simp
  then show "h \<noteq> CORE_DEPS_TABLE" by (simp add: assms(2) other_header_def CORE_DEPS_TABLE_def)
  show "\<not> prefix CORE_DEPS_SUBTABLE_PREFIX h"
    using other_name_differs(2) [OF assms(1)] prefix_stops [of "''dependencies.''" k "CHR '']''" "[]"]
    by (auto simp: assms(2) other_header_def CORE_DEPS_SUBTABLE_PREFIX_def)
qed

lemma table_scan:
  assumes "table_ok t" and "scan_ok sc"
  shows "\<exists>sc'. dep_lines sc (table_lines t) = Some sc' \<and> scan_ok sc' \<and>
    required_names sc' = required_names sc @ required_of (table_deps t)"
proof (cases t)
  case (Deps_Table ds)
  have "trim (strip_toml_comment ''[dependencies]'') = ''[dependencies]''"
    by (rule strip_id [OF balanced_literals(12)]) (simp_all add: solid_literals)
  then have "dep_line sc ''[dependencies]'' = Some (dep_header sc ''[dependencies]'')"
    by (rule dep_line_header) simp
  moreover have "subtable_dependency_name ''[dependencies]'' = None"
    by (simp add: subtable_dependency_name_def CORE_DEPS_SUBTABLE_PREFIX_def)
  then have "dep_header sc ''[dependencies]'' = sc\<lparr>ds_subtable := None, ds_in_deps := True\<rparr>"
    by (simp add: dep_header_def CORE_DEPS_TABLE_def)
  moreover have "scan_ok (sc\<lparr>ds_subtable := None, ds_in_deps := True\<rparr>)"
    "required_names (sc\<lparr>ds_subtable := None, ds_in_deps := True\<rparr>) = required_names sc"
    using assms(2) by (simp_all add: scan_ok_def required_names_def)
  ultimately show ?thesis
    using inline_lines [of ds "sc\<lparr>ds_subtable := None, ds_in_deps := True\<rparr>"] assms(1) Deps_Table by simp
next
  case (Dep_Subtable d)
  then show ?thesis using subtable_lines [of "fst d" "snd d" sc] assms by (cases d) simp
next
  case (Other_Table array name ls)
  define h where "h = other_header array name"
  have lines: "table_lines t = h # ls" "list_all (\<lambda>l. \<not> prefix ''['' (trim (strip_toml_comment l))) ls"
    using Other_Table assms(1) by (auto simp: h_def other_line_def list_all_iff)
  have h: "trim (strip_toml_comment h) = h" "prefix ''['' h" "h \<noteq> CORE_DEPS_TABLE" "\<not> prefix CORE_DEPS_SUBTABLE_PREFIX h"
    using other_header_text [OF _ h_def] assms(1) Other_Table by simp_all
  have "dep_header sc h = sc\<lparr>ds_subtable := None, ds_in_deps := False\<rparr>"
    using h(3,4) by (simp add: dep_header_def subtable_dependency_name_def strip_prefix_def)
  then have "dep_lines sc (table_lines t) = Some (sc\<lparr>ds_subtable := None, ds_in_deps := False\<rparr>)"
    using dep_line_header [OF h(1,2)] other_lines [OF _ _ lines(2)] lines(1) by simp
  then show ?thesis using assms(2) Other_Table by (simp add: scan_ok_def required_names_def required_of_def)
qed

lemma dep_lines_append: "dep_lines sc (xs @ ys) = Option.bind (dep_lines sc xs) (\<lambda>sc'. dep_lines sc' ys)"
  by (induction xs arbitrary: sc) simp_all

lemma manifest_scan:
  "list_all table_ok m \<Longrightarrow> scan_ok sc \<Longrightarrow>
    \<exists>sc'. dep_lines sc (concat (map table_lines m)) = Some sc' \<and>
      required_names sc' = required_names sc @ required_of (concat (map table_deps m))"
proof (induction m arbitrary: sc)
  case (Cons t m)
  then obtain sc' where "dep_lines sc (table_lines t) = Some sc'" "scan_ok sc'"
    "required_names sc' = required_names sc @ required_of (table_deps t)"
    using table_scan [of t sc] by auto
  with Cons.IH [of sc'] Cons.prems show ?case by (auto simp: dep_lines_append required_of_def)
qed (simp add: required_of_def)

lemma key_line: "list_all is_key_byte k \<Longrightarrow> line_text k"
  using key_byte_cases(10,11) by (auto simp: line_text_def list_all_iff)

lemma line_text_append: "line_text (a @ b) \<longleftrightarrow> line_text a \<and> line_text b"
  "line_text (c # b) \<longleftrightarrow> c \<noteq> LF \<and> c \<noteq> CR \<and> line_text b"
  "line_text []"
  by (auto simp: line_text_def)

lemma table_line_text: "table_ok t \<Longrightarrow> l \<in> set (table_lines t) \<Longrightarrow> line_text l"
proof -
  have pack: "line_text (package_text pk)" if "package_ok pk" for pk
    using that key_line by (cases pk) (auto simp: line_text_append quoted_def crate_name_def)
  have opt: "line_text (optional_text b)" for b by (cases b) (simp_all add: line_text_append)
  have dep: "line_text (dep_text (k, s) @ c)" if "dep_key k" "spec_ok s" "comment_text c" for k s c
    using that pack opt key_line
    by (cases s) (auto simp: dep_text_def line_text_append quoted_def dep_key_def crate_name_def version_text_def comment_text_def)
  have body: "line_text x" if "spec_ok s" "x \<in> set (spec_body s)" for s x
    using that key_line
    by (cases s) (auto simp: line_text_append quoted_def crate_name_def version_text_def split: option.splits if_splits)
  show "table_ok t \<Longrightarrow> l \<in> set (table_lines t) \<Longrightarrow> line_text l"
    using dep body key_line other_header_text(5)
    by (cases t) (fastforce simp: line_text_append list_all_iff dep_key_def crate_name_def other_line_def)+
qed

lemma printed_scan:
  assumes "list_all table_ok m"
  shows "core_dependency_entries (manifest_text m) = Some (required_crates m)"
proof -
  have "str_lines (manifest_text m @ []) = concat (map table_lines m) @ str_lines []"
    unfolding manifest_text_def
    by (rule str_lines_unlines) (use assms table_line_text in \<open>auto simp: list_all_iff\<close>)
  then have "str_lines (manifest_text m) = concat (map table_lines m)" by simp
  moreover have "scan_ok dep_scan_new" "required_names dep_scan_new = []"
    by (simp_all add: scan_ok_def dep_scan_new_def required_names_def)
  ultimately show ?thesis
    using manifest_scan [OF assms, of dep_scan_new]
    by (auto simp: core_dependency_entries_def required_crates_def required_of_def)
qed

section \<open>Properties\<close>

text \<open>C22: The dependency gate judges a plainly printed manifest by the crates it declares.  Such a manifest
  consists of \<open>[dependencies]\<close> tables, \<open>[dependencies.key]\<close> tables and other tables.  A dependency
  is a version in double quotes, or a version with an optional \<open>package\<close> and an optional \<open>optional = true\<close>;
  its key is a bare key that contains neither of the words package and optional, its version contains no
  quote, no backslash and not the word package, and any comment may stand behind an inline entry.
  Another table, or array of tables, is named by a dotted bare key that does not contain the word dependencies, or by
  the development, build or workspace dependencies or one of their sub-tables; its lines look like no
  header and contain no backslash, no triple quotes and not the word dependencies.  For every such
  manifest the scan does not panic and returns the real crates of exactly the entries that are not optional, in
  order, and the gate reports exactly those outside the allowlist.\<close>

theorem dependency_scan_exact:
  assumes "list_all table_ok m"
  shows "core_dependency_entries (manifest_text m) = Some (required_crates m) \<and>
    set (disallowed_core_deps (required_crates m) CORE_DEP_ALLOWLIST) =
      {real_crate d | d t. t \<in> set m \<and> d \<in> set (table_deps t) \<and> \<not> is_optional d} - set CORE_DEP_ALLOWLIST"
  using printed_scan [OF assms] by (auto simp: disallowed_core_deps_def required_crates_def)

definition sample_manifest :: "table list" where
  "sample_manifest =
    [Other_Table False ''package'' [''name = '' @ quoted ''purecard''],
     Deps_Table
      [((''serde'', Plain ''1.0''), '' # package = evil''),
       ((''pyo3'', Detailed ''0.22'' None True), []),
       ((''json'', Detailed ''1'' (Some ''serde_json'') False), '' # optional = true'')],
     Other_Table True ''bench'' [''harness = false''],
     Other_Table False ''dev-dependencies'' [''rand = '' @ quoted ''0.8''],
     Dep_Subtable (''thiserror'', Detailed ''2'' (Some ''evil'') False)]"

theorem dependency_scan_exact_witness:
  "core_dependency_entries (manifest_text sample_manifest) = Some [''serde'', ''serde_json'', ''evil''] \<and>
   disallowed_core_deps (required_crates sample_manifest) CORE_DEP_ALLOWLIST = [''evil'']"
proof -
  have "list_all table_ok sample_manifest" by code_simp
  moreover have "required_crates sample_manifest = [''serde'', ''serde_json'', ''evil'']" by code_simp
  moreover have "disallowed_core_deps (required_crates sample_manifest) CORE_DEP_ALLOWLIST = [''evil'']" by code_simp
  ultimately show ?thesis using dependency_scan_exact [of sample_manifest] by simp
qed

definition gate_passes :: "bytes list \<Rightarrow> bool" where
  "gate_passes ls \<longleftrightarrow>
    (case core_dependency_entries (unlines ls) of
       None \<Rightarrow> False
     | Some entries \<Rightarrow> disallowed_core_deps entries CORE_DEP_ALLOWLIST = [])"

text \<open>The gate can be evaded and can crash.  A runtime dependency on an unlisted crate passes when
  one of its values holds the text of a rename (here in the address of a repository), when its
  table is spelled with spaces or with a target, or when it is a dotted key before the first table; and
  a character outside ASCII in a key is a panic, not a verdict.  The crate \<open>package\<close> is reported as its version.\<close>

theorem dependency_gate_evaded:
  "\<not> gate_passes [''[dependencies]'', ''evil = '' @ quoted ''1'']
   \<and> gate_passes [''[dependencies]'', ''evil = { git = '' @ quoted (''https://h/r?package='' @ SQ # ''serde'' @ [SQ]) @ '' }'']
   \<and> core_dependency_entries (unlines [''[dependencies]'', ''package = '' @ quoted ''1.0'']) = Some [''1.0'']
   \<and> gate_passes [''[ dependencies ]'', ''evil = '' @ quoted ''1'']
   \<and> gate_passes [''[target.x86_64-unknown-linux-gnu.dependencies]'', ''evil = '' @ quoted ''1'']
   \<and> gate_passes [''dependencies.evil = '' @ quoted ''1'', ''[package]'']
   \<and> core_dependency_entries (unlines [''[dependencies]'', CHR 0xC3 # CHR 0xA9 # '' = '' @ quoted ''1'']) = None"
  by code_simp

end
