(* ===== verification/Release_Overrides.thy ===== *)
theory Release_Overrides
  imports Rust_Text "HOL-Library.Monad_Syntax"
begin

text \<open>
  The scan of the release configuration in \<open>src/xtask/src/tasks.rs\<close> for the names of its package
  overrides, and the comparison with the members of the workspace.
\<close>

section \<open>The scan\<close>

record override_scan =
  os_names :: "bytes list"
  os_in_package :: bool

definition override_name :: "bytes \<Rightarrow> bytes option" where
  "override_name trimmed = do {
     rest \<leftarrow> strip_prefix ''name'' trimmed;
     v \<leftarrow> strip_prefix ''='' (trim_start rest);
     q \<leftarrow> strip_prefix [DQ] (trim v);
     Some (hd (split_on (\<lambda>b. b = DQ) q))
   }"

definition override_line :: "override_scan \<Rightarrow> bytes \<Rightarrow> override_scan" where
  "override_line sc line =
    (let trimmed = trim line
     in if prefix ''['' trimmed then sc\<lparr>os_in_package := (trimmed = ''[[package]]'')\<rparr>
        else if \<not> os_in_package sc then sc
        else case override_name trimmed of
          Some name \<Rightarrow> sc\<lparr>os_names := vec_push (os_names sc) name\<rparr>
        | None \<Rightarrow> sc)"

definition release_plz_override_names :: "bytes \<Rightarrow> bytes list" where
  "release_plz_override_names toml_src =
    os_names (foldl override_line \<lparr>os_names = [], os_in_package = False\<rparr> (str_lines toml_src))"

definition missing_overrides :: "bytes list \<Rightarrow> bytes list \<Rightarrow> bytes list" where
  "missing_overrides overrides members = filter (\<lambda>name. \<not> list_ex (\<lambda>member. member = name) members) overrides"

section \<open>Printed configurations\<close>

text \<open>An override table starts with its name in double quotes, with any comment behind; the other lines of a
  table are arbitrary as long as they neither look like a header, nor set a name, nor open a string of several lines.
  TOML would read an override from a header that spells the word \<open>package\<close> in another way, or hides it
  behind an escape: another table's header holds neither.\<close>

datatype plz_table =
    Override bytes bytes "bytes list"
  | Settings bytes "bytes list"

fun plz_lines :: "plz_table \<Rightarrow> bytes list" where
  "plz_lines (Override name tail ls) = ''[[package]]'' # (''name = '' @ quoted name @ tail) # ls"
| "plz_lines (Settings header ls) = header # ls"

fun plz_name :: "plz_table \<Rightarrow> bytes list" where
  "plz_name (Override name tail ls) = [name]"
| "plz_name (Settings header ls) = []"

definition table_line :: "bytes \<Rightarrow> bool" where
  "table_line l \<longleftrightarrow> line_text l \<and> \<not> prefix ''['' (trim l) \<and> \<not> str_contains l [DQ, DQ, DQ] \<and> \<not> str_contains l [SQ, SQ, SQ]"

definition quiet_line :: "bytes \<Rightarrow> bool" where
  "quiet_line l \<longleftrightarrow> table_line l \<and> override_name (trim l) = None"

fun plz_ok :: "plz_table \<Rightarrow> bool" where
  "plz_ok (Override name tail ls) =
    (DQ \<notin> set name \<and> BACKSLASH \<notin> set name \<and> line_text name \<and> comment_text tail \<and>
     list_all quiet_line ls)"
| "plz_ok (Settings header ls) =
    (line_text header \<and> prefix ''['' (trim header) \<and> \<not> str_contains header ''package'' \<and> BACKSLASH \<notin> set header \<and>
     list_all table_line ls)"

lemma solid_marks: "solid DQ" "solid (CHR ''='')" "solid (CHR ''n'')" "solid (CHR ''['')" "solid (CHR '']'')"
  by (simp_all add: solid_def byte_between_def)

lemma trim_keeps:
  assumes "solid a" and "solid b"
  shows "\<exists>w'. prefix w' w \<and> trim (a # s @ b # w) = a # s @ b # w'"
  using trim_end_keeps [OF assms(2), of w "a # s"] assms(1) by (simp add: trim_def trim_start_solid)

lemma name_line:
  assumes "DQ \<notin> set name"
  shows "override_name (trim (''name = '' @ quoted name @ tail)) = Some name"
    and "\<not> prefix ''['' (trim (''name = '' @ quoted name @ tail))"
proof -
  obtain w where line: "trim (''name = '' @ quoted name @ tail) = ''name = '' @ quoted name @ w"
    using trim_keeps [OF solid_marks(3,1), of tail "''ame = '' @ DQ # name"] by (auto simp: quoted_def)
  obtain v where val: "trim ('' '' @ quoted name @ w) = quoted name @ v"
    using trim_keeps [OF solid_marks(1,1), of w name] by (auto simp: quoted_def trim_def)
  have "takeWhile (\<lambda>b. \<not> b = DQ) (name @ DQ # v) = name" using assms by (induction name) auto
  then show "override_name (trim (''name = '' @ quoted name @ tail)) = Some name"
    unfolding line override_name_def
    using val by (simp add: trim_start_solid solid_marks hd_split_on quoted_def)
  show "\<not> prefix ''['' (trim (''name = '' @ quoted name @ tail))" unfolding line by simp
qed

lemma override_lines_quiet: "list_all quiet_line ls \<Longrightarrow> foldl override_line sc ls = sc"
  by (induction ls) (simp_all add: quiet_line_def table_line_def override_line_def)

lemma settings_lines_ignored: "list_all table_line ls \<Longrightarrow> \<not> os_in_package sc \<Longrightarrow> foldl override_line sc ls = sc"
  by (induction ls) (simp_all add: table_line_def override_line_def)

lemma settings_header: "trim header \<noteq> ''[[package]]''" if "\<not> str_contains header ''package''"
proof
  assume eq: "trim header = ''[[package]]''"
  have "''[[package]]'' = ''[['' @ ''package'' @ '']]''" by simp
  then have "sublist ''package'' (trim header)" unfolding eq sublist_def by blast
  with that trim_sublist [of header] show False
    by (meson str_contains_iff sublist_order.order_trans)
qed

lemma plz_table_scan:
  assumes "plz_ok t"
  shows "os_names (foldl override_line sc (plz_lines t)) = os_names sc @ plz_name t"
proof (cases t)
  case (Override name tail ls)
  have "trim ''[[package]]'' = ''[[package]]''" by (rule trim_edges) (simp_all add: solid_marks)
  then show ?thesis
    using assms Override name_line [of name tail]
    by (simp add: override_line_def [of _ "''[[package]]''"] override_line_def [of _ "''name = '' @ quoted name @ tail"]
        override_lines_quiet del: append_Cons)
next
  case (Settings header ls)
  then show ?thesis
    using assms settings_lines_ignored [of ls] settings_header [of header] by (simp add: override_line_def [of _ header])
qed

lemma plz_line_text: "plz_ok t \<Longrightarrow> l \<in> set (plz_lines t) \<Longrightarrow> line_text l"
  by (cases t) (auto simp: list_all_iff quiet_line_def table_line_def comment_text_def line_text_def quoted_def)

text \<open>C24: The release check compares exactly the overrides of a plainly printed configuration with the workspace.
  Such a configuration consists of override tables, whose header is the line \<open>[[package]]\<close>, followed by
  the name in double quotes without quotes and backslashes in it, with any comment behind, and by lines that
  set no further name; and of other tables, whose header contains neither the word package nor a backslash and
  whose lines are arbitrary; where no line looks like a header or contains triple quotes.  The scan returns
  the names of the override tables, in order, and the check reports exactly those that are not members.\<close>

theorem release_overrides_exact:
  assumes "list_all plz_ok ts"
  shows "release_plz_override_names (unlines (concat (map plz_lines ts))) = concat (map plz_name ts) \<and>
    set (missing_overrides (concat (map plz_name ts)) members) = {n. \<exists>t \<in> set ts. n \<in> set (plz_name t)} - set members"
proof -
  have "str_lines (unlines (concat (map plz_lines ts)) @ []) = concat (map plz_lines ts) @ str_lines []"
    by (rule str_lines_unlines) (use assms plz_line_text in \<open>auto simp: list_all_iff\<close>)
  moreover have "os_names (foldl override_line sc (concat (map plz_lines ts))) = os_names sc @ concat (map plz_name ts)" for sc
    using assms by (induction ts arbitrary: sc) (simp_all add: plz_table_scan)
  ultimately show ?thesis
    by (auto simp: release_plz_override_names_def missing_overrides_def list_ex_iff)
qed

theorem release_overrides_exact_witness:
  "release_plz_override_names (unlines [''[workspace]'', ''name = ignored'', ''[[package]]'', ''name = '' @ quoted ''xtask'' @ '' # internal'', ''publish = false'']) = [''xtask''] \<and>
   missing_overrides [''xtask''] [''purecard''] = [''xtask'']"
proof -
  have "list_all plz_ok [Settings ''[workspace]'' [''name = ignored''], Override ''xtask'' '' # internal'' [''publish = false'']]"
    by code_simp
  then show ?thesis
    using release_overrides_exact [of "[Settings ''[workspace]'' [''name = ignored''], Override ''xtask'' '' # internal'' [''publish = false'']]"]
    by (simp add: missing_overrides_def)
qed

text \<open>The scan misses overrides that TOML would read: a header with a comment behind it or with spaces in
  it, and a name in single quotes, so the check is green for a name that is no member.\<close>

lemma release_overrides_missed:
  "release_plz_override_names (unlines [''[[package]] # internal'', ''name = '' @ quoted ''ghost'']) = []"
  "release_plz_override_names (unlines [''[[ package ]]'', ''name = '' @ quoted ''ghost'']) = []"
  "release_plz_override_names (unlines [''[[package]]'', ''name = '' @ SQ # ''ghost'' @ [SQ]]) = []"
  by code_simp+

end
