(* ===== verification/Civil_Date.thy ===== *)
theory Civil_Date
  imports Rust_Text "HOL-Library.Signed_Division" "HOL-Library.Monad_Syntax"
begin

text \<open>
  The calendar of \<open>src/xtask/src/tasks.rs\<close>: days since the Unix epoch to a date of the proleptic
  Gregorian calendar, in \<open>i64\<close> arithmetic whose overflow panics (\<^term>\<open>None\<close>), and the date text that
  is stamped on a new specification.  The reference is a calendar that counts one day at a time.
\<close>

section \<open>Arithmetic of \<open>i64\<close>\<close>

text \<open>Arithmetic with overflow checks; a division truncates towards zero.\<close>

definition i64 :: "int \<Rightarrow> int option" where
  "i64 x = (if - (2 ^ 63) \<le> x \<and> x < 2 ^ 63 then Some x else None)"

definition i64_add :: "int \<Rightarrow> int \<Rightarrow> int option" where
  "i64_add a b = i64 (a + b)"

definition i64_sub :: "int \<Rightarrow> int \<Rightarrow> int option" where
  "i64_sub a b = i64 (a - b)"

definition i64_mul :: "int \<Rightarrow> int \<Rightarrow> int option" where
  "i64_mul a b = i64 (a * b)"

definition i64_div :: "int \<Rightarrow> int \<Rightarrow> int option" where
  "i64_div a b = (if b = 0 then None else i64 (a sdiv b))"

lemmas i64_ops = i64_add_def i64_sub_def i64_mul_def i64_div_def

lemma i64_Some: "- (2 ^ 63) \<le> x \<Longrightarrow> x < 2 ^ 63 \<Longrightarrow> i64 x = Some x"
  by (simp add: i64_def)

lemma sdiv_nonneg: "0 \<le> (a :: int) \<Longrightarrow> 0 < b \<Longrightarrow> a sdiv b = a div b"
  by (simp add: signed_divide_int_def sgn_if)

lemma sdiv_neg: "(a :: int) < 0 \<Longrightarrow> 0 < b \<Longrightarrow> a sdiv b = - (- a div b)"
  by (simp add: signed_divide_int_def sgn_if)

section \<open>The conversion\<close>

definition SECS_PER_DAY :: nat where "SECS_PER_DAY = 86400"
definition DAYS_PER_YEAR :: int where "DAYS_PER_YEAR = 365"
definition YEARS_PER_ERA :: int where "YEARS_PER_ERA = 400"
definition DAYS_PER_ERA :: int where "DAYS_PER_ERA = 146097"
definition DAYS_PER_4_YEARS :: int where "DAYS_PER_4_YEARS = 1460"
definition DAYS_PER_100_YEARS :: int where "DAYS_PER_100_YEARS = 36524"
definition EPOCH_SHIFT_DAYS :: int where "EPOCH_SHIFT_DAYS = 719468"

lemmas calendar_consts = DAYS_PER_YEAR_def YEARS_PER_ERA_def DAYS_PER_ERA_def DAYS_PER_4_YEARS_def
  DAYS_PER_100_YEARS_def EPOCH_SHIFT_DAYS_def

definition civil_from_days :: "int \<Rightarrow> (int \<times> u32 \<times> u32) option" where
  "civil_from_days days = do {
     z \<leftarrow> i64_add days EPOCH_SHIFT_DAYS;
     era_len \<leftarrow> i64_sub DAYS_PER_ERA 1;
     floored \<leftarrow> (if z \<ge> 0 then Some z else i64_sub z era_len);
     era \<leftarrow> i64_div floored DAYS_PER_ERA;
     era_start \<leftarrow> i64_mul era DAYS_PER_ERA;
     doe \<leftarrow> i64_sub z era_start;
     fours \<leftarrow> i64_div doe DAYS_PER_4_YEARS;
     hundreds \<leftarrow> i64_div doe DAYS_PER_100_YEARS;
     full \<leftarrow> i64_div doe era_len;
     n1 \<leftarrow> i64_sub doe fours;
     n2 \<leftarrow> i64_add n1 hundreds;
     n3 \<leftarrow> i64_sub n2 full;
     yoe \<leftarrow> i64_div n3 DAYS_PER_YEAR;
     era_years \<leftarrow> i64_mul era YEARS_PER_ERA;
     year \<leftarrow> i64_add yoe era_years;
     y1 \<leftarrow> i64_mul DAYS_PER_YEAR yoe;
     y4 \<leftarrow> i64_div yoe 4;
     y100 \<leftarrow> i64_div yoe 100;
     s1 \<leftarrow> i64_add y1 y4;
     s2 \<leftarrow> i64_sub s1 y100;
     doy \<leftarrow> i64_sub doe s2;
     m1 \<leftarrow> i64_mul 5 doy;
     m2 \<leftarrow> i64_add m1 2;
     mp \<leftarrow> i64_div m2 153;
     d1 \<leftarrow> i64_mul 153 mp;
     d2 \<leftarrow> i64_add d1 2;
     d3 \<leftarrow> i64_div d2 5;
     d4 \<leftarrow> i64_sub doy d3;
     d5 \<leftarrow> i64_add d4 1;
     month \<leftarrow> (if mp < 10 then i64_add mp 3 else i64_sub mp 9);
     let day = word_of_int d5;
     let month' = (word_of_int month :: u32);
     shown \<leftarrow> (if month' \<le> 2 then i64_add year 1 else Some year);
     Some (shown, month', day)
   }"

text \<open>Formatting \<open>{:04}\<close> and \<open>{:02}\<close>: zeros are inserted after a sign.\<close>

definition pad_zeros :: "nat \<Rightarrow> bytes \<Rightarrow> bytes" where
  "pad_zeros w ds = replicate (w - length ds) (CHR ''0'') @ ds"

definition show_padded :: "nat \<Rightarrow> int \<Rightarrow> bytes" where
  "show_padded w n =
    (if n < 0 then ''-'' @ pad_zeros (w - 1) (decimal (nat (- n))) else pad_zeros w (decimal (nat n)))"

text \<open>The clock is the number of whole seconds since the epoch, or nothing when it stands before
  the epoch; the cast to \<open>i64\<close> of a \<open>u64\<close> divided by a day's seconds never wraps.\<close>

definition today_utc_ymd :: "u64 option \<Rightarrow> bytes option" where
  "today_utc_ymd clock = do {
     let secs = (case clock of Some s \<Rightarrow> unat s | None \<Rightarrow> 0);
     (year, month, day) \<leftarrow> civil_from_days (int (secs div SECS_PER_DAY));
     Some (show_padded 4 year @ ''-'' @ show_padded 2 (uint month) @ ''-'' @ show_padded 2 (uint day))
   }"

section \<open>The reference calendar\<close>

definition leap_year :: "int \<Rightarrow> bool" where
  "leap_year y \<longleftrightarrow> y mod 4 = 0 \<and> (y mod 100 \<noteq> 0 \<or> y mod 400 = 0)"

definition month_length :: "int \<Rightarrow> int \<Rightarrow> int" where
  "month_length y m =
    (if m = 2 then (if leap_year y then 29 else 28)
     else if m \<in> {4, 6, 9, 11} then 30 else 31)"

text \<open>The day after a date.\<close>

fun next_day :: "int \<times> int \<times> int \<Rightarrow> int \<times> int \<times> int" where
  "next_day (y, m, d) =
    (if d < month_length y m then (y, m, d + 1)
     else if m < 12 then (y, m + 1, 1)
     else (y + 1, 1, 1))"

definition valid_date :: "int \<times> int \<times> int \<Rightarrow> bool" where
  "valid_date c \<longleftrightarrow> (case c of (y, m, d) \<Rightarrow> 1 \<le> m \<and> m \<le> 12 \<and> 1 \<le> d \<and> d \<le> month_length y m)"

text \<open>The number of a day, counted from the epoch.\<close>

definition leaps_upto :: "int \<Rightarrow> int" where
  "leaps_upto y = y div 4 - y div 100 + y div 400"

definition new_year :: "int \<Rightarrow> int" where
  "new_year y = 365 * (y - 1970) + leaps_upto (y - 1) - leaps_upto 1969"

definition month_start :: "int \<Rightarrow> int \<Rightarrow> int" where
  "month_start y m = [0, 31, 59, 90, 120, 151, 181, 212, 243, 273, 304, 334] ! nat (m - 1) +
    (if 2 < m \<and> leap_year y then 1 else 0)"

fun day_number :: "int \<times> int \<times> int \<Rightarrow> int" where
  "day_number (y, m, d) = new_year y + month_start y m + d - 1"

text \<open>Step by one in a floored quotient.\<close>

lemma div_step:
  assumes "1 < (k :: int)"
  shows "y div k = (y - 1) div k + (if y mod k = 0 then 1 else 0)"
proof -
  have y: "y = k * (y div k) + y mod k" by simp
  show ?thesis
  proof (cases "y mod k = 0")
    case True
    have "(y - 1) div k = y div k - 1"
      by (rule int_div_pos_eq [where r = "k - 1"]) (use y True assms in \<open>auto simp: algebra_simps\<close>)
    with True show ?thesis by simp
  next
    case False
    have r: "0 \<le> y mod k" "y mod k < k" using assms by simp_all
    have "y - 1 = k * (y div k) + (y mod k - 1)" using y by simp
    moreover have "0 \<le> y mod k - 1" "y mod k - 1 < k" using r False by linarith+
    ultimately have "(y - 1) div k = y div k" by (rule int_div_pos_eq)
    with False show ?thesis by simp
  qed
qed

lemma leaps_step: "leaps_upto y = leaps_upto (y - 1) + (if leap_year y then 1 else 0)"
proof -
  have dvd: "(100 :: int) dvd 400" "(4 :: int) dvd 100" by simp_all
  have nested: "y mod 400 = 0 \<Longrightarrow> y mod 100 = 0" "y mod 100 = 0 \<Longrightarrow> y mod 4 = 0"
    unfolding mod_eq_0_iff_dvd by (erule dvd_trans [OF dvd(1)], erule dvd_trans [OF dvd(2)])
  have pick: "q4 - q100 + q400 = p4 - p100 + p400 + (if a \<and> (\<not> b \<or> c) then 1 else 0)"
    if "q4 = p4 + (if a then 1 else 0)" "q100 = p100 + (if b then 1 else 0)"
      "q400 = p400 + (if c then 1 else 0)" "c \<Longrightarrow> b" "b \<Longrightarrow> a"
    for q4 q100 q400 p4 p100 p400 :: int and a b c
    using that by (cases a; cases b; cases c) auto
  have one: "1 < (4 :: int)" "1 < (100 :: int)" "1 < (400 :: int)" by simp_all
  show ?thesis
    unfolding leaps_upto_def leap_year_def
    by (rule pick [OF div_step [OF one(1)] div_step [OF one(2)] div_step [OF one(3)] nested])
qed

lemma new_year_step: "new_year (y + 1) = new_year y + 365 + (if leap_year y then 1 else 0)"
  using leaps_step [of y] by (simp add: new_year_def)

lemma month_cases:
  assumes "1 \<le> m" and "m \<le> (12 :: int)"
  shows "m = 1 \<or> m = 2 \<or> m = 3 \<or> m = 4 \<or> m = 5 \<or> m = 6 \<or> m = 7 \<or> m = 8 \<or> m = 9 \<or> m = 10 \<or> m = 11 \<or> m = 12"
proof -
  from assms have "m \<in> {1..12}" by simp
  then show ?thesis by (simp add: simp_from_to)
qed

lemma month_table:
  "month_start y 1 = 0" "month_start y 2 = 31"
  "month_start y 3 = 59 + of_bool (leap_year y)" "month_start y 4 = 90 + of_bool (leap_year y)"
  "month_start y 5 = 120 + of_bool (leap_year y)" "month_start y 6 = 151 + of_bool (leap_year y)"
  "month_start y 7 = 181 + of_bool (leap_year y)" "month_start y 8 = 212 + of_bool (leap_year y)"
  "month_start y 9 = 243 + of_bool (leap_year y)" "month_start y 10 = 273 + of_bool (leap_year y)"
  "month_start y 11 = 304 + of_bool (leap_year y)" "month_start y 12 = 334 + of_bool (leap_year y)"
  by (simp_all add: month_start_def)

lemma month_step:
  assumes "1 \<le> m" and "m < 12"
  shows "month_start y (m + 1) = month_start y m + month_length y m"
  using month_cases [OF assms(1) order.strict_implies_order [OF assms(2)]] assms(2)
  by (elim disjE) (simp_all add: month_table month_length_def)

lemma month_bounds:
  assumes "1 \<le> m" and "m \<le> 12"
  shows "0 \<le> month_start y m"
    and "month_start y m + month_length y m \<le> 365 + (if leap_year y then 1 else 0)"
    and "m = 12 \<Longrightarrow> month_start y m + month_length y m = 365 + (if leap_year y then 1 else 0)"
proof -
  note cases = month_cases [OF assms]
  show "0 \<le> month_start y m" using cases by (elim disjE) (simp_all add: month_table)
  show "month_start y m + month_length y m \<le> 365 + (if leap_year y then 1 else 0)"
    using cases by (elim disjE) (simp_all add: month_table month_length_def)
  show "m = 12 \<Longrightarrow> month_start y m + month_length y m = 365 + (if leap_year y then 1 else 0)"
    by (simp add: month_table month_length_def)
qed

lemma month_length_pos: "1 \<le> month_length y m"
  by (simp add: month_length_def)

lemma next_day_number: "valid_date c \<Longrightarrow> valid_date (next_day c) \<and> day_number (next_day c) = day_number c + 1"
proof (cases c)
  case (fields y m d)
  assume ok: "valid_date c"
  then have m: "1 \<le> m" "m \<le> 12" and d: "1 \<le> d" "d \<le> month_length y m"
    by (auto simp: fields valid_date_def)
  consider "d < month_length y m" | "d = month_length y m" "m < 12" | "d = month_length y m" "m = 12"
    using m d by linarith
  then show ?thesis
  proof cases
    case 1
    then show ?thesis using m d by (simp add: fields valid_date_def)
  next
    case 2
    then show ?thesis using m month_step [of m y] month_length_pos
      by (simp add: fields valid_date_def)
  next
    case 3
    have "month_start (y + 1) 1 = 0" by (simp add: month_start_def)
    then show ?thesis
      using 3 month_bounds(3) [OF m] new_year_step [of y] month_length_pos by (simp add: fields valid_date_def)
  qed
qed

text \<open>A day number belongs to one date.\<close>

lemma new_year_less: "y < y' \<Longrightarrow> new_year y + 365 + (if leap_year y then 1 else 0) \<le> new_year y'"
proof -
  have "new_year (y + 1) \<le> new_year (y + 1 + int n)" for n
  proof (induction n)
    case (Suc n)
    have "new_year (y + 1 + int (Suc n)) = new_year ((y + 1 + int n) + 1)" by (simp add: algebra_simps)
    with Suc new_year_step [of "y + 1 + int n"] show ?case by simp
  qed simp
  from this [of "nat (y' - (y + 1))"] show "y < y' \<Longrightarrow> ?thesis"
    using new_year_step [of y] by simp
qed

lemma month_start_less:
  assumes "1 \<le> m" "m < m'" "m' \<le> 12"
  shows "month_start y m + month_length y m \<le> month_start y m'"
proof -
  have "m + 1 + int n \<le> 12 \<Longrightarrow> month_start y (m + 1) \<le> month_start y (m + 1 + int n)" for n
  proof (induction n)
    case (Suc n)
    then show ?case
      using month_step [of "m + 1 + int n" y] month_length_pos [of y "m + 1 + int n"] assms(1)
      by (simp add: algebra_simps)
  qed simp
  from this [of "nat (m' - (m + 1))"] show ?thesis using month_step [of m y] assms by simp
qed

lemma day_number_inj:
  assumes "valid_date c" and "valid_date c'" and "day_number c = day_number c'"
  shows "c = c'"
proof -
  obtain y m d y' m' d' where c: "c = (y, m, d)" "c' = (y', m', d')" by (metis prod_cases3)
  have v: "1 \<le> m" "m \<le> 12" "1 \<le> d" "d \<le> month_length y m" "1 \<le> m'" "m' \<le> 12" "1 \<le> d'" "d' \<le> month_length y' m'"
    using assms by (auto simp: c valid_date_def)
  have eq: "new_year y + month_start y m + d = new_year y' + month_start y' m' + d'"
    using assms(3) by (simp add: c)
  have "\<not> y < y'" and "\<not> y' < y"
    using new_year_less [of y y'] new_year_less [of y' y] month_bounds(1,2) [of m y] month_bounds(1,2) [of m' y'] v eq
    by linarith+
  then have y: "y = y'" by simp
  have "\<not> m < m'" and "\<not> m' < m"
    using month_start_less [of m m' y] month_start_less [of m' m y] v eq y by force+
  with y eq show ?thesis by (simp add: c)
qed


section \<open>The algorithm\<close>

text \<open>The first day of a year inside its 400-year era, counted from the first of March.\<close>

definition era_day :: "int \<Rightarrow> int" where
  "era_day y = 365 * y + y div 4 - y div 100"

text \<open>The numerator of the year of era.\<close>

definition leapless :: "int \<Rightarrow> int" where
  "leapless n = n - n div 1460 + n div 36524 - n div 146096"

lemma minus_div_mono:
  assumes "1 < (c :: int)" and "n \<le> k"
  shows "n - n div c \<le> k - k div c"
proof -
  have "n - n div c \<le> (n + int j) - (n + int j) div c" for j
  proof (induction j)
    case (Suc j)
    then show ?case using div_step [OF assms(1), of "n + int (Suc j)"] by (simp add: algebra_simps split: if_splits)
  qed simp
  from this [of "nat (k - n)"] show ?thesis using assms(2) by simp
qed

lemma leapless_last: "leapless 146096 = 145999" "leapless 146095 = 145998"
  by (simp_all add: leapless_def)

lemma leapless_mono:
  assumes "0 \<le> n" "n \<le> k" "k < 146097"
  shows "leapless n \<le> leapless k"
proof -
  have below: "leapless i \<le> leapless j" if "0 \<le> i" "i \<le> j" "j < 146096" for i j
  proof -
    have add: "a \<le> b \<Longrightarrow> c \<le> d \<Longrightarrow> a + c - 0 \<le> b + d - 0" for a b c d :: int by simp
    have "i div 146096 = 0" "j div 146096 = 0" using that by (auto intro!: div_pos_pos_trivial)
    then show ?thesis
      unfolding leapless_def by (simp only:) (intro add minus_div_mono zdiv_mono1 that(2), simp_all)
  qed
  show ?thesis
  proof (cases "k = 146096")
    case True
    then have "n = k \<or> leapless n \<le> leapless 146095" using below [of n 146095] assms by fastforce
    with True show ?thesis by (auto simp: leapless_last)
  next
    case False
    with assms below show ?thesis by simp
  qed
qed

text \<open>The year of era computed from a day of era.\<close>

definition year_bounds :: "int \<Rightarrow> bool" where
  "year_bounds y \<longleftrightarrow>
    365 * y \<le> leapless (era_day y) \<and> (y = 0 \<or> leapless (era_day y - 1) < 365 * y) \<and>
    0 \<le> era_day y \<and> era_day y < 146097 \<and>
    (y < 399 \<longrightarrow> era_day (y + 1) - era_day y = (if leap_year (y + 1) then 366 else 365))"

lemma year_bounds_all: "list_all year_bounds (map int [0..<400])"
  by code_simp

lemma year_bounds: "0 \<le> y \<Longrightarrow> y < 400 \<Longrightarrow> year_bounds y"
proof -
  assume "0 \<le> y" "y < 400"
  then have "y = int (nat y)" "nat y \<in> set [0..<400]" by auto
  then have "y \<in> set (map int [0..<400])" by (metis imageI set_map)
  with year_bounds_all show ?thesis by (simp only: list_all_iff)
qed

lemma year_of_era:
  assumes "0 \<le> n" and "n < 146097" and y: "y = leapless n div 365"
  shows "0 \<le> y" "y < 400" "era_day y \<le> n" "n - era_day y < 365 + (if leap_year (y + 1) then 1 else 0)"
proof -
  have "leapless 0 = 0" by (simp add: leapless_def)
  then have "0 \<le> leapless n" using leapless_mono [of 0 n] assms by simp
  moreover have up: "leapless n \<le> 145999" using leapless_mono [of n 146096] assms leapless_last by simp
  moreover have b: "365 * y \<le> leapless n" "leapless n < 365 * y + 365" using y by simp_all
  ultimately show r: "0 \<le> y" "y < 400" using y by (simp, linarith)
  note yb = year_bounds [OF r]
  show le: "era_day y \<le> n"
  proof (rule ccontr)
    assume "\<not> era_day y \<le> n"
    then have "y \<noteq> 0" "n \<le> era_day y - 1" using assms(1) by (auto simp: era_day_def)
    then have "leapless n \<le> leapless (era_day y - 1)" "leapless (era_day y - 1) < 365 * y"
      using leapless_mono [of n "era_day y - 1"] yb assms(1) by (auto simp: year_bounds_def)
    with b(1) show False by simp
  qed
  show "n - era_day y < 365 + (if leap_year (y + 1) then 1 else 0)"
  proof (cases "y = 399")
    case True
    have "era_day 399 = 145731" "leap_year 400" by (simp_all add: era_day_def leap_year_def)
    with True show ?thesis using assms(2) by simp
  next
    case False
    then have r': "0 \<le> y + 1" "y + 1 < 400" using r by auto
    have "n < era_day (y + 1)"
    proof (rule ccontr)
      assume "\<not> n < era_day (y + 1)"
      then have "leapless (era_day (y + 1)) \<le> leapless n"
        using leapless_mono [of "era_day (y + 1)" n] year_bounds [OF r'] assms(2) by (simp add: year_bounds_def)
      with b(2) year_bounds [OF r'] show False by (simp add: year_bounds_def)
    qed
    then show ?thesis using yb False r by (simp add: year_bounds_def split: if_splits)
  qed
qed

text \<open>The month and the day inside a year that starts in March.\<close>

definition march_month :: "int \<Rightarrow> int" where
  "march_month doy = (let mp = (5 * doy + 2) div 153 in if mp < 10 then mp + 3 else mp - 9)"

definition march_day :: "int \<Rightarrow> int" where
  "march_day doy = doy - (153 * ((5 * doy + 2) div 153) + 2) div 5 + 1"

definition march_ok :: "int \<Rightarrow> bool" where
  "march_ok doy \<longleftrightarrow> (let m = march_month doy; d = march_day doy in
    1 \<le> m \<and> m \<le> 12 \<and> 1 \<le> d \<and> d \<le> month_length 4 m \<and> (doy < 365 \<longrightarrow> d \<le> month_length 1 m) \<and>
    month_start 1 m + d - 1 = (if m \<le> 2 then doy - 306 else doy + 59) \<and>
    (153 * ((5 * doy + 2) div 153) + 2) div 5 \<le> doy \<and>
    0 \<le> (5 * doy + 2) div 153 \<and> (5 * doy + 2) div 153 \<le> 11)"

lemma march_ok_all: "list_all march_ok (map int [0..<366])"
  by code_simp

lemma march_ok: "0 \<le> doy \<Longrightarrow> doy < 366 \<Longrightarrow> march_ok doy"
proof -
  assume "0 \<le> doy" "doy < 366"
  then have "doy = int (nat doy)" "nat doy \<in> set [0..<366]" by auto
  then have "doy \<in> set (map int [0..<366])" by (metis imageI set_map)
  with march_ok_all show ?thesis by (simp only: list_all_iff)
qed

lemma month_length_any: "m \<noteq> 2 \<Longrightarrow> month_length y m = month_length 1 m"
  "leap_year y \<Longrightarrow> month_length y m = month_length 4 m"
  "\<not> leap_year y \<Longrightarrow> month_length y m = month_length 1 m"
proof -
  have "leap_year 4" "\<not> leap_year 1" by (simp_all add: leap_year_def)
  then show "m \<noteq> 2 \<Longrightarrow> month_length y m = month_length 1 m"
    "leap_year y \<Longrightarrow> month_length y m = month_length 4 m"
    "\<not> leap_year y \<Longrightarrow> month_length y m = month_length 1 m"
    by (simp_all add: month_length_def)
qed

lemma month_start_any: "month_start y m = month_start 1 m + (if 2 < m \<and> leap_year y then 1 else 0)"
  by (simp add: month_start_def leap_year_def)

lemma leaps_era: "0 \<le> y \<Longrightarrow> y < 400 \<Longrightarrow> leaps_upto (y + 400 * e) = 97 * e + y div 4 - y div 100"
proof -
  assume y: "0 \<le> y" "y < 400"
  have "(y + 400 * e) div 4 = y div 4 + 100 * e" "(y + 400 * e) div 100 = y div 100 + 4 * e"
    using div_mult_self2 [of 4 y "100 * e"] div_mult_self2 [of 100 y "4 * e"] by simp_all
  moreover have "(y + 400 * e) div 400 = e" using y by simp
  ultimately show ?thesis by (simp add: leaps_upto_def)
qed

lemma leap_year_era: "leap_year (y + 400 * e) = leap_year y"
proof -
  have "(y + 400 * e) mod 4 = y mod 4" "(y + 400 * e) mod 100 = y mod 100"
    using mod_mult_self2 [of y 4 "100 * e"] mod_mult_self2 [of y 100 "4 * e"] by simp_all
  then show ?thesis by (simp add: leap_year_def)
qed

text \<open>The date of a day, as the algorithm computes it.\<close>

definition hinnant :: "int \<Rightarrow> int \<times> int \<times> int" where
  "hinnant days =
    (let z = days + 719468; doe = z mod 146097; yoe = leapless doe div 365;
         doy = doe - era_day yoe; m = march_month doy; year = yoe + 400 * (z div 146097)
     in (if m \<le> 2 then year + 1 else year, m, march_day doy))"

lemma hinnant_date: "valid_date (hinnant days) \<and> day_number (hinnant days) = days"
proof -
  define z where "z = days + 719468"
  define doe where "doe = z mod 146097"
  define e where "e = z div 146097"
  define y where "y = leapless doe div 365"
  define doy where "doy = doe - era_day y"
  have z: "z = 146097 * e + doe" by (simp add: e_def doe_def)
  have "0 \<le> doe" "doe < 146097" by (simp_all add: doe_def)
  note yr = year_of_era [OF this y_def]
  have doy: "0 \<le> doy" "doy < 366" "doy < 365 \<or> leap_year (y + 1)"
    using yr(3,4) by (auto simp: doy_def split: if_splits)
  define m where "m = march_month doy"
  define d where "d = march_day doy"
  note ok = march_ok [OF doy(1,2), unfolded march_ok_def Let_def, folded m_def d_def]
  have h: "hinnant days = (if m \<le> 2 then y + 400 * e + 1 else y + 400 * e, m, d)"
    by (simp add: hinnant_def Let_def z_def doe_def e_def y_def doy_def m_def d_def)
  have leaps: "leaps_upto (y + 400 * e) = 97 * e + y div 4 - y div 100" by (rule leaps_era [OF yr(1,2)])
  have l69: "leaps_upto 1969 = 477" by (simp add: leaps_upto_def)
  have doy_z: "days + 719468 = 146097 * e + era_day y + doy" using z by (simp add: z_def doy_def)
  show ?thesis
  proof (cases "m \<le> 2")
    case True
    have leap: "leap_year (y + 400 * e + 1) = leap_year (y + 1)"
      using leap_year_era [of "y + 1" e] by (simp add: algebra_simps)
    have "d \<le> month_length (y + 400 * e + 1) m"
      using ok doy(3) leap month_length_any(2,3) [of "y + 400 * e + 1" m] by (cases "leap_year (y + 1)") auto
    moreover have "month_start (y + 400 * e + 1) m + d - 1 = doy - 306"
      using ok True month_start_any [of "y + 400 * e + 1" m] by simp
    ultimately show ?thesis
      using ok True doy_z leaps l69 by (simp add: h valid_date_def new_year_def era_day_def)
  next
    case False
    then have "d \<le> month_length (y + 400 * e) m"
      using ok month_length_any(1) [of m] leap_year_def by (metis order.refl)
    moreover have "month_start (y + 400 * e) m + d - 1 = doy + 59 + (if leap_year (y + 400 * e) then 1 else 0)"
      using ok False month_start_any [of "y + 400 * e" m] by simp
    ultimately show ?thesis
      using ok False doy_z leaps l69 leaps_step [of "y + 400 * e"] by (simp add: h valid_date_def new_year_def era_day_def)
  qed
qed

section \<open>No intermediate value overflows\<close>

definition date_words :: "int \<times> int \<times> int \<Rightarrow> int \<times> u32 \<times> u32" where
  "date_words c = (case c of (y, m, d) \<Rightarrow> (y, word_of_int m, word_of_int d))"

lemma i64_div_nonneg: "0 \<le> a \<Longrightarrow> a < 2 ^ 63 \<Longrightarrow> 0 < b \<Longrightarrow> i64_div a b = Some (a div b)"
proof -
  assume a: "0 \<le> a" "a < 2 ^ 63" "0 < b"
  then have "0 \<le> a div b" "a div b \<le> a"
    using zdiv_mono2 [of a 1 b] by (simp_all add: pos_imp_zdiv_nonneg_iff)
  with a show ?thesis by (simp add: i64_div_def sdiv_nonneg i64_Some)
qed

lemma i64_div_to: "a div b = c \<Longrightarrow> 0 \<le> a \<Longrightarrow> a < 2 ^ 62 \<Longrightarrow> 0 < b \<Longrightarrow> i64_div a b = Some c"
  using i64_div_nonneg [of a b] by simp

text \<open>The truncating division of the adjusted dividend is the floor.\<close>

lemma floored_div:
  assumes "b > 0" and "\<bar>z\<bar> < 2 ^ 62" and "b < 2 ^ 20"
  shows "i64_div (if z \<ge> 0 then z else z - (b - 1)) b = Some (z div b)"
proof (cases "z \<ge> 0")
  case True
  then show ?thesis using assms by (simp add: i64_div_nonneg)
next
  case False
  have "(- (z - (b - 1))) div b = - (z div b)"
  proof (rule int_div_pos_eq)
    show "- (z - (b - 1)) = b * (- (z div b)) + (b - 1 - z mod b)"
      using mult_div_mod_eq [of b z] by (simp add: algebra_simps)
  qed (use assms pos_mod_sign [of b z] pos_mod_bound [of b z] in linarith)+
  moreover have "- (z div b) \<ge> 0" using False assms by (simp add: div_nonpos_pos_le0)
  moreover have "- (z div b) \<le> - z"
    using zdiv_mono2_neg [of z 1 b] False assms by simp
  ultimately show ?thesis using False assms by (simp add: i64_div_def sdiv_neg i64_Some)
qed

lemma i64_small: "\<bar>x\<bar> < 2 ^ 63 \<Longrightarrow> i64 x = Some x"
  by (simp add: i64_def abs_less_iff)

text \<open>The era of a shifted day number, by the flooring division of the source.\<close>

lemma era_steps:
  assumes "\<bar>z\<bar> < 2 ^ 62"
  shows "(if 0 \<le> z then Some z else i64_sub z 146096) = Some (if z \<ge> 0 then z else z - 146096)"
    and "i64_div (if z \<ge> 0 then z else z - 146096) 146097 = Some (z div 146097)"
    and "i64_mul (z div 146097) 146097 = Some (z div 146097 * 146097)"
    and "i64_sub z (z div 146097 * 146097) = Some (z mod 146097)"
proof -
  have doe: "0 \<le> z mod 146097" "z mod 146097 < 146097" by simp_all
  have start: "z div 146097 * 146097 = z - z mod 146097" by (simp add: minus_mod_eq_div_mult)
  have "\<bar>z - z mod 146097\<bar> < 2 ^ 63" "\<bar>z mod 146097\<bar> < 2 ^ 63" using assms doe by simp_all
  note near = this [THEN i64_small]
  have len: "(146097 :: int) - 1 = 146096" by simp
  have "i64_div (if z \<ge> 0 then z else z - (146097 - 1)) 146097 = Some (z div 146097)"
    by (rule floored_div) (use assms in simp_all)
  then show "i64_div (if z \<ge> 0 then z else z - 146096) 146097 = Some (z div 146097)" by (simp only: len)
  show "(if 0 \<le> z then Some z else i64_sub z 146096) = Some (if z \<ge> 0 then z else z - 146096)"
    "i64_mul (z div 146097) 146097 = Some (z div 146097 * 146097)"
    "i64_sub z (z div 146097 * 146097) = Some (z mod 146097)"
    unfolding start i64_mul_def i64_sub_def using assms near by (simp_all add: abs_less_iff i64_small)
qed

lemma div_between: "0 \<le> x \<Longrightarrow> 0 < d \<Longrightarrow> 0 \<le> x div d \<and> x div d \<le> (x :: int)"
  using zdiv_mono2 [of x 1 d] by (simp add: pos_imp_zdiv_nonneg_iff)

lemma civil_hinnant:
  assumes "- (2 ^ 61) \<le> days" and "days < 2 ^ 61"
  shows "civil_from_days days = Some (date_words (hinnant days))"
proof -
  define z where "z = days + 719468"
  define doe where "doe = z mod 146097"
  define e where "e = z div 146097"
  define y where "y = leapless doe div 365"
  define doy where "doy = doe - era_day y"
  define mp where "mp = (5 * doy + 2) div 153"
  define m where "m = march_month doy"
  have z: "z = 146097 * e + doe" by (simp add: e_def doe_def)
  have doe: "0 \<le> doe" "doe < 146097" by (simp_all add: doe_def)
  note yr = year_of_era [OF doe y_def]
  have doy: "0 \<le> doy" "doy < 366" using yr(3,4) by (auto simp: doy_def split: if_splits)
  have mp: "0 \<le> mp" "mp \<le> 11" and d: "(153 * mp + 2) div 5 \<le> doy" and m12: "1 \<le> m" "m \<le> 12"
    using march_ok [OF doy] by (simp_all add: march_ok_def Let_def mp_def m_def)
  have zb: "\<bar>z\<bar> < 2 ^ 62" using assms by (simp add: z_def)
  have eb: "\<bar>e\<bar> < 2 ^ 46" using z zb doe by (simp add: abs_less_iff)
  define k h f where "k = doe div 1460" and "h = doe div 36524" and "f = doe div 146096"
  have parts: "0 \<le> k" "k \<le> doe" "0 \<le> h" "h \<le> doe" "0 \<le> f" "f \<le> doe"
    using div_between [OF doe(1)] by (simp_all add: k_def h_def f_def)
  have ll: "leapless doe = doe - k + h - f" by (simp add: leapless_def k_def h_def f_def)
  have llb: "0 \<le> doe - k + h - f" "doe - k + h - f < 2 ^ 20"
    using yr(1) doe parts by (auto simp: y_def ll pos_imp_zdiv_nonneg_iff)
  define y4 y100 where "y4 = y div 4" and "y100 = y div 100"
  have yd: "0 \<le> y4" "y4 \<le> y" "0 \<le> y100" "y100 \<le> y"
    using div_between [OF yr(1)] by (simp_all add: y4_def y100_def)
  have doy_eq: "doy = doe - (365 * y + y4 - y100)" by (simp add: doy_def era_day_def y4_def y100_def)
  define q where "q = (153 * mp + 2) div 5"
  have q: "0 \<le> q" "q \<le> doy" using d mp by (simp_all add: q_def pos_imp_zdiv_nonneg_iff)
  note era = era_steps [OF zb, folded e_def doe_def]
  have divs: "i64_div doe 1460 = Some k" "i64_div doe 36524 = Some h" "i64_div doe 146096 = Some f"
    "i64_div (doe - k + h - f) 365 = Some y" "i64_div y 4 = Some y4" "i64_div y 100 = Some y100"
    "i64_div (5 * doy + 2) 153 = Some mp" "i64_div (153 * mp + 2) 5 = Some q"
    by (rule i64_div_to [OF k_def [symmetric]] i64_div_to [OF h_def [symmetric]]
        i64_div_to [OF f_def [symmetric]] i64_div_to [OF y_def [unfolded ll, symmetric]]
        i64_div_to [OF y4_def [symmetric]] i64_div_to [OF y100_def [symmetric]]
        i64_div_to [OF mp_def [symmetric]] i64_div_to [OF q_def [symmetric]];
      use doe yr(1,2) doy mp(1) mp(2) llb in simp)+
  have steps: "i64_add days 719468 = Some z" "i64_sub 146097 1 = Some 146096"
    "i64_sub doe k = Some (doe - k)" "i64_add (doe - k) h = Some (doe - k + h)"
    "i64_sub (doe - k + h) f = Some (doe - k + h - f)"
    "i64_mul e 400 = Some (e * 400)" "i64_add y (e * 400) = Some (y + e * 400)"
    "i64_mul 365 y = Some (365 * y)" "i64_add (365 * y) y4 = Some (365 * y + y4)"
    "i64_sub (365 * y + y4) y100 = Some (365 * y + y4 - y100)"
    "i64_sub doe (365 * y + y4 - y100) = Some doy"
    "i64_mul 5 doy = Some (5 * doy)" "i64_add (5 * doy) 2 = Some (5 * doy + 2)"
    "i64_mul 153 mp = Some (153 * mp)" "i64_add (153 * mp) 2 = Some (153 * mp + 2)"
    "i64_sub doy q = Some (doy - q)" "i64_add (doy - q) 1 = Some (doy - q + 1)"
    "i64_add (y + e * 400) 1 = Some (y + e * 400 + 1)"
    using zb eb doe parts llb yr(1,2) yd doy mp q doy_eq
    by (auto simp: i64_ops z_def [symmetric] abs_less_iff intro!: i64_small)
  have mon: "(if mp < 10 then i64_add mp 3 else i64_sub mp 9) = Some m"
    using mp by (simp add: m_def march_month_def mp_def [symmetric] Let_def i64_ops i64_small)
  have small: "(word_of_int m :: u32) \<le> 2 \<longleftrightarrow> m \<le> 2"
    using month_cases [OF m12] by (elim disjE) simp_all
  have res: "hinnant days = (if m \<le> 2 then y + e * 400 + 1 else y + e * 400, m, doy - q + 1)"
    unfolding hinnant_def Let_def z_def [symmetric] doe_def [symmetric] e_def [symmetric] y_def [symmetric]
      doy_def [symmetric] m_def [symmetric] march_day_def mp_def [symmetric] q_def [symmetric] by simp
  show ?thesis
    unfolding civil_from_days_def calendar_consts res date_words_def
    by (simp only: steps mon divs era Option.bind.simps Let_def small prod.case split: if_split) simp
qed

text \<open>The conversion undoes the numbering of days.\<close>

lemma civil_of_day_number:
  assumes "valid_date c" and "- (2 ^ 61) \<le> day_number c" and "day_number c < 2 ^ 61"
  shows "civil_from_days (day_number c) = Some (date_words c)"
  using civil_hinnant [OF assms(2,3)] day_number_inj [OF assms(1)] hinnant_date [of "day_number c"] by metis

lemma calendar_day:
  "valid_date ((next_day ^^ n) (1970, 1, 1)) \<and> day_number ((next_day ^^ n) (1970, 1, 1)) = int n"
proof (induction n)
  case 0
  show ?case by (simp add: valid_date_def new_year_def leaps_upto_def month_start_def month_length_def)
next
  case (Suc n)
  then show ?case using next_day_number [of "(next_day ^^ n) (1970, 1, 1)"] by simp
qed

lemma civil_calendar:
  "n < 2 ^ 61 \<Longrightarrow> civil_from_days (int n) = Some (date_words ((next_day ^^ n) (1970, 1, 1)))"
  using civil_of_day_number [of "(next_day ^^ n) (1970, 1, 1)"] calendar_day [of n] by simp

section \<open>Properties\<close>

text \<open>C25: The conversion of a day number agrees with the Gregorian calendar, counted one day at a time
  from the first of January 1970, for every day number below \<open>2^61\<close>; no intermediate \<open>i64\<close> value
  overflows.\<close>

theorem civil_from_days_counts:
  assumes "n < 2 ^ 61"
  shows "civil_from_days (int n) =
    Some (case (next_day ^^ n) (1970, 1, 1) of (y, m, d) \<Rightarrow> (y, word_of_int m, word_of_int d))"
  using civil_calendar [OF assms] by (simp add: date_words_def)

theorem civil_from_days_counts_witness:
  "civil_from_days (int 789) = Some (1972, 2, 29)"
proof -
  have "(next_day ^^ 789) (1970, 1, 1) = (1972, 2, 29)" by code_simp
  then show ?thesis using civil_from_days_counts [of 789] by simp
qed

text \<open>The date stamped on a new specification is the calendar's date of the day the clock is in, for
  every value of the clock; a clock before the epoch counts as the epoch.\<close>

theorem today_is_the_day_of_the_clock:
  "today_utc_ymd clock = Some (case (next_day ^^ ((case clock of Some s \<Rightarrow> unat s | None \<Rightarrow> 0) div 86400)) (1970, 1, 1) of
    (y, m, d) \<Rightarrow> show_padded 4 y @ ''-'' @ show_padded 2 m @ ''-'' @ show_padded 2 d)"
proof -
  define n where "n = (case clock of Some s \<Rightarrow> unat s | None \<Rightarrow> 0) div 86400"
  have "(case clock of Some s \<Rightarrow> unat s | None \<Rightarrow> 0) < 2 ^ 64"
  proof (cases clock)
    case (Some s)
    then show ?thesis using unsigned_less [of s] by (simp add: less_le_trans)
  qed simp
  then have "n < 2 ^ 61" by (simp add: n_def)
  note civil = civil_calendar [OF this]
  obtain y m d where c: "(next_day ^^ n) (1970, 1, 1) = (y, m, d)" by (metis prod_cases3)
  have v: "1 \<le> m" "m \<le> 12" "1 \<le> d" "d \<le> 31"
    using calendar_day [of n] month_length_def [of y m]
    by (auto simp: c valid_date_def split: if_splits)
  then have "uint (word_of_int m :: u32) = m" "uint (word_of_int d :: u32) = d"
    by (simp_all add: uint_word_of_int_eq take_bit_int_eq_self)
  with civil show ?thesis
    unfolding today_utc_ymd_def SECS_PER_DAY_def n_def [symmetric] Let_def
    by (simp add: c date_words_def)
qed

end
