(* ===== verification/Task_Host.thy ===== *)
theory Task_Host
  imports Rust_Text
begin

text \<open>
  The surroundings of the build tasks and the wrapper of \<open>src/xtask/src/process.rs\<close>.  What a task does
  to its surroundings is a list of events; the surroundings are a parameter, the record \<open>host\<close>, that
  answers every request from the events so far: what a command prints and how it ends, what a file
  holds, which entries a directory has.  Diagnostic output is not modelled.
\<close>

section \<open>Events and answers\<close>

type_synonym path = bytes
type_synonym command = "bytes \<times> bytes list"

datatype event =
    Ran command
  | Wrote path bytes
  | Made_Dir path

type_synonym trace = "event list"

text \<open>How a child process ended: with an exit code, or by a signal.\<close>

datatype exit_status = Exit_Code int | Signalled

record proc_output =
  out_status :: exit_status
  out_stdout :: bytes
  out_stderr :: bytes

text \<open>A directory entry: its file name and whether its path is a directory.\<close>

type_synonym dir_entry = "bytes \<times> bool"

text \<open>The values of \<open>serde_json\<close>.\<close>

datatype json =
    J_Null
  | J_Bool bool
  | J_Number bytes
  | J_String bytes
  | J_Array "json list"
  | J_Object "(bytes \<times> json) list"

record host =
  hs_run :: "trace \<Rightarrow> command \<Rightarrow> proc_output option"
  hs_read :: "trace \<Rightarrow> path \<Rightarrow> bytes option"
  hs_write :: "trace \<Rightarrow> path \<Rightarrow> bytes \<Rightarrow> bool"
  hs_mkdir :: "trace \<Rightarrow> path \<Rightarrow> bool"
  hs_exists :: "trace \<Rightarrow> path \<Rightarrow> bool"
  hs_dir :: "trace \<Rightarrow> path \<Rightarrow> dir_entry option list option"
  hs_cwd_name :: "bytes option option"
  hs_json :: "bytes \<Rightarrow> json option"
  hs_clock :: "u64 option"

section \<open>Errors\<close>

text \<open>The contradictions that the documentation check collects.\<close>

datatype doc_error =
    Gold_Consts_Disagree nat nat
  | Corpus_Count_Wrong nat nat
  | Scope_Consts_Disagree nat nat nat
  | Scope_Total_Drifted nat nat
  | Ghost_Modules "bytes set"
  | Omitted_Modules "bytes set"
  | Allowlist_Contradicted path "bytes list"
  | Gold_Ratio_Wrong path nat
  | Engine_Not_Cited bytes
  | Sort_Count_Not_Cited nat
  | Map_Count_Not_Cited path nat

text \<open>One constructor per failure the tasks report; \<open>With_Context\<close> is \<open>anyhow\<close>'s attachment of one
  error to another, \<open>Panicked\<close> a panic.\<close>

datatype task_error =
    Spawn_Failed bytes
  | Exited bytes int bytes
  | Killed bytes bytes
  | Not_Utf8 bytes
  | Read_Failed path
  | Write_Failed path
  | Mkdir_Failed path
  | Bad_Json
  | No_Packages
  | No_Cwd
  | No_Const bytes path
  | No_Module_Tree path
  | Usage bytes
  | Bad_Name
  | Spec_Exists path
  | Unknown_Overrides "bytes list"
  | Disallowed_Deps "bytes list"
  | Leaked_Files "bytes list"
  | Api_Drift "bytes list"
  | Doc_Drift "doc_error list"
  | With_Context task_error task_error
  | Panicked

type_synonym 'a outcome = "(task_error + 'a) \<times> trace"

text \<open>Sequencing with early return, the operator \<open>?\<close>.\<close>

definition and_then :: "'a outcome \<Rightarrow> ('a \<Rightarrow> trace \<Rightarrow> 'b outcome) \<Rightarrow> 'b outcome" where
  "and_then r k = (case r of (Inl e, tr) \<Rightarrow> (Inl e, tr) | (Inr x, tr) \<Rightarrow> k x tr)"

lemma and_then_simps [simp]:
  "and_then (Inl e, tr) k = (Inl e, tr)"
  "and_then (Inr x, tr) k = k x tr"
  by (simp_all add: and_then_def)

lemma and_then_Inr_iff: "and_then r k = (Inr y, tr') \<longleftrightarrow> (\<exists>x tr. r = (Inr x, tr) \<and> k x tr = (Inr y, tr'))"
  by (auto simp: and_then_def split: prod.splits sum.splits)

definition task_ok :: "'a outcome \<Rightarrow> bool" where
  "task_ok r \<longleftrightarrow> \<not> isl (fst r)"

section \<open>Running commands\<close>

definition run :: "host \<Rightarrow> bytes \<Rightarrow> bytes list \<Rightarrow> trace \<Rightarrow> unit outcome" where
  "run h program args tr =
    (case hs_run h tr (program, args) of
       None \<Rightarrow> (Inl (Spawn_Failed program), tr @ [Ran (program, args)])
     | Some out \<Rightarrow>
         (case out_status out of
            Exit_Code code \<Rightarrow>
              if code = 0 then Inr () else Inl (Exited program code [])
          | Signalled \<Rightarrow> Inl (Killed program []),
          tr @ [Ran (program, args)]))"

definition run_stdout :: "host \<Rightarrow> bytes \<Rightarrow> bytes list \<Rightarrow> trace \<Rightarrow> bytes outcome" where
  "run_stdout h program args tr =
    (case hs_run h tr (program, args) of
       None \<Rightarrow> (Inl (Spawn_Failed program), tr @ [Ran (program, args)])
     | Some out \<Rightarrow>
         (case out_status out of
            Exit_Code code \<Rightarrow>
              if code \<noteq> 0 then Inl (Exited program code (out_stderr out))
              else if utf8_valid (out_stdout out) then Inr (out_stdout out)
              else Inl (Not_Utf8 program)
          | Signalled \<Rightarrow> Inl (Killed program (out_stderr out)),
          tr @ [Ran (program, args)]))"

fun run_cargo_steps :: "host \<Rightarrow> bytes list list \<Rightarrow> trace \<Rightarrow> unit outcome" where
  "run_cargo_steps h [] tr = (Inr (), tr)"
| "run_cargo_steps h (step # steps) tr =
    and_then (run h ''cargo'' step tr) (\<lambda>_ tr'. run_cargo_steps h steps tr')"

definition read_to_string :: "host \<Rightarrow> path \<Rightarrow> trace \<Rightarrow> bytes outcome" where
  "read_to_string h p tr = (case hs_read h tr p of Some s \<Rightarrow> Inr s | None \<Rightarrow> Inl (Read_Failed p), tr)"

definition write_file :: "host \<Rightarrow> path \<Rightarrow> bytes \<Rightarrow> trace \<Rightarrow> unit outcome" where
  "write_file h p text tr =
    (if hs_write h tr p text then Inr () else Inl (Write_Failed p), tr @ [Wrote p text])"

definition create_dir_all :: "host \<Rightarrow> path \<Rightarrow> trace \<Rightarrow> unit outcome" where
  "create_dir_all h p tr = (if hs_mkdir h tr p then Inr () else Inl (Mkdir_Failed p), tr @ [Made_Dir p])"

section \<open>Laws\<close>

text \<open>A command succeeded after the given events.\<close>

definition succeeds :: "host \<Rightarrow> trace \<Rightarrow> command \<Rightarrow> bool" where
  "succeeds h tr c \<longleftrightarrow> (\<exists>out. hs_run h tr c = Some out \<and> out_status out = Exit_Code 0)"

lemma run_trace [simp]: "snd (run h p args tr) = tr @ [Ran (p, args)]"
  by (simp add: run_def split: option.splits)

lemma run_stdout_trace [simp]: "snd (run_stdout h p args tr) = tr @ [Ran (p, args)]"
  by (simp add: run_stdout_def split: option.splits)

lemma run_ok_iff: "task_ok (run h p args tr) \<longleftrightarrow> succeeds h tr (p, args)"
  by (auto simp: run_def task_ok_def succeeds_def split: option.splits exit_status.splits)

lemma read_trace [simp]: "snd (read_to_string h p tr) = tr"
  by (simp add: read_to_string_def)

lemma task_ok_run_stdout: "task_ok (run_stdout h p args tr) \<Longrightarrow> succeeds h tr (p, args)"
  by (auto simp: run_stdout_def task_ok_def succeeds_def split: option.splits exit_status.splits if_splits)

lemma task_ok_and_then: "task_ok (and_then r k) \<longleftrightarrow> (\<exists>x. fst r = Inr x \<and> task_ok (k x (snd r)))"
  by (cases r; cases "fst r") (auto simp: task_ok_def)

section \<open>Fail-fast sequences\<close>

text \<open>The contract of something that runs one command: it leaves exactly one event, and a verdict on
  the command after the events so far says whether it succeeds.  A fail-fast sequence rests on
  nothing else.\<close>

locale command_runner =
  fixes exec :: "command \<Rightarrow> trace \<Rightarrow> unit outcome"
    and good :: "trace \<Rightarrow> command \<Rightarrow> bool"
  assumes exec_trace: "snd (exec c tr) = tr @ [Ran c]"
    and exec_ok: "task_ok (exec c tr) \<longleftrightarrow> good tr c"

text \<open>All commands of a list are good, each after the ones before it.\<close>

fun all_good :: "(trace \<Rightarrow> command \<Rightarrow> bool) \<Rightarrow> trace \<Rightarrow> command list \<Rightarrow> bool" where
  "all_good good tr [] = True"
| "all_good good tr (c # cs) = (good tr c \<and> all_good good (tr @ [Ran c]) cs)"

lemma all_good_append:
  "all_good good tr (cs @ ds) \<longleftrightarrow> all_good good tr cs \<and> all_good good (tr @ map Ran cs) ds"
  by (induction cs arbitrary: tr) auto

text \<open>A run of steps has run a prefix of the steps; when it failed, only its last step did.\<close>

definition ran_prefix :: "(trace \<Rightarrow> command \<Rightarrow> bool) \<Rightarrow> trace \<Rightarrow> command list \<Rightarrow> 'a outcome \<Rightarrow> bool" where
  "ran_prefix good tr cs r \<longleftrightarrow>
    (\<exists>ds. prefix ds cs \<and> snd r = tr @ map Ran ds \<and>
      (if task_ok r then ds = cs \<and> all_good good tr cs
       else ds \<noteq> [] \<and> all_good good tr (butlast ds) \<and> \<not> good (tr @ map Ran (butlast ds)) (last ds)))"

fun exec_all :: "(command \<Rightarrow> trace \<Rightarrow> unit outcome) \<Rightarrow> command list \<Rightarrow> trace \<Rightarrow> unit outcome" where
  "exec_all exec [] tr = (Inr (), tr)"
| "exec_all exec (c # cs) tr = and_then (exec c tr) (\<lambda>_ tr'. exec_all exec cs tr')"

lemma ran_prefix_Cons:
  assumes "ran_prefix good (tr @ [Ran c]) cs r" and "good tr c"
  shows "ran_prefix good tr (c # cs) r"
proof -
  from assms(1) obtain ds where ds: "prefix ds cs" "snd r = (tr @ [Ran c]) @ map Ran ds"
    "if task_ok r then ds = cs \<and> all_good good (tr @ [Ran c]) cs
     else ds \<noteq> [] \<and> all_good good (tr @ [Ran c]) (butlast ds) \<and>
       \<not> good ((tr @ [Ran c]) @ map Ran (butlast ds)) (last ds)"
    unfolding ran_prefix_def by blast
  show ?thesis
    unfolding ran_prefix_def by (rule exI [of _ "c # ds"]) (use ds assms(2) in \<open>auto split: if_splits\<close>)
qed

context command_runner
begin

lemma exec_cases:
  obtains "exec c tr = (Inr (), tr @ [Ran c])" and "good tr c"
  | e where "exec c tr = (Inl e, tr @ [Ran c])" and "\<not> good tr c"
proof (cases "fst (exec c tr)")
  case (Inl e)
  then have "exec c tr = (Inl e, tr @ [Ran c])" by (metis prod.collapse exec_trace)
  then show thesis using that(2) exec_ok [of c tr] by (simp add: task_ok_def)
next
  case (Inr u)
  then have "exec c tr = (Inr (), tr @ [Ran c])" by (metis old.unit.exhaust prod.collapse exec_trace)
  then show thesis using that(1) exec_ok [of c tr] by (simp add: task_ok_def)
qed

lemma exec_all_prefix: "ran_prefix good tr cs (exec_all exec cs tr)"
proof (induction cs arbitrary: tr)
  case Nil
  show ?case by (auto simp: ran_prefix_def task_ok_def)
next
  case (Cons c cs)
  show ?case
  proof (cases rule: exec_cases [of c tr])
    case 1
    then show ?thesis using ran_prefix_Cons [OF Cons.IH [of "tr @ [Ran c]"]] by simp
  next
    case (2 e)
    then show ?thesis by (auto simp: ran_prefix_def task_ok_def intro!: exI [of _ "[c]"])
  qed
qed

lemma exec_all_ok: "task_ok (exec_all exec cs tr) \<longleftrightarrow> all_good good tr cs"
proof (induction cs arbitrary: tr)
  case (Cons c cs)
  show ?case
    using Cons.IH [of "tr @ [Ran c]"] by (cases rule: exec_cases [of c tr]) (simp_all add: task_ok_def)
qed (simp add: task_ok_def)

end

text \<open>The wrapper keeps the contract, whatever the host answers.\<close>

interpretation tool: command_runner "\<lambda>c. run h (fst c) (snd c)" "succeeds h" for h
  by unfold_locales (simp_all add: run_ok_iff)

abbreviation all_succeed :: "host \<Rightarrow> trace \<Rightarrow> command list \<Rightarrow> bool" where
  "all_succeed h \<equiv> all_good (succeeds h)"

lemmas all_succeed_append = all_good_append

lemma run_cases:
  obtains "run h p args tr = (Inr (), tr @ [Ran (p, args)])" and "succeeds h tr (p, args)"
  | e where "run h p args tr = (Inl e, tr @ [Ran (p, args)])" and "\<not> succeeds h tr (p, args)"
  using tool.exec_cases [of h "(p, args)" tr] by auto

lemma run_cargo_steps_all:
  "run_cargo_steps h steps = exec_all (\<lambda>c. run h (fst c) (snd c)) (map (Pair ''cargo'') steps)"
proof (induction steps)
  case Nil
  show ?case by (rule ext) simp
next
  case (Cons s steps)
  show ?case by (rule ext) (simp add: Cons)
qed

lemma run_cargo_steps_prefix: "ran_prefix (succeeds h) tr (map (Pair ''cargo'') steps) (run_cargo_steps h steps tr)"
  unfolding run_cargo_steps_all by (rule tool.exec_all_prefix)

end
