(* ===== verification/Doc_Facts.thy ===== *)
theory Doc_Facts
  imports Task_Host "HOL-Library.Monad_Syntax"
begin

text \<open>
  The text scans behind the documentation check of \<open>src/xtask/src/tasks.rs\<close>: constants of Rust and
  JavaScript sources, the module tree of the architecture document, crate sets in braces, ratios on
  lines about the gold corpus, and the walk over a directory tree.  A slice inside a character is a
  panic, the value \<^term>\<open>None\<close> of the scan that can do it.
\<close>

section \<open>Constants\<close>

text \<open>The loops return at the first line that gives a value.\<close>

fun first_some :: "('a \<Rightarrow> 'b option) \<Rightarrow> 'a list \<Rightarrow> 'b option" where
  "first_some f [] = None"
| "first_some f (x # xs) = (case f x of Some y \<Rightarrow> Some y | None \<Rightarrow> first_some f xs)"

definition const_after :: "bytes \<Rightarrow> bytes \<Rightarrow> bytes option" where
  "const_after name line = do {
     rest \<leftarrow> strip_prefix ''const '' (trim_start line);
     after_name \<leftarrow> strip_prefix name (trim_start rest);
     Some (trim_start after_name)
   }"

definition usize_const_line :: "bytes \<Rightarrow> bytes \<Rightarrow> usize option" where
  "usize_const_line name line = do {
     after \<leftarrow> const_after name line;
     eq \<leftarrow> (if prefix '':'' after then str_find after ''='' else None);
     parse_usize (filter (\<lambda>c. c \<noteq> CHR ''_'')
       (takeWhile (\<lambda>c. is_ascii_digit c \<or> c = CHR ''_'') (trim_start (drop (eq + 1) after))))
   }"

definition parse_usize_const :: "bytes \<Rightarrow> bytes \<Rightarrow> usize option" where
  "parse_usize_const content name = first_some (usize_const_line name) (str_lines content)"

definition js_const_line :: "bytes \<Rightarrow> bytes \<Rightarrow> bytes option" where
  "js_const_line name line = do {
     after \<leftarrow> const_after name line;
     v \<leftarrow> strip_prefix ''='' after;
     inner \<leftarrow> strip_prefix [CHR 0x22] (trim_start v);
     stop \<leftarrow> str_find inner [CHR 0x22];
     Some (take stop inner)
   }"

definition parse_js_str_const :: "bytes \<Rightarrow> bytes \<Rightarrow> bytes option" where
  "parse_js_str_const content name = first_some (js_const_line name) (str_lines content)"

definition read_usize_const :: "host \<Rightarrow> path \<Rightarrow> bytes \<Rightarrow> trace \<Rightarrow> usize outcome" where
  "read_usize_const h src name tr =
    and_then (read_to_string h src tr) (\<lambda>content tr.
      (case parse_usize_const content name of Some n \<Rightarrow> Inr n | None \<Rightarrow> Inl (No_Const name src), tr))"

definition read_js_str_const :: "host \<Rightarrow> path \<Rightarrow> bytes \<Rightarrow> trace \<Rightarrow> bytes outcome" where
  "read_js_str_const h src name tr =
    and_then (read_to_string h src tr) (\<lambda>content tr.
      (case parse_js_str_const content name of Some v \<Rightarrow> Inr v | None \<Rightarrow> Inl (No_Const name src), tr))"

section \<open>The corpus\<close>

definition count_corpus_records :: "host \<Rightarrow> path \<Rightarrow> trace \<Rightarrow> nat outcome" where
  "count_corpus_records h p tr =
    and_then (read_to_string h p tr) (\<lambda>content tr.
      (Inr (length (filter (\<lambda>l. trim l \<noteq> []) (str_lines content))), tr))"

definition count_corpus_occurrences :: "host \<Rightarrow> path \<Rightarrow> bytes list \<Rightarrow> trace \<Rightarrow> nat outcome" where
  "count_corpus_occurrences h p needles tr =
    and_then (read_to_string h p tr) (\<lambda>content tr. (Inr (sum_list (map (count_matches content) needles)), tr))"

definition count_corpus_records_with :: "host \<Rightarrow> path \<Rightarrow> bytes \<Rightarrow> trace \<Rightarrow> nat outcome" where
  "count_corpus_records_with h p needle tr =
    and_then (read_to_string h p tr) (\<lambda>content tr.
      (Inr (length (filter (\<lambda>l. str_contains l needle) (str_lines content))), tr))"

section \<open>The module tree\<close>

definition word_byte :: "u8 \<Rightarrow> bool" where
  "word_byte b = (is_ascii_alphanumeric b \<or> b = CHR ''_'')"

text \<open>The stem before a dot.  The search for the start of the stem returns the byte after the first
  byte of the preceding character, so the slice panics when that character has several bytes.\<close>

definition stem_before :: "bytes \<Rightarrow> bytes option" where
  "stem_before text =
    (let stem = rev (takeWhile word_byte (rev text));
         before = take (length text - length stem) text
     in if before \<noteq> [] \<and> utf8_cont (last before) then None else Some stem)"

function stems_loop :: "bytes \<Rightarrow> usize \<Rightarrow> bytes list option" where
  "stems_loop line search_from =
    (case str_find (drop search_from line) ''.rs'' of
       None \<Rightarrow> Some []
     | Some rel \<Rightarrow>
         (let dot = search_from + rel
          in case stem_before (take dot line) of
               None \<Rightarrow> None
             | Some stem \<Rightarrow>
                 (let boundary = (case vec_get line (dot + 3) of None \<Rightarrow> True | Some b \<Rightarrow> \<not> word_byte b)
                  in case stems_loop line (dot + 3) of
                       None \<Rightarrow> None
                     | Some stems \<Rightarrow> Some (if stem \<noteq> [] \<and> boundary then stem # stems else stems))))"
  by auto
termination
  by (relation "measure (\<lambda>(line, search_from). length line - search_from)") (auto dest: str_find_Some)

declare stems_loop.simps [simp del]

definition rs_stems_in_line :: "bytes \<Rightarrow> bytes list option" where
  "rs_stems_in_line line = stems_loop line 0"

definition MODULE_TREE_HEADING :: bytes where
  "MODULE_TREE_HEADING = ''### 3.2 Crate layout''"

text \<open>The text of the first fence behind the heading.\<close>

definition module_tree :: "bytes \<Rightarrow> bytes option" where
  "module_tree arch_src = do {
     heading \<leftarrow> str_find arch_src MODULE_TREE_HEADING;
     let after_heading = drop heading arch_src;
     fence_open \<leftarrow> str_find after_heading ''```'';
     let body = drop (fence_open + 3) after_heading;
     fence_close \<leftarrow> str_find body ''```'';
     Some (take fence_close body)
   }"

fun stems_in_lines :: "bytes list \<Rightarrow> bytes list option" where
  "stems_in_lines [] = Some []"
| "stems_in_lines (l # ls) = do { xs \<leftarrow> rs_stems_in_line l; ys \<leftarrow> stems_in_lines ls; Some (xs @ ys) }"

definition ARCHITECTURE_DOC :: path where "ARCHITECTURE_DOC = ''docs/spec/architecture.md''"

definition module_names_in_tree :: "bytes \<Rightarrow> task_error + bytes set" where
  "module_names_in_tree arch_src =
    (case module_tree arch_src of
       None \<Rightarrow> Inl (No_Module_Tree ARCHITECTURE_DOC)
     | Some tree \<Rightarrow> (case stems_in_lines (str_lines tree) of None \<Rightarrow> Inl Panicked | Some stems \<Rightarrow> Inr (set stems)))"

section \<open>Crate sets in braces\<close>

definition BRACE_STOPWORDS :: "bytes list" where
  "BRACE_STOPWORDS = [''and'', ''the'', ''for'', ''not'', ''but'', ''with'', ''plus'']"

definition MAX_ALLOWLIST_BRACE_LEN :: usize where "MAX_ALLOWLIST_BRACE_LEN = 80"

definition set_tokens :: "bytes \<Rightarrow> bytes list" where
  "set_tokens inner =
    filter (\<lambda>t. t \<notin> set BRACE_STOPWORDS)
      (filter (\<lambda>t. 3 \<le> length t \<and> list_all (\<lambda>c. is_ascii_lowercase c \<or> c = CHR ''_'' \<or> is_ascii_digit c) t)
        (split_on (\<lambda>c. \<not> word_byte c) inner))"

text \<open>The loop on the text from the position \<open>from\<close>.\<close>

function allowlist_sets :: "bytes \<Rightarrow> bytes list list" where
  "allowlist_sets text =
    (case str_find text ''{'' of
       None \<Rightarrow> []
     | Some opened \<Rightarrow>
         (let rest = drop (opened + 1) text
          in case str_find rest ''}'' of
               None \<Rightarrow> allowlist_sets rest
             | Some closed \<Rightarrow>
                 (let inner = take closed rest
                  in if length inner \<ge> MAX_ALLOWLIST_BRACE_LEN then allowlist_sets rest
                     else if \<not> (str_contains inner ''thiserror'' \<and> str_contains inner ''serde'')
                     then allowlist_sets (drop (closed + 1) rest)
                     else if set_tokens inner = [] then allowlist_sets (drop (closed + 1) rest)
                     else set_tokens inner # allowlist_sets (drop (closed + 1) rest))))"
  by auto
termination
  by (relation "measure length") (auto dest!: str_find_Some)

declare allowlist_sets.simps [simp del]

section \<open>Ratios\<close>

definition to_ascii_lowercase :: "bytes \<Rightarrow> bytes" where
  "to_ascii_lowercase = map (\<lambda>b. if is_ascii_uppercase b then char_of (of_char b + (32 :: nat)) else b)"

definition parse_grouped :: "bytes \<Rightarrow> usize option" where
  "parse_grouped token =
    (let digits = filter is_ascii_digit token in if digits = [] then None else parse_usize digits)"

definition is_run :: "u8 \<Rightarrow> bool" where
  "is_run c \<longleftrightarrow> is_ascii_digit c \<or> c = CHR '',''"

definition ratio_at :: "bytes \<Rightarrow> bytes \<Rightarrow> usize list" where
  "ratio_at before after =
    (let l = rev (takeWhile is_run before); r = takeWhile is_run after
     in if l = [] \<or> r = [] then []
        else case (parse_grouped l, parse_grouped r) of (Some x, Some y) \<Rightarrow> [x, y] | _ \<Rightarrow> [])"

text \<open>The loop over the characters of a line; the characters before the current one are reversed.\<close>

fun line_ratios :: "bytes \<Rightarrow> bytes \<Rightarrow> usize list" where
  "line_ratios before [] = []"
| "line_ratios before (c # cs) =
    (if c = CHR ''/'' then ratio_at before cs else []) @ line_ratios (c # before) cs"

definition gold_ratio_citations :: "bytes \<Rightarrow> usize list" where
  "gold_ratio_citations text =
    concat (map (line_ratios []) (filter (\<lambda>l. str_contains (to_ascii_lowercase l) ''gold'') (str_lines text)))"

section \<open>Walking a directory tree\<close>

text \<open>\<open>Path::join\<close> of a file name.\<close>

definition join_path :: "path \<Rightarrow> bytes \<Rightarrow> path" where
  "join_path dir name = dir @ ''/'' @ name"

text \<open>Stem and extension of a file name: cut at the last dot, unless it is the first byte.\<close>

definition name_parts :: "bytes \<Rightarrow> bytes \<times> bytes option" where
  "name_parts name =
    (let ext = rev (takeWhile (\<lambda>b. b \<noteq> CHR ''.'') (rev name)); n = length name - length ext
     in if n \<le> 1 \<or> name = ''..'' then (name, None) else (take (n - 1) name, Some ext))"

text \<open>What a walk does with a file: it may fail, and it changes the accumulated result.\<close>

type_synonym 'a visitor = "path \<Rightarrow> bytes \<Rightarrow> 'a \<Rightarrow> task_error + 'a"

fun visit_entries :: "'a visitor \<Rightarrow> path \<Rightarrow> dir_entry option list \<Rightarrow> path list \<Rightarrow> 'a \<Rightarrow> task_error + path list \<times> 'a" where
  "visit_entries visit dir [] stack acc = Inr (stack, acc)"
| "visit_entries visit dir (None # es) stack acc = Inl (Read_Failed dir)"
| "visit_entries visit dir (Some (name, is_dir) # es) stack acc =
    (if is_dir then visit_entries visit dir es (vec_push stack (join_path dir name)) acc
     else case visit dir name acc of
       Inl e \<Rightarrow> Inl e
     | Inr acc' \<Rightarrow> visit_entries visit dir es stack acc')"

text \<open>The loop \<open>while let Some(dir) = stack.pop()\<close>; it need not end, when a directory reaches itself.\<close>

partial_function (option) walk_dirs ::
    "(path \<Rightarrow> dir_entry option list option) \<Rightarrow> 'a visitor \<Rightarrow> path list \<Rightarrow> 'a \<Rightarrow> (task_error + 'a) option" where
  "walk_dirs entries visit stack acc =
    (case vec_last stack of
       None \<Rightarrow> Some (Inr acc)
     | Some dir \<Rightarrow>
         (case entries dir of
            None \<Rightarrow> Some (Inl (Read_Failed dir))
          | Some es \<Rightarrow>
              (case visit_entries visit dir es (vec_pop stack) acc of
                 Inl e \<Rightarrow> Some (Inl e)
               | Inr (stack', acc') \<Rightarrow> walk_dirs entries visit stack' acc')))"

definition CRATE_ROOT_STEM :: bytes where "CRATE_ROOT_STEM = ''lib''"

definition src_visit :: "bytes set visitor" where
  "src_visit dir name names =
    (case name_parts name of (stem, ext) \<Rightarrow>
       Inr (if ext = Some ''rs'' \<and> utf8_valid stem \<and> stem \<noteq> CRATE_ROOT_STEM then insert stem names else names))"

definition src_module_names :: "host \<Rightarrow> trace \<Rightarrow> (task_error + bytes set) option" where
  "src_module_names h tr = walk_dirs (hs_dir h tr) src_visit [''src''] {}"

definition DOC_README :: path where "DOC_README = ''README.md''"
definition DOC_DIR :: path where "DOC_DIR = ''docs''"

definition doc_visit :: "host \<Rightarrow> trace \<Rightarrow> (path \<times> bytes) list visitor" where
  "doc_visit h tr dir name docs =
    (if snd (name_parts name) = Some ''md''
     then case hs_read h tr (join_path dir name) of
            None \<Rightarrow> Inl (Read_Failed (join_path dir name))
          | Some text \<Rightarrow> Inr (vec_push docs (join_path dir name, text))
     else Inr docs)"

definition collect_docs :: "host \<Rightarrow> trace \<Rightarrow> (task_error + (path \<times> bytes) list) option" where
  "collect_docs h tr =
    (case hs_read h tr DOC_README of
       None \<Rightarrow> Some (Inl (Read_Failed DOC_README))
     | Some readme \<Rightarrow> walk_dirs (hs_dir h tr) (doc_visit h tr) [DOC_DIR] [(DOC_README, readme)])"

section \<open>The walk ends and visits everything once\<close>

fun subdirs :: "path \<Rightarrow> dir_entry option list \<Rightarrow> path list" where
  "subdirs dir [] = []"
| "subdirs dir (Some (name, is_dir) # es) = (if is_dir then [join_path dir name] else []) @ subdirs dir es"
| "subdirs dir (None # es) = subdirs dir es"

lemma visit_entries_stack:
  "visit_entries visit dir es stack acc = Inr (stack', acc') \<Longrightarrow> stack' = stack @ subdirs dir es"
  by (induction visit dir es stack acc rule: visit_entries.induct) (auto split: if_splits sum.splits)

lemma set_subdirs: "c \<in> set (subdirs dir es) \<longleftrightarrow> (\<exists>name. Some (name, True) \<in> set es \<and> c = join_path dir name)"
  by (induction dir es rule: subdirs.induct) auto

lemma walk_dirs_Nil [simp]: "walk_dirs entries visit [] acc = Some (Inr acc)"
  by (subst walk_dirs.simps) simp

lemma walk_dirs_snoc:
  "walk_dirs entries visit (rest @ [dir]) acc =
    (case entries dir of
       None \<Rightarrow> Some (Inl (Read_Failed dir))
     | Some es \<Rightarrow>
         (case visit_entries visit dir es rest acc of
            Inl e \<Rightarrow> Some (Inl e)
          | Inr (stack', acc') \<Rightarrow> walk_dirs entries visit stack' acc'))"
  by (subst walk_dirs.simps) (simp split: option.split)

text \<open>A tree of directories: some rank falls along every edge.\<close>

definition falling :: "(path \<Rightarrow> dir_entry option list option) \<Rightarrow> (path \<Rightarrow> nat) \<Rightarrow> bool" where
  "falling entries rank \<longleftrightarrow>
    (\<forall>dir es c. entries dir = Some es \<longrightarrow> c \<in> set (subdirs dir es) \<longrightarrow> rank c < rank dir)"

definition ends_after :: "(path \<Rightarrow> dir_entry option list option) \<Rightarrow> 'a visitor \<Rightarrow> path list \<Rightarrow> bool" where
  "ends_after entries visit ds \<longleftrightarrow>
    (\<forall>rest. (\<forall>acc. walk_dirs entries visit rest acc \<noteq> None) \<longrightarrow> (\<forall>acc. walk_dirs entries visit (rest @ ds) acc \<noteq> None))"

lemma ends_after_list: "(\<And>d. d \<in> set ds \<Longrightarrow> ends_after entries visit [d]) \<Longrightarrow> ends_after entries visit ds"
proof (induction ds rule: rev_induct)
  case (snoc d ds)
  then have "ends_after entries visit ds" "ends_after entries visit [d]" by auto
  then show ?case unfolding ends_after_def by (metis append_assoc)
qed (simp add: ends_after_def)

lemma ends_after_dir: "falling entries rank \<Longrightarrow> ends_after entries visit [dir]"
proof (induction "rank dir" arbitrary: dir rule: less_induct)
  case less
  have subs: "ends_after entries visit (subdirs dir es)" if "entries dir = Some es" for es
    by (rule ends_after_list) (use less that in \<open>auto simp: falling_def\<close>)
  show ?case
    unfolding ends_after_def walk_dirs_snoc
  proof (intro allI impI)
    fix rest acc
    assume rest: "\<forall>acc. walk_dirs entries visit rest acc \<noteq> None"
    show "(case entries dir of None \<Rightarrow> Some (Inl (Read_Failed dir))
      | Some es \<Rightarrow> (case visit_entries visit dir es rest acc of Inl e \<Rightarrow> Some (Inl e)
        | Inr (stack', acc') \<Rightarrow> walk_dirs entries visit stack' acc')) \<noteq> None"
      using subs rest visit_entries_stack [of visit dir _ rest acc]
      by (auto simp: ends_after_def split: option.splits sum.splits) blast
  qed
qed

lemma walk_dirs_ends: "falling entries rank \<Longrightarrow> walk_dirs entries visit stack acc \<noteq> None"
  using ends_after_list [of stack entries visit] ends_after_dir [of entries rank visit]
  by (fastforce simp: ends_after_def dest: spec [of _ "[]"])

text \<open>The directories below a directory, and the modules among their files.\<close>

inductive below :: "(path \<Rightarrow> dir_entry option list option) \<Rightarrow> path \<Rightarrow> path \<Rightarrow> bool" for entries where
  below_self: "below entries dir dir"
| below_step: "entries dir = Some es \<Longrightarrow> c \<in> set (subdirs dir es) \<Longrightarrow> below entries c d \<Longrightarrow> below entries dir d"

definition unreadable :: "(path \<Rightarrow> dir_entry option list option) \<Rightarrow> path \<Rightarrow> bool" where
  "unreadable entries d \<longleftrightarrow> (case entries d of None \<Rightarrow> True | Some es \<Rightarrow> None \<in> set es)"

definition own_modules :: "dir_entry option list \<Rightarrow> bytes set" where
  "own_modules es =
    {stem. \<exists>name. Some (name, False) \<in> set es \<and> name_parts name = (stem, Some ''rs'') \<and> utf8_valid stem \<and> stem \<noteq> ''lib''}"

definition modules_below :: "(path \<Rightarrow> dir_entry option list option) \<Rightarrow> path \<Rightarrow> bytes set" where
  "modules_below entries dir = (\<Union>d \<in> {d. below entries dir d}. case entries d of Some es \<Rightarrow> own_modules es | None \<Rightarrow> {})"

lemma src_entries:
  "visit_entries src_visit dir es stack acc =
    (if None \<in> set es then Inl (Read_Failed dir) else Inr (stack @ subdirs dir es, acc \<union> own_modules es))"
proof (induction es arbitrary: stack acc)
  case Nil
  show ?case by (simp add: own_modules_def)
next
  case (Cons e es)
  show ?case
  proof (cases e)
    case None
    then show ?thesis by simp
  next
    case (Some f)
    obtain name is_dir where f: "f = (name, is_dir)" by (cases f)
    have dirs: "own_modules (Some (name, True) # es) = own_modules es" by (simp add: own_modules_def)
    have files: "acc \<union> own_modules (Some (name, False) # es) =
      (case name_parts name of (stem, ext) \<Rightarrow>
        if ext = Some ''rs'' \<and> utf8_valid stem \<and> stem \<noteq> ''lib'' then insert stem acc else acc) \<union> own_modules es" for acc
      by (auto simp: own_modules_def split: prod.splits if_splits)
    show ?thesis
      using Cons.IH dirs files
      by (cases is_dir) (auto simp: Some f src_visit_def CRATE_ROOT_STEM_def split: prod.splits if_splits)
  qed
qed

inductive_cases belowE: "below entries dir d"

definition blocked :: "(path \<Rightarrow> dir_entry option list option) \<Rightarrow> path \<Rightarrow> bool" where
  "blocked entries dir \<longleftrightarrow> (\<exists>d. below entries dir d \<and> unreadable entries d)"

lemma below_unfold:
  assumes "entries dir = Some es"
  shows "below entries dir d \<longleftrightarrow> d = dir \<or> (\<exists>c \<in> set (subdirs dir es). below entries c d)"
  using assms by (auto elim: belowE intro: below.intros)

lemma modules_below_unfold:
  "entries dir = Some es \<Longrightarrow>
    modules_below entries dir = own_modules es \<union> (\<Union>c \<in> set (subdirs dir es). modules_below entries c)"
  by (auto simp: modules_below_def below_unfold)

lemma blocked_unfold:
  "entries dir = Some es \<Longrightarrow> blocked entries dir \<longleftrightarrow> None \<in> set es \<or> (\<exists>c \<in> set (subdirs dir es). blocked entries c)"
  by (auto simp: blocked_def below_unfold unreadable_def)

lemma blocked_None: "entries dir = None \<Longrightarrow> blocked entries dir"
  by (auto simp: blocked_def unreadable_def intro: below_self)

text \<open>What popping the last directories of the stack amounts to.\<close>

definition walks_as :: "(path \<Rightarrow> dir_entry option list option) \<Rightarrow> path list \<Rightarrow> bool" where
  "walks_as entries ds \<longleftrightarrow>
    (\<forall>rest acc.
      if \<exists>d \<in> set ds. blocked entries d then \<exists>e. walk_dirs entries src_visit (rest @ ds) acc = Some (Inl e)
      else walk_dirs entries src_visit (rest @ ds) acc =
        walk_dirs entries src_visit rest (acc \<union> (\<Union>d \<in> set ds. modules_below entries d)))"

lemma walks_as_single:
  "walks_as entries [d] \<longleftrightarrow>
    (\<forall>rest acc.
      if blocked entries d then \<exists>e. walk_dirs entries src_visit (rest @ [d]) acc = Some (Inl e)
      else walk_dirs entries src_visit (rest @ [d]) acc =
        walk_dirs entries src_visit rest (acc \<union> modules_below entries d))"
  by (simp add: walks_as_def)

lemma walks_as_list: "(\<And>d. d \<in> set ds \<Longrightarrow> walks_as entries [d]) \<Longrightarrow> walks_as entries ds"
proof (induction ds rule: rev_induct)
  case Nil
  show ?case by (simp add: walks_as_def)
next
  case (snoc d ds)
  then have ds: "walks_as entries ds" and d: "walks_as entries [d]" by auto
  show ?case
    unfolding walks_as_def
  proof (intro allI)
    fix rest acc
    from d have "if blocked entries d then \<exists>e. walk_dirs entries src_visit ((rest @ ds) @ [d]) acc = Some (Inl e)
      else walk_dirs entries src_visit ((rest @ ds) @ [d]) acc =
        walk_dirs entries src_visit (rest @ ds) (acc \<union> modules_below entries d)"
      unfolding walks_as_single by blast
    moreover from ds have "if \<exists>d \<in> set ds. blocked entries d
      then \<exists>e. walk_dirs entries src_visit (rest @ ds) (acc \<union> modules_below entries d) = Some (Inl e)
      else walk_dirs entries src_visit (rest @ ds) (acc \<union> modules_below entries d) =
        walk_dirs entries src_visit rest ((acc \<union> modules_below entries d) \<union> (\<Union>d \<in> set ds. modules_below entries d))"
      unfolding walks_as_def by blast
    ultimately show "if \<exists>d \<in> set (ds @ [d]). blocked entries d
      then \<exists>e. walk_dirs entries src_visit (rest @ ds @ [d]) acc = Some (Inl e)
      else walk_dirs entries src_visit (rest @ ds @ [d]) acc =
        walk_dirs entries src_visit rest (acc \<union> (\<Union>d \<in> set (ds @ [d]). modules_below entries d))"
      by (auto simp: Un_ac split: if_splits)
  qed
qed

lemma walks_as_dir: "falling entries rank \<Longrightarrow> walks_as entries [dir]"
proof (induction "rank dir" arbitrary: dir rule: less_induct)
  case less
  show ?case
  proof (cases "entries dir")
    case None
    then show ?thesis by (auto simp: walks_as_def blocked_None walk_dirs_snoc)
  next
    case (Some es)
    have subs: "walks_as entries (subdirs dir es)"
      by (rule walks_as_list) (use less Some in \<open>auto simp: falling_def\<close>)
    show ?thesis
      unfolding walks_as_def
    proof (intro allI)
      fix rest :: "path list" and acc
      have "walk_dirs entries src_visit (rest @ [dir]) acc =
        (if None \<in> set es then Some (Inl (Read_Failed dir))
         else walk_dirs entries src_visit (rest @ subdirs dir es) (acc \<union> own_modules es))"
        by (simp add: walk_dirs_snoc Some src_entries)
      moreover have "if \<exists>d \<in> set (subdirs dir es). blocked entries d
        then \<exists>e. walk_dirs entries src_visit (rest @ subdirs dir es) (acc \<union> own_modules es) = Some (Inl e)
        else walk_dirs entries src_visit (rest @ subdirs dir es) (acc \<union> own_modules es) =
          walk_dirs entries src_visit rest ((acc \<union> own_modules es) \<union> (\<Union>d \<in> set (subdirs dir es). modules_below entries d))"
        using subs unfolding walks_as_def by blast
      ultimately show "if \<exists>d \<in> set [dir]. blocked entries d
        then \<exists>e. walk_dirs entries src_visit (rest @ [dir]) acc = Some (Inl e)
        else walk_dirs entries src_visit (rest @ [dir]) acc =
          walk_dirs entries src_visit rest (acc \<union> (\<Union>d \<in> set [dir]. modules_below entries d))"
        by (auto simp: blocked_unfold [of entries, OF Some] modules_below_unfold [of entries, OF Some] Un_assoc split: if_splits)
    qed
  qed
qed

section \<open>Properties\<close>

text \<open>C26: Collecting the modules of \<open>src\<close> ends whenever the directories form a tree, and then reports
  exactly the stems of the \<open>.rs\<close> files below \<open>src\<close>, the crate root excepted; it fails exactly when
  some directory below \<open>src\<close>, or one of its entries, cannot be read.\<close>

theorem module_walk_exact:
  assumes "falling (hs_dir h tr) rank"
  shows "(\<exists>e. src_module_names h tr = Some (Inl e)) \<and> blocked (hs_dir h tr) ''src'' \<or>
    src_module_names h tr = Some (Inr (modules_below (hs_dir h tr) ''src'')) \<and> \<not> blocked (hs_dir h tr) ''src''"
proof -
  have "if blocked (hs_dir h tr) ''src''
    then \<exists>e. walk_dirs (hs_dir h tr) src_visit ([] @ [''src'']) {} = Some (Inl e)
    else walk_dirs (hs_dir h tr) src_visit ([] @ [''src'']) {} =
      walk_dirs (hs_dir h tr) src_visit [] ({} \<union> modules_below (hs_dir h tr) ''src'')"
    using walks_as_dir [OF assms, of "''src''"] unfolding walks_as_single by blast
  then show ?thesis by (auto simp: src_module_names_def split: if_splits)
qed

definition sample_dirs :: "path \<Rightarrow> dir_entry option list option" where
  "sample_dirs d =
    (if d = ''src'' then Some [Some (''schema'', True), Some (''lib.rs'', False), Some (''mask.rs'', False)]
     else if d = ''src/schema'' then Some [Some (''trie.rs'', False), Some (''notes.md'', False)]
     else None)"

definition bare_host :: host where
  "bare_host = \<lparr>hs_run = \<lambda>_ _. None, hs_read = \<lambda>_ _. None, hs_write = \<lambda>_ _ _. True, hs_mkdir = \<lambda>_ _. True,
    hs_exists = \<lambda>_ _. False, hs_dir = \<lambda>_. sample_dirs, hs_cwd_name = None, hs_json = \<lambda>_. None, hs_clock = None\<rparr>"

theorem module_walk_exact_witness:
  "src_module_names bare_host [] = Some (Inr {''mask'', ''trie''})"
proof -
  have dirs: "hs_dir bare_host [] = sample_dirs" by (simp add: bare_host_def)
  have src: "sample_dirs ''src'' = Some [Some (''schema'', True), Some (''lib.rs'', False), Some (''mask.rs'', False)]"
    and sub: "sample_dirs ''src/schema'' = Some [Some (''trie.rs'', False), Some (''notes.md'', False)]"
    by (simp_all add: sample_dirs_def)
  have fall: "falling (hs_dir bare_host []) (\<lambda>d. if d = ''src'' then 1 else 0)"
    by (auto simp: falling_def dirs sample_dirs_def join_path_def split: if_splits)
  have "name_parts ''lib.rs'' = (''lib'', Some ''rs'')" "name_parts ''mask.rs'' = (''mask'', Some ''rs'')"
    "name_parts ''trie.rs'' = (''trie'', Some ''rs'')" "name_parts ''notes.md'' = (''notes'', Some ''md'')"
    "utf8_valid ''mask''" "utf8_valid ''trie''"
    by code_simp+
  note parts = this
  have "own_modules [Some (''schema'', True), Some (''lib.rs'', False), Some (''mask.rs'', False)] = {''mask''}"
    "own_modules [Some (''trie.rs'', False), Some (''notes.md'', False)] = {''trie''}"
    using parts by (auto simp: own_modules_def simp del: utf8_valid.simps)
  then have "modules_below (hs_dir bare_host []) ''src'' = {''mask'', ''trie''}" "\<not> blocked (hs_dir bare_host []) ''src''"
    using modules_below_unfold [of sample_dirs, OF src] modules_below_unfold [of sample_dirs, OF sub]
      blocked_unfold [of sample_dirs, OF src] blocked_unfold [of sample_dirs, OF sub]
    by (simp_all add: dirs join_path_def insert_commute)
  then show ?thesis using module_walk_exact [OF fall] by simp
qed

lemma trim_start_indent: "trim_start (replicate k (CHR '' '') @ s) = trim_start s"
  by (induction k) simp_all

lemma trim_start_hd: "s \<noteq> [] \<Longrightarrow> solid (hd s) \<Longrightarrow> trim_start (s @ t) = s @ t"
  by (rule trim_start_edge) auto

lemma solid_word: "word_byte b \<Longrightarrow> solid b" "is_ascii_digit b \<Longrightarrow> solid b"
  by (auto simp: word_byte_def byte_class_defs solid_def)

lemma first_some_skip: "\<forall>x \<in> set xs. f x = None \<Longrightarrow> first_some f (xs @ ys) = first_some f ys"
  by (induction xs) auto

lemma usize_line:
  assumes "name \<noteq> []" and "list_all word_byte name" and "n < 2 ^ 64"
  shows "usize_const_line name (replicate k (CHR '' '') @ ''const '' @ name @ '': usize = '' @ decimal n @ '';'') = Some n"
proof -
  have sc: "solid (CHR ''c'')" "solid (CHR '':'')" by (simp_all add: solid_def byte_between_def)
  have digits: "\<forall>c \<in> set (decimal n). is_ascii_digit c" using decimal_digits by blast
  have hd: "solid (hd name)" "solid (hd (decimal n))"
    using assms(1,2) solid_word digits by (cases name; cases "decimal n"; auto)+
  have after: "const_after name (replicate k (CHR '' '') @ ''const '' @ name @ '': usize = '' @ decimal n @ '';'') =
      Some ('': usize = '' @ decimal n @ '';'')"
    using assms(1) hd(1) sc
    by (simp add: const_after_def trim_start_indent trim_start_solid trim_start_hd strip_prefix_append)
  have run: "takeWhile (\<lambda>c. is_ascii_digit c \<or> c = CHR ''_'') (decimal n @ '';'') = decimal n"
    using digits by (subst takeWhile_append2) (auto simp: is_ascii_digit_def byte_between_def)
  have keep: "filter (\<lambda>c. c \<noteq> CHR ''_'') (decimal n) = decimal n"
    using digits by (intro filter_True) (auto simp: is_ascii_digit_def byte_between_def)
  show ?thesis
    unfolding usize_const_line_def after
    using hd(2) assms(3) run keep by (simp add: trim_start_hd parse_usize_decimal)
qed

lemma usize_const_read:
  assumes "list_all (\<lambda>l. line_text l \<and> usize_const_line name l = None) pre"
    and "name \<noteq> []" and "list_all word_byte name" and "n < 2 ^ 64"
  shows "parse_usize_const
    (unlines (pre @ [replicate k (CHR '' '') @ ''const '' @ name @ '': usize = '' @ decimal n @ '';'']) @ rest) name = Some n"
proof -
  define line where "line = replicate k (CHR '' '') @ ''const '' @ name @ '': usize = '' @ decimal n @ '';''"
  have not_solid: "\<not> solid LF" "\<not> solid CR" by (simp_all add: solid_def byte_between_def)
  then have "line_text line"
    using not_solid assms(3) decimal_digits [of _ n] solid_word
    by (auto simp: line_text_def line_def list_all_iff)
  then have "str_lines (unlines (pre @ [line]) @ rest) = pre @ line # str_lines rest"
    using str_lines_unlines [of "pre @ [line]" rest] assms(1) by (auto simp: list_all_iff)
  moreover have "usize_const_line name line = Some n" unfolding line_def by (rule usize_line [OF assms(2-4)])
  ultimately show ?thesis
    using assms(1) by (simp add: parse_usize_const_def line_def [symmetric] first_some_skip list_all_iff del: append_Cons)
qed

text \<open>C35: A constant that the check reads out of a source file is read back exactly: behind lines that do
  not declare it, a line \<open>const NAME: usize = n;\<close>, indented or not, gives \<open>n\<close>, whatever follows.\<close>

theorem usize_const_roundtrip:
  assumes "list_all (\<lambda>l. line_text l \<and> usize_const_line name l = None) pre"
    and "name \<noteq> []" and "list_all word_byte name" and "n < 2 ^ 64"
  shows "parse_usize_const
    (unlines (pre @ [replicate k (CHR '' '') @ ''const '' @ name @ '': usize = '' @ decimal n @ '';'']) @ rest) name = Some n"
  using usize_const_read [OF assms] .

theorem usize_const_roundtrip_witness:
  "parse_usize_const (unlines [''// counts'', ''const ARM_ABC: usize = 7;'', ''  const ARM_A: usize = 4639;''] @ ''x'') ''ARM_A'' = Some 4639"
proof -
  have "list_all (\<lambda>l. line_text l \<and> usize_const_line ''ARM_A'' l = None) [''// counts'', ''const ARM_ABC: usize = 7;'']"
    by code_simp
  moreover have "decimal 4639 = ''4639''" by code_simp
  moreover have "list_all word_byte ''ARM_A''" by code_simp
  ultimately show ?thesis
    using usize_const_roundtrip [of "''ARM_A''" "[''// counts'', ''const ARM_ABC: usize = 7;'']" 4639 "Suc (Suc 0)" "''x''"]
    by simp
qed

lemma find_rs:
  "\<not> sublist ''.rs'' xs \<Longrightarrow> str_find (xs @ ''.rs'' @ tail) ''.rs'' = Some (length xs)"
proof (induction xs)
  case (Cons b xs)
  have "\<not> prefix ''.rs'' (b # xs @ ''.rs'' @ tail)"
  proof
    assume p: "prefix ''.rs'' (b # xs @ ''.rs'' @ tail)"
    show False
    proof (cases xs rule: remdups_adj.cases)
      case (3 c d ys)
      with p have "prefix ''.rs'' (b # xs)" by auto
      with Cons.prems show False by (meson prefix_imp_sublist)
    qed (use p in auto)
  qed
  with Cons show ?case by (simp add: sublist_Cons_right)
qed simp

lemma stem_before_word:
  assumes "list_all word_byte stem" and "lead = [] \<or> \<not> word_byte (last lead)"
  shows "stem_before (lead @ stem) = (if lead \<noteq> [] \<and> utf8_cont (last lead) then None else Some stem)"
proof -
  have "takeWhile word_byte (rev lead) = []"
    using assms(2) by (cases lead rule: rev_cases) auto
  then have "takeWhile word_byte (rev (lead @ stem)) = rev stem"
    using assms(1) takeWhile_append2 [of "rev stem" word_byte "rev lead"] by (simp add: list_all_iff)
  then show ?thesis by (simp add: stem_before_def)
qed

text \<open>A line of the module tree that names one file gives its stem, and the scan panics exactly when
  the character in front of the stem takes more than one byte, as the lines of a drawn tree have.\<close>

theorem tree_line_stem:
  assumes "list_all word_byte stem" and "stem \<noteq> []" and "\<not> str_contains (lead @ stem) ''.rs''"
    and "lead = [] \<or> \<not> word_byte (last lead)" and "\<not> str_contains tail ''.rs''"
    and "tail = [] \<or> \<not> word_byte (hd tail)"
  shows "rs_stems_in_line (lead @ stem @ ''.rs'' @ tail) =
    (if lead \<noteq> [] \<and> utf8_cont (last lead) then None else Some [stem])"
proof -
  define dot where "dot = length (lead @ stem)"
  have find: "str_find (drop 0 (lead @ stem @ ''.rs'' @ tail)) ''.rs'' = Some dot"
    using find_rs [of "lead @ stem" tail] assms(3) by (simp add: str_contains_iff dot_def)
  have rest: "drop (dot + 3) (lead @ stem @ ''.rs'' @ tail) = tail"
    and upto: "take dot (lead @ stem @ ''.rs'' @ tail) = lead @ stem"
    by (simp_all add: dot_def)
  have v: "vec_get (lead @ stem @ ''.rs'' @ tail) (dot + 3) = (case tail of [] \<Rightarrow> None | b # _ \<Rightarrow> Some b)"
    by (cases tail) (simp_all add: vec_get_def dot_def nth_append)
  have boundary: "(case vec_get (lead @ stem @ ''.rs'' @ tail) (dot + 3) of None \<Rightarrow> True | Some b \<Rightarrow> \<not> word_byte b)"
    using assms(6) unfolding v by (cases tail) simp_all
  have none: "stems_loop (lead @ stem @ ''.rs'' @ tail) (dot + 3) = Some []"
  proof -
    have "str_find tail ''.rs'' = None" using assms(5) by (simp add: str_find_None str_contains_iff)
    then show ?thesis by (subst stems_loop.simps) (simp only: rest option.case)
  qed
  show ?thesis
    unfolding rs_stems_in_line_def
    by (subst stems_loop.simps)
      (simp only: find option.case Let_def add_0 upto stem_before_word [OF assms(1,4)] none boundary, simp add: assms(2))
qed

theorem tree_line_stem_witness:
  "rs_stems_in_line (''    '' @ ''compiled'' @ ''.rs'' @ ''   CompiledGrammar'') = Some [''compiled''] \<and>
   rs_stems_in_line ([CHR 0xE2, CHR 0x94, CHR 0x80] @ ''mask'' @ ''.rs'' @ []) = None"
proof -
  have "list_all word_byte ''compiled''" "list_all word_byte ''mask''" "\<not> word_byte (CHR '' '')"
    "\<not> str_contains (''    '' @ ''compiled'') ''.rs''" "\<not> str_contains ''   CompiledGrammar'' ''.rs''"
    "\<not> str_contains ([CHR 0xE2, CHR 0x94, CHR 0x80] @ ''mask'') ''.rs''" "\<not> word_byte (CHR 0x80)"
    "utf8_cont (CHR 0x80)" "\<not> utf8_cont (CHR '' '')"
    by code_simp+
  then show ?thesis
    using tree_line_stem [of "''compiled''" "''    ''" "''   CompiledGrammar''"]
      tree_line_stem [of "''mask''" "[CHR 0xE2, CHR 0x94, CHR 0x80]" "[]"] by simp
qed

text \<open>What the readers accept beyond their documentation: the value of a constant is its leading digits,
  so a hexadecimal literal and a sum are read as numbers; and a crate set is compared by its long
  lower-case words only, so a set that names further crates can pass for the allowlist.\<close>

lemma const_value_misread:
  "parse_usize_const ''const N: usize = 0x1F;'' ''N'' = Some 0"
  "parse_usize_const ''const N: usize = 4639 + 395;'' ''N'' = Some 4639"
proof -
  have "decimal 0 = ''0''" "decimal 4639 = ''4639''" by code_simp+
  then have digits: "parse_usize ''0'' = Some 0" "parse_usize ''4639'' = Some 4639"
    using parse_usize_decimal [of 0] parse_usize_decimal [of 4639] by simp_all
  have after: "const_after ''N'' ''const N: usize = 0x1F;'' = Some '': usize = 0x1F;''"
    "const_after ''N'' ''const N: usize = 4639 + 395;'' = Some '': usize = 4639 + 395;''"
    "trim_start '' 0x1F;'' = ''0x1F;''" "trim_start '' 4639 + 395;'' = ''4639 + 395;''"
    by code_simp+
  have run: "filter (\<lambda>c. c \<noteq> CHR ''_'') (takeWhile (\<lambda>c. is_ascii_digit c \<or> c = CHR ''_'') ''0x1F;'') = ''0''"
    "filter (\<lambda>c. c \<noteq> CHR ''_'') (takeWhile (\<lambda>c. is_ascii_digit c \<or> c = CHR ''_'') ''4639 + 395;'') = ''4639''"
    by code_simp+
  show "parse_usize_const ''const N: usize = 0x1F;'' ''N'' = Some 0"
    using digits(1) after(1,3) run(1)
    by (simp add: parse_usize_const_def str_lines_single usize_const_line_def del: takeWhile.simps filter.simps)
  show "parse_usize_const ''const N: usize = 4639 + 395;'' ''N'' = Some 4639"
    using digits(2) after(2,4) run(2)
    by (simp add: parse_usize_const_def str_lines_single usize_const_line_def del: takeWhile.simps filter.simps)
qed

lemma crate_set_misread:
  "allowlist_sets ''{ thiserror, serde, serde_json, cc, Rand }'' = [[''thiserror'', ''serde'', ''serde_json'']]"
  by code_simp

end
