(* ===== verification/Tasks.thy ===== *)
theory Tasks
  imports Manifest_Gate Release_Overrides Civil_Date Doc_Facts
begin

text \<open>
  The subcommands of \<open>src/xtask/src/tasks.rs\<close> and their dispatch in \<open>src/xtask/src/main.rs\<close>: which
  commands a task runs and which files it writes, in which order and with which outcome.  A task whose
  directory walk does not end has no outcome, the value \<^term>\<open>None\<close>.
\<close>

section \<open>Names\<close>

definition validate_name :: "bytes \<Rightarrow> bytes \<Rightarrow> task_error + unit" where
  "validate_name name usage =
    (if name = [] then Inl (Usage usage)
     else if list_ex (\<lambda>b. b = CHR ''/'' \<or> b = CHR 0x5C) name \<or> str_contains name ''..'' then Inl Bad_Name
     else Inr ())"

section \<open>Running the tools\<close>

definition sweep :: "host \<Rightarrow> trace \<Rightarrow> unit outcome" where
  "sweep h tr = run h ''ast-grep'' [''scan''] tr"

definition LEGEND_COMPOSE_FILE :: bytes where
  "LEGEND_COMPOSE_FILE = ''corpus/legend-stack/docker-compose.yml''"

definition test_legend :: "host \<Rightarrow> trace \<Rightarrow> unit outcome" where
  "test_legend h tr =
    and_then (run h ''docker'' [''compose'', ''-f'', LEGEND_COMPOSE_FILE, ''up'', ''-d''] tr) (\<lambda>_ tr.
      let (tested, tr) = run h ''cargo'' [''nextest'', ''run'', ''--features'', ''legend''] tr;
          (torn_down, tr) = run h ''docker'' [''compose'', ''-f'', LEGEND_COMPOSE_FILE, ''down''] tr
      in (case (tested, torn_down) of
            (Inl test_err, Inl teardown_err) \<Rightarrow> Inl (With_Context test_err teardown_err)
          | (Inl test_err, Inr _) \<Rightarrow> Inl test_err
          | (Inr _, teardown) \<Rightarrow> teardown, tr))"

definition FUZZ_TARGETS :: "bytes list" where
  "FUZZ_TARGETS = [''accept_token'', ''allowed_mask'', ''schema_from_json'']"

fun fuzz_targets :: "host \<Rightarrow> bytes \<Rightarrow> bytes list \<Rightarrow> trace \<Rightarrow> unit outcome" where
  "fuzz_targets h budget [] tr = (Inr (), tr)"
| "fuzz_targets h budget (target # targets) tr =
    and_then (run h ''cargo'' [''+nightly'', ''fuzz'', ''run'', target, ''--'', budget] tr)
      (\<lambda>_ tr. fuzz_targets h budget targets tr)"

definition fuzz_ci :: "host \<Rightarrow> u64 \<Rightarrow> trace \<Rightarrow> unit outcome" where
  "fuzz_ci h secs tr = fuzz_targets h (''-max_total_time='' @ decimal (unat secs)) FUZZ_TARGETS tr"

definition COVERAGE_FLOOR_PCT :: bytes where "COVERAGE_FLOOR_PCT = ''70''"
definition COVERAGE_IGNORE_REGEX :: bytes where "COVERAGE_IGNORE_REGEX = ''xtask/''"

definition coverage :: "host \<Rightarrow> bool \<Rightarrow> trace \<Rightarrow> unit outcome" where
  "coverage h html tr =
    (let args = [''llvm-cov'', ''--workspace'', ''--ignore-filename-regex'', COVERAGE_IGNORE_REGEX,
                 ''--fail-under-lines'', COVERAGE_FLOOR_PCT]
     in run h ''cargo'' (vec_push args (if html then ''--html'' else ''--summary-only'')) tr)"

section \<open>Release configuration\<close>

definition RELEASE_PLZ_CONFIG :: path where "RELEASE_PLZ_CONFIG = ''release-plz.toml''"

text \<open>Indexing a JSON value by a key, \<open>as_array\<close> and \<open>as_str\<close>.\<close>

fun json_key :: "json \<Rightarrow> bytes \<Rightarrow> json" where
  "json_key (J_Object kvs) k = (case map_of kvs k of Some v \<Rightarrow> v | None \<Rightarrow> J_Null)"
| "json_key _ k = J_Null"

fun as_array :: "json \<Rightarrow> json list option" where
  "as_array (J_Array vs) = Some vs"
| "as_array _ = None"

fun as_str :: "json \<Rightarrow> bytes option" where
  "as_str (J_String s) = Some s"
| "as_str _ = None"

definition workspace_member_names :: "host \<Rightarrow> trace \<Rightarrow> bytes list outcome" where
  "workspace_member_names h tr =
    and_then (run_stdout h ''cargo'' [''metadata'', ''--no-deps'', ''--format-version'', ''1''] tr) (\<lambda>json tr.
      (case hs_json h json of
         None \<Rightarrow> Inl Bad_Json
       | Some meta \<Rightarrow>
           (case as_array (json_key meta ''packages'') of
              None \<Rightarrow> Inl No_Packages
            | Some packages \<Rightarrow> Inr (List.map_filter (\<lambda>p. as_str (json_key p ''name'')) packages)), tr))"

definition release_plz_check :: "host \<Rightarrow> trace \<Rightarrow> unit outcome" where
  "release_plz_check h tr =
    and_then (read_to_string h RELEASE_PLZ_CONFIG tr) (\<lambda>src tr.
    and_then (workspace_member_names h tr) (\<lambda>members tr.
      let missing = missing_overrides (release_plz_override_names src) members
      in (if missing \<noteq> [] then Inl (Unknown_Overrides missing) else Inr (), tr)))"

section \<open>The dependency gate\<close>

definition CORE_MANIFEST :: path where "CORE_MANIFEST = ''Cargo.toml''"

definition NON_CORE_PACKAGE_PREFIXES :: "bytes list" where
  "NON_CORE_PACKAGE_PREFIXES = [''tests/'', ''corpus/'']"

definition leaked_files :: "bytes \<Rightarrow> bytes list" where
  "leaked_files listed =
    filter (\<lambda>p. list_ex (\<lambda>pre. prefix pre p) NON_CORE_PACKAGE_PREFIXES) (map trim (str_lines listed))"

definition PACKAGE_LIST :: "bytes list" where
  "PACKAGE_LIST = [''package'', ''--list'', ''--allow-dirty'', ''-p'', ''purecard'']"

definition check_core_deplight :: "host \<Rightarrow> trace \<Rightarrow> unit outcome" where
  "check_core_deplight h tr =
    and_then (read_to_string h CORE_MANIFEST tr) (\<lambda>manifest tr.
      case core_dependency_entries manifest of
        None \<Rightarrow> (Inl Panicked, tr)
      | Some deps \<Rightarrow>
          (let disallowed = disallowed_core_deps deps CORE_DEP_ALLOWLIST
           in if disallowed \<noteq> [] then (Inl (Disallowed_Deps disallowed), tr)
              else and_then (run_stdout h ''cargo'' PACKAGE_LIST tr) (\<lambda>listed tr.
                (if leaked_files listed \<noteq> [] then Inl (Leaked_Files (leaked_files listed)) else Inr (), tr))))"

section \<open>Snapshots and scaffolding\<close>

definition PUBLIC_API_CRATES :: "bytes list" where "PUBLIC_API_CRATES = [''purecard'']"
definition PUBLIC_API_DIR :: path where "PUBLIC_API_DIR = ''public-api''"

fun api_crates :: "host \<Rightarrow> bool \<Rightarrow> bytes list \<Rightarrow> bytes list \<Rightarrow> trace \<Rightarrow> bytes list outcome" where
  "api_crates h bless [] drift tr = (Inr drift, tr)"
| "api_crates h bless (krate # crates) drift tr =
    and_then (run_stdout h ''cargo'' [''+nightly'', ''public-api'', ''-p'', krate] tr) (\<lambda>surface tr.
      let p = PUBLIC_API_DIR @ ''/'' @ krate @ ''.txt''
      in if bless
         then and_then (write_file h p surface tr) (\<lambda>_ tr. api_crates h bless crates drift tr)
         else and_then (read_to_string h p tr) (\<lambda>baseline tr.
           api_crates h bless crates (if baseline \<noteq> surface then vec_push drift krate else drift) tr))"

definition public_api :: "host \<Rightarrow> bool \<Rightarrow> trace \<Rightarrow> unit outcome" where
  "public_api h bless tr =
    and_then (if bless then create_dir_all h PUBLIC_API_DIR tr else (Inr (), tr)) (\<lambda>_ tr.
    and_then (api_crates h bless PUBLIC_API_CRATES [] tr) (\<lambda>drift tr.
      (if drift \<noteq> [] then Inl (Api_Drift drift) else Inr (), tr)))"

text \<open>The current directory can be unknown, or have no name.\<close>

definition new_feature :: "host \<Rightarrow> bytes \<Rightarrow> trace \<Rightarrow> unit outcome" where
  "new_feature h name tr =
    (case validate_name name ''new-feature'' of
       Inl e \<Rightarrow> (Inl e, tr)
     | Inr _ \<Rightarrow>
         (case hs_cwd_name h of
            None \<Rightarrow> (Inl No_Cwd, tr)
          | Some None \<Rightarrow> (Inl No_Cwd, tr)
          | Some (Some repo_name) \<Rightarrow>
              (let branch = ''feature/'' @ name;
                   worktree = ''../'' @ repo_name @ ''-'' @ name;
                   tr = snd (run h ''git'' [''fetch'', ''--quiet'', ''origin''] tr)
               in run h ''git'' [''worktree'', ''add'', ''-b'', branch, worktree] tr)))"

definition SPEC_TEMPLATE :: bytes where
  "SPEC_TEMPLATE = unlines
    [''# Spec: {name}'', [], ''- Status: draft'', ''- Created: {date}'', ''- Owner:'', [],
     ''## Problem'', ''What user-visible problem does this solve? Why now?'', [],
     ''## Goals'', ''- [ ]'', [], ''## Non-goals'', ''-'', [],
     ''## Design'', ''How it works and which modules it touches. For decoder work, tie each'',
     ''production/rule back to the gold corpus that motivates it (oracle-driven).'', [],
     ''## API / contract impact'', ''Rust public-API and/or PyO3-boundary changes (if any) and their stability impact.'', [],
     ''## Testing plan'', ''Unit / integration / chaos / mutation / fuzz coverage for this change.'', [],
     ''## Risks & rollout'', ''Failure modes, feature-flagging, and how we roll back.'']"

definition render_spec :: "bytes \<Rightarrow> bytes \<Rightarrow> bytes" where
  "render_spec name date = str_replace (str_replace SPEC_TEMPLATE ''{name}'' name) ''{date}'' date"

definition spec :: "host \<Rightarrow> bytes \<Rightarrow> trace \<Rightarrow> unit outcome" where
  "spec h name tr =
    (case validate_name name ''spec'' of
       Inl e \<Rightarrow> (Inl e, tr)
     | Inr _ \<Rightarrow>
         (let out = ''specs/'' @ name @ ''.md''
          in if hs_exists h tr out then (Inl (Spec_Exists out), tr)
             else and_then (create_dir_all h ''specs'' tr) (\<lambda>_ tr.
               case today_utc_ymd (hs_clock h) of
                 None \<Rightarrow> (Inl Panicked, tr)
               | Some today \<Rightarrow> write_file h out (render_spec name today) tr)))"

section \<open>The documentation check\<close>

definition SOUNDNESS_REPLAY_SRC :: path where "SOUNDNESS_REPLAY_SRC = ''tests/soundness_replay.rs''"
definition SELFCHECK_CORPUS_SRC :: path where "SELFCHECK_CORPUS_SRC = ''tests/selfcheck_corpus.rs''"
definition L2_SOUNDNESS_SRC :: path where "L2_SOUNDNESS_SRC = ''tests/l2_soundness.rs''"
definition L2_PROPERTIES_SRC :: path where "L2_PROPERTIES_SRC = ''tests/l2_properties.rs''"
definition GOLD_CORPUS :: path where "GOLD_CORPUS = ''corpus/gold_queries.jsonl''"
definition LABELER_SRC :: path where "LABELER_SRC = ''scripts/label-differential.mjs''"
definition ENGINE_PIN_CONST :: bytes where "ENGINE_PIN_CONST = ''PINNED_ENGINE_VERSION''"
definition GRAMMAR_DOC :: path where "GRAMMAR_DOC = ''docs/spec/grammar.md''"
definition OVERVIEW_DOC :: path where "OVERVIEW_DOC = ''docs/spec/overview.md''"
definition DECODER_TESTING_DOC :: path where "DECODER_TESTING_DOC = ''docs/methodology/decoder-testing.md''"
definition SORT_DIRECTION_LITERALS :: "bytes list" where
  "SORT_DIRECTION_LITERALS = [''SortDirection.ASC'', ''SortDirection.DESC'']"
definition MAP_STEP :: bytes where "MAP_STEP = ''->map(''"

text \<open>The sum of two \<open>usize\<close> values panics when it overflows.\<close>

definition usize_add :: "usize \<Rightarrow> usize \<Rightarrow> trace \<Rightarrow> usize outcome" where
  "usize_add a b tr = (if a + b < 2 ^ 64 then Inr (a + b) else Inl Panicked, tr)"

text \<open>Facts 1 and 2: the counts; the result holds the gold total and the contradictions.\<close>

definition count_facts :: "host \<Rightarrow> trace \<Rightarrow> (usize \<times> doc_error list) outcome" where
  "count_facts h tr =
    and_then (read_usize_const h SOUNDNESS_REPLAY_SRC ''ARM_A'' tr) (\<lambda>arm_a tr.
    and_then (read_usize_const h SOUNDNESS_REPLAY_SRC ''ARM_C'' tr) (\<lambda>arm_c tr.
    and_then (read_usize_const h SELFCHECK_CORPUS_SRC ''EXPECTED_GOLD_RECORDS'' tr) (\<lambda>gold tr.
    and_then (usize_add arm_a arm_c tr) (\<lambda>arms tr.
    let errors = (if arms \<noteq> gold then [Gold_Consts_Disagree arms gold] else []) in
    and_then (count_corpus_records h GOLD_CORPUS tr) (\<lambda>corpus tr.
    let errors = errors @ (if corpus \<noteq> gold then [Corpus_Count_Wrong corpus gold] else []) in
    and_then (read_usize_const h L2_SOUNDNESS_SRC ''IN_SCOPE_ARM_A'' tr) (\<lambda>in_a tr.
    and_then (read_usize_const h L2_SOUNDNESS_SRC ''IN_SCOPE_ARM_C'' tr) (\<lambda>in_c tr.
    and_then (read_usize_const h L2_SOUNDNESS_SRC ''IN_SCOPE_TOTAL'' tr) (\<lambda>in_total tr.
    and_then (usize_add in_a in_c tr) (\<lambda>in_sum tr.
    let errors = errors @ (if in_sum \<noteq> in_total then [Scope_Consts_Disagree in_a in_c in_total] else []) in
    and_then (read_usize_const h L2_PROPERTIES_SRC ''IN_SCOPE_TOTAL'' tr) (\<lambda>in_total_props tr.
    (Inr (gold, errors @ (if in_total_props \<noteq> in_total then [Scope_Total_Drifted in_total in_total_props] else [])),
     tr)))))))))))"

text \<open>Fact 3: the module tree.\<close>

definition doc_module_names :: "host \<Rightarrow> trace \<Rightarrow> bytes set outcome" where
  "doc_module_names h tr =
    and_then (read_to_string h ARCHITECTURE_DOC tr) (\<lambda>arch tr. (module_names_in_tree arch, tr))"

definition module_errors :: "bytes set \<Rightarrow> bytes set \<Rightarrow> doc_error list" where
  "module_errors doc_modules src_modules =
    (let ghosts = doc_modules - src_modules; missing = src_modules - doc_modules
     in (if ghosts \<noteq> {} then [Ghost_Modules ghosts] else []) @
        (if missing \<noteq> {} then [Omitted_Modules missing] else []))"

text \<open>Fact 4: the allowlist in the documents; the ratios.\<close>

definition allowlist_errors :: "(path \<times> bytes) list \<Rightarrow> doc_error list" where
  "allowlist_errors docs =
    concat (map (\<lambda>(p, text).
      map (Allowlist_Contradicted p) (filter (\<lambda>ts. set ts \<noteq> set CORE_DEP_ALLOWLIST) (allowlist_sets text))) docs)"

definition ratio_errors :: "usize \<Rightarrow> (path \<times> bytes) list \<Rightarrow> doc_error list" where
  "ratio_errors gold docs =
    concat (map (\<lambda>(p, text).
      map (Gold_Ratio_Wrong p) (filter (\<lambda>n. n \<noteq> gold) (gold_ratio_citations text))) docs)"

text \<open>Facts 5 to 7: the engine version, the sort literals and the \<open>map\<close> count.\<close>

fun map_citations :: "host \<Rightarrow> nat \<Rightarrow> path list \<Rightarrow> doc_error list \<Rightarrow> trace \<Rightarrow> doc_error list outcome" where
  "map_citations h map_gold [] errors tr = (Inr errors, tr)"
| "map_citations h map_gold (doc # docs) errors tr =
    and_then (read_to_string h doc tr) (\<lambda>text tr.
      map_citations h map_gold docs
        (errors @ (if \<not> str_contains text (''`map` ('' @ decimal map_gold @ '' gold'')
          then [Map_Count_Not_Cited doc map_gold] else [])) tr)"

definition citation_facts :: "host \<Rightarrow> trace \<Rightarrow> doc_error list outcome" where
  "citation_facts h tr =
    and_then (read_js_str_const h LABELER_SRC ENGINE_PIN_CONST tr) (\<lambda>engine_pin tr.
    and_then (read_to_string h GRAMMAR_DOC tr) (\<lambda>grammar_doc tr.
    let errors = (if \<not> str_contains grammar_doc engine_pin then [Engine_Not_Cited engine_pin] else []) in
    and_then (count_corpus_occurrences h GOLD_CORPUS SORT_DIRECTION_LITERALS tr) (\<lambda>sort_direction tr.
    let errors = errors @
      (if \<not> str_contains grammar_doc (''('' @ decimal sort_direction @ '' occurrences)'')
       then [Sort_Count_Not_Cited sort_direction] else []) in
    and_then (count_corpus_records_with h GOLD_CORPUS MAP_STEP tr) (\<lambda>map_gold tr.
    map_citations h map_gold [OVERVIEW_DOC, DECODER_TESTING_DOC] errors tr))))"

text \<open>Sequencing with a step that may not end.\<close>

definition and_walk :: "'a outcome option \<Rightarrow> ('a \<Rightarrow> trace \<Rightarrow> 'b outcome option) \<Rightarrow> 'b outcome option" where
  "and_walk r k = (case r of None \<Rightarrow> None | Some (Inl e, tr) \<Rightarrow> Some (Inl e, tr) | Some (Inr x, tr) \<Rightarrow> k x tr)"

definition check_doc_facts :: "host \<Rightarrow> trace \<Rightarrow> unit outcome option" where
  "check_doc_facts h tr =
    and_walk (Some (count_facts h tr)) (\<lambda>(gold, errors) tr.
    and_walk (Some (doc_module_names h tr)) (\<lambda>doc_modules tr.
    and_walk (map_option (\<lambda>r. (r, tr)) (src_module_names h tr)) (\<lambda>src_modules tr.
    let errors = errors @ module_errors doc_modules src_modules in
    and_walk (map_option (\<lambda>r. (r, tr)) (collect_docs h tr)) (\<lambda>docs tr.
    let errors = errors @ allowlist_errors docs @ ratio_errors gold docs in
    and_walk (Some (citation_facts h tr)) (\<lambda>citations tr.
    let errors = errors @ citations in
    Some (if errors \<noteq> [] then Inl (Doc_Drift errors) else Inr (), tr))))))"

section \<open>The pipeline and the dispatch\<close>

definition CI_LINTS :: "bytes list list" where
  "CI_LINTS =
    [[''fmt'', ''--all'', ''--check''],
     [''clippy'', ''--workspace'', ''--all-targets'', ''--'', ''-D'', ''warnings''],
     [''clippy'', ''--workspace'', ''--all-targets'', ''--all-features'', ''--'', ''-D'', ''warnings'']]"

definition ci :: "host \<Rightarrow> trace \<Rightarrow> unit outcome option" where
  "ci h tr =
    and_walk (Some (run_cargo_steps h CI_LINTS tr)) (\<lambda>_ tr.
    and_walk (Some (check_core_deplight h tr)) (\<lambda>_ tr.
    and_walk (check_doc_facts h tr) (\<lambda>_ tr.
    and_walk (Some (run h ''cargo'' [''test'', ''--workspace'', ''--all-targets''] tr)) (\<lambda>_ tr.
    Some (run h ''cargo'' [''test'', ''--workspace'', ''--doc'', ''--all-features''] tr)))))"

datatype task_command =
    Ci
  | Sweep
  | TestLegend
  | Coverage bool
  | ReleasePlzCheck
  | CheckCoreDeplight
  | CheckDocFacts
  | PublicApi bool
  | NewFeature bytes
  | Spec bytes
  | FuzzCi u64

fun main_dispatch :: "host \<Rightarrow> task_command \<Rightarrow> trace \<Rightarrow> unit outcome option" where
  "main_dispatch h Ci tr = ci h tr"
| "main_dispatch h Sweep tr = Some (sweep h tr)"
| "main_dispatch h TestLegend tr = Some (test_legend h tr)"
| "main_dispatch h (Coverage html) tr = Some (coverage h html tr)"
| "main_dispatch h ReleasePlzCheck tr = Some (release_plz_check h tr)"
| "main_dispatch h CheckCoreDeplight tr = Some (check_core_deplight h tr)"
| "main_dispatch h CheckDocFacts tr = check_doc_facts h tr"
| "main_dispatch h (PublicApi bless) tr = Some (public_api h bless tr)"
| "main_dispatch h (NewFeature name) tr = Some (new_feature h name tr)"
| "main_dispatch h (Spec name) tr = Some (spec h name tr)"
| "main_dispatch h (FuzzCi secs) tr = Some (fuzz_ci h secs tr)"

end
