(* ===== verification/Task_Props.thy ===== *)
theory Task_Props
  imports Tasks
begin

text \<open>
  What the build tasks guarantee: the order of their commands and where they stop, the teardown of the
  Legend stack, and the one file a scaffold writes.
\<close>

section \<open>Teardown\<close>

definition legend_up :: command where
  "legend_up = (''docker'', [''compose'', ''-f'', LEGEND_COMPOSE_FILE, ''up'', ''-d''])"
definition legend_tests :: command where
  "legend_tests = (''cargo'', [''nextest'', ''run'', ''--features'', ''legend''])"
definition legend_down :: command where
  "legend_down = (''docker'', [''compose'', ''-f'', LEGEND_COMPOSE_FILE, ''down''])"

lemma test_legend_commands:
  "test_legend h tr =
    and_then (run h (fst legend_up) (snd legend_up) tr) (\<lambda>_ tr.
      let (tested, tr) = run h (fst legend_tests) (snd legend_tests) tr;
          (torn_down, tr) = run h (fst legend_down) (snd legend_down) tr
      in (case (tested, torn_down) of
            (Inl test_err, Inl teardown_err) \<Rightarrow> Inl (With_Context test_err teardown_err)
          | (Inl test_err, Inr _) \<Rightarrow> Inl test_err
          | (Inr _, teardown) \<Rightarrow> teardown, tr))"
  by (simp add: test_legend_def legend_up_def legend_tests_def legend_down_def)

text \<open>C27: Whenever the Legend stack came up, the lane runs the tests and then the teardown, whatever the
  tests did; when it did not come up, nothing else runs.  The lane is green exactly when all three
  steps are, the failure of the tests is never lost, and a failed teardown is reported with it.\<close>

theorem legend_always_torn_down:
  "(if succeeds h tr legend_up
    then (let tr1 = tr @ [Ran legend_up]; tr2 = tr1 @ [Ran legend_tests];
              tested = fst (run h (fst legend_tests) (snd legend_tests) tr1);
              down = fst (run h (fst legend_down) (snd legend_down) tr2)
          in test_legend h tr =
               (if succeeds h tr1 legend_tests then down
                else if succeeds h tr2 legend_down then tested
                else Inl (With_Context (projl tested) (projl down)),
                tr2 @ [Ran legend_down]) \<and>
             (task_ok (test_legend h tr) \<longleftrightarrow> succeeds h tr1 legend_tests \<and> succeeds h tr2 legend_down))
    else \<not> task_ok (test_legend h tr) \<and> snd (test_legend h tr) = tr @ [Ran legend_up])"
proof (cases rule: run_cases [of h "fst legend_up" "snd legend_up" tr])
  case 1
  define tr1 tr2 where "tr1 = tr @ [Ran legend_up]" and "tr2 = tr1 @ [Ran legend_tests]"
  note tr = tr1_def [symmetric] tr2_def [symmetric]
  have up: "run h (fst legend_up) (snd legend_up) tr = (Inr (), tr1)" "succeeds h tr legend_up"
    using 1 by (simp_all add: tr1_def)
  show ?thesis
    unfolding Let_def tr test_legend_commands
    by (cases rule: run_cases [of h "fst legend_tests" "snd legend_tests" tr1];
        cases rule: run_cases [of h "fst legend_down" "snd legend_down" tr2])
      (simp_all add: up tr task_ok_def)
next
  case (2 e)
  then show ?thesis by (simp add: test_legend_commands task_ok_def)
qed

section \<open>Fail-fast\<close>

definition CI_PLAN :: "command list" where
  "CI_PLAN = map (Pair ''cargo'') (CI_LINTS @
    [PACKAGE_LIST, [''test'', ''--workspace'', ''--all-targets''],
     [''test'', ''--workspace'', ''--doc'', ''--all-features'']])"

text \<open>When the dependency gate passes: the scan of the manifest ends without a panic and finds no name outside the
  allowlist, and the listing of the package succeeds, is text, and names no file of the harness.\<close>

definition core_passes :: "host \<Rightarrow> trace \<Rightarrow> bool" where
  "core_passes h tr \<longleftrightarrow>
    (\<exists>manifest deps out.
      hs_read h tr CORE_MANIFEST = Some manifest \<and> core_dependency_entries manifest = Some deps \<and>
      set deps \<subseteq> set CORE_DEP_ALLOWLIST \<and>
      hs_run h tr (''cargo'', PACKAGE_LIST) = Some out \<and> out_status out = Exit_Code 0 \<and> utf8_valid (out_stdout out) \<and>
      (\<forall>l \<in> set (str_lines (out_stdout out)). \<not> prefix ''tests/'' (trim l) \<and> \<not> prefix ''corpus/'' (trim l)))"

lemma leaked_files_Nil:
  "leaked_files listed = [] \<longleftrightarrow>
    (\<forall>l \<in> set (str_lines listed). \<not> prefix ''tests/'' (trim l) \<and> \<not> prefix ''corpus/'' (trim l))"
  by (auto simp: leaked_files_def NON_CORE_PACKAGE_PREFIXES_def filter_empty_conv)

lemma run_stdout_Inr_iff:
  "run_stdout h p args tr = (Inr s, tr') \<longleftrightarrow> tr' = tr @ [Ran (p, args)] \<and>
    (\<exists>out. hs_run h tr (p, args) = Some out \<and> out_status out = Exit_Code 0 \<and> utf8_valid (out_stdout out) \<and> s = out_stdout out)"
  by (auto simp: run_stdout_def split: option.splits exit_status.splits if_splits)

lemma read_Inr_iff: "read_to_string h p tr = (Inr s, tr') \<longleftrightarrow> tr' = tr \<and> hs_read h tr p = Some s"
  by (auto simp: read_to_string_def split: option.splits)

lemma deplight_iff:
  "check_core_deplight h tr = (Inr (), tr') \<longleftrightarrow> tr' = tr @ [Ran (''cargo'', PACKAGE_LIST)] \<and> core_passes h tr"
proof -
  have allowed: "disallowed_core_deps deps CORE_DEP_ALLOWLIST = [] \<longleftrightarrow> set deps \<subseteq> set CORE_DEP_ALLOWLIST" for deps
    by (auto simp: disallowed_core_deps_def filter_empty_conv)
  have verdict: "((if b then Inl e else Inr ()), t) = (Inr (), t') \<longleftrightarrow> \<not> b \<and> t' = t" for b and e :: task_error and t t' :: trace
    by auto
  show ?thesis
  proof (cases "\<exists>manifest deps. hs_read h tr CORE_MANIFEST = Some manifest \<and> core_dependency_entries manifest = Some deps")
    case False
    then show ?thesis
      by (auto simp: check_core_deplight_def read_to_string_def core_passes_def split: option.splits)
  next
    case True
    then obtain manifest deps where "hs_read h tr CORE_MANIFEST = Some manifest" "core_dependency_entries manifest = Some deps"
      by blast
    then show ?thesis
      by (auto simp: check_core_deplight_def read_to_string_def core_passes_def Let_def allowed verdict
          and_then_Inr_iff run_stdout_Inr_iff leaked_files_Nil)
  qed
qed

lemma deplight_trace:
  "snd (check_core_deplight h tr) = tr \<and> \<not> task_ok (check_core_deplight h tr) \<or>
   snd (check_core_deplight h tr) = tr @ [Ran (''cargo'', PACKAGE_LIST)]"
proof -
  obtain r where "run_stdout h ''cargo'' PACKAGE_LIST tr = (r, tr @ [Ran (''cargo'', PACKAGE_LIST)])"
    by (metis prod.collapse run_stdout_trace)
  then show ?thesis
    by (cases r) (auto simp: check_core_deplight_def read_to_string_def task_ok_def Let_def split: option.splits)
qed

text \<open>The outcomes of the gate: nothing ran, or the listing ran.\<close>

lemma deplight_cases:
  obtains e where "check_core_deplight h tr = (Inl e, tr)"
  | e where "check_core_deplight h tr = (Inl e, tr @ [Ran (''cargo'', PACKAGE_LIST)])"
  | "check_core_deplight h tr = (Inr (), tr @ [Ran (''cargo'', PACKAGE_LIST)])"
    and "core_passes h tr" and "succeeds h tr (''cargo'', PACKAGE_LIST)"
proof (cases "fst (check_core_deplight h tr)")
  case (Inl e)
  then show thesis using that(1,2) deplight_trace [of h tr] by (metis prod.collapse)
next
  case (Inr u)
  then have "check_core_deplight h tr = (Inr (), snd (check_core_deplight h tr))" by (simp add: prod_eq_iff)
  then have ok: "check_core_deplight h tr = (Inr (), tr @ [Ran (''cargo'', PACKAGE_LIST)])" "core_passes h tr"
    using deplight_iff by metis+
  then show thesis using that(3) by (auto simp: core_passes_def succeeds_def)
qed

lemma and_then_trace: "(\<And>x tr'. snd r = tr' \<Longrightarrow> snd (k x tr') = tr') \<Longrightarrow> snd (and_then r k) = snd r"
  by (cases r; cases "fst r") auto

lemma doc_facts_trace: "check_doc_facts h tr = Some r \<Longrightarrow> snd r = tr"
proof -
  have usize: "snd (read_usize_const h p n tr) = tr" for p n tr
    unfolding read_usize_const_def by (subst and_then_trace) simp_all
  have js: "snd (read_js_str_const h p n tr) = tr" for p n tr
    unfolding read_js_str_const_def by (subst and_then_trace) simp_all
  have count: "snd (count_corpus_records h p tr) = tr" "snd (count_corpus_occurrences h p ns tr) = tr"
    "snd (count_corpus_records_with h p n tr) = tr" for p ns n tr
    unfolding count_corpus_records_def count_corpus_occurrences_def count_corpus_records_with_def
    by (subst and_then_trace; simp)+
  have add: "snd (usize_add a b tr) = tr" for a b tr by (simp add: usize_add_def)
  have counts: "snd (count_facts h tr) = tr" for tr
    unfolding count_facts_def Let_def by (subst and_then_trace; simp add: usize count add)+
  have mods: "snd (doc_module_names h tr) = tr" for tr
    unfolding doc_module_names_def by (subst and_then_trace) simp_all
  have maps: "snd (map_citations h n ds es tr) = tr" for n ds es tr
  proof (induction ds arbitrary: es tr)
    case (Cons d ds)
    then show ?case unfolding map_citations.simps by (subst and_then_trace) simp_all
  qed simp
  have cites: "snd (citation_facts h tr) = tr" for tr
    unfolding citation_facts_def Let_def by (subst and_then_trace; simp add: js count maps)+
  show "check_doc_facts h tr = Some r \<Longrightarrow> snd r = tr"
    using counts [of tr] mods [of tr] cites [of tr]
    by (auto simp: check_doc_facts_def and_walk_def Let_def split: option.splits prod.splits sum.splits if_splits)
qed

text \<open>The fuzz run is fail-fast over its targets.\<close>

lemma fuzz_targets_all:
  "fuzz_targets h budget targets =
    exec_all (\<lambda>c. run h (fst c) (snd c))
      (map (\<lambda>t. (''cargo'', [''+nightly'', ''fuzz'', ''run'', t, ''--'', budget])) targets)"
proof (induction targets)
  case Nil
  show ?case by (rule ext) simp
next
  case (Cons t targets)
  show ?case by (rule ext) (simp add: Cons)
qed

lemma fuzz_ci_prefix:
  "ran_prefix (succeeds h) tr
    (map (\<lambda>t. (''cargo'', [''+nightly'', ''fuzz'', ''run'', t, ''--'', ''-max_total_time='' @ decimal (unat secs)])) FUZZ_TARGETS)
    (fuzz_ci h secs tr)"
  unfolding fuzz_ci_def fuzz_targets_all by (rule tool.exec_all_prefix)

text \<open>A pipeline stage after a successful prefix.\<close>

definition stage_ok :: "host \<Rightarrow> trace \<Rightarrow> command list \<Rightarrow> command list \<Rightarrow> 'a outcome \<Rightarrow> bool" where
  "stage_ok h tr cs plan r \<longleftrightarrow>
    (\<exists>ds. prefix ds plan \<and> snd r = tr @ map Ran ds \<and>
      (if task_ok r then ds = cs \<and> all_succeed h tr cs else all_succeed h tr (butlast ds)))"

lemma stage_fail:
  assumes "all_succeed h tr cs" and "prefix (cs @ c) plan" and "length c \<le> 1"
  shows "stage_ok h tr xs plan (Inl e, tr @ map Ran cs @ map Ran c)"
proof -
  have "all_succeed h tr (butlast (cs @ c))"
  proof (cases c)
    case Nil
    then show ?thesis using assms(1) by (cases cs rule: rev_cases) (simp_all add: all_succeed_append)
  next
    case (Cons a d)
    with assms(3) have "c = [a]" by simp
    with assms(1) show ?thesis by (simp add: butlast_append)
  qed
  with assms(2) show ?thesis
    unfolding stage_ok_def by (intro exI [of _ "cs @ c"]) (simp add: task_ok_def)
qed

lemma CI_PLAN_split:
  "CI_PLAN = map (Pair ''cargo'') CI_LINTS @ [(''cargo'', PACKAGE_LIST),
    (''cargo'', [''test'', ''--workspace'', ''--all-targets'']),
    (''cargo'', [''test'', ''--workspace'', ''--doc'', ''--all-features''])]"
  by (simp add: CI_PLAN_def)

lemma ci_tests:
  assumes "all_succeed h tr (map (Pair ''cargo'') CI_LINTS @ [(''cargo'', PACKAGE_LIST)])"
    and "tr1 = tr @ map Ran (map (Pair ''cargo'') CI_LINTS @ [(''cargo'', PACKAGE_LIST)])"
  shows "stage_ok h tr CI_PLAN CI_PLAN
    (and_then (run h ''cargo'' [''test'', ''--workspace'', ''--all-targets''] tr1)
      (\<lambda>_ tr. run h ''cargo'' [''test'', ''--workspace'', ''--doc'', ''--all-features''] tr))"
proof -
  define pre where "pre = map (Pair ''cargo'') CI_LINTS @ [(''cargo'', PACKAGE_LIST)]"
  define t1 t2 where "t1 = (''cargo'', [''test'', ''--workspace'', ''--all-targets''])"
    and "t2 = (''cargo'', [''test'', ''--workspace'', ''--doc'', ''--all-features''])"
  have plan: "CI_PLAN = pre @ [t1, t2]" by (simp add: CI_PLAN_split pre_def t1_def t2_def)
  have pre: "all_succeed h tr pre" and tr1: "tr1 = tr @ map Ran pre" using assms by (simp_all only: pre_def)
  have stage: "stage_ok h tr CI_PLAN CI_PLAN
      (and_then (run h (fst t1) (snd t1) tr1) (\<lambda>_ tr. run h (fst t2) (snd t2) tr))"
  proof (cases rule: run_cases [of h "fst t1" "snd t1" tr1])
    case first: 1
    show ?thesis
    proof (cases rule: run_cases [of h "fst t2" "snd t2" "tr1 @ [Ran t1]"])
      case 1
      then show ?thesis
        using first pre tr1 by (auto simp: stage_ok_def plan task_ok_def all_succeed_append)
    next
      case (2 e)
      then show ?thesis
        using first pre tr1 stage_fail [of h tr "pre @ [t1]" "[t2]" CI_PLAN CI_PLAN e]
        by (simp add: plan all_succeed_append)
    qed
  next
    case (2 e)
    then show ?thesis
      using pre tr1 stage_fail [of h tr pre "[t1]" CI_PLAN CI_PLAN e] by (simp add: plan)
  qed
  then show ?thesis by (simp add: t1_def t2_def)
qed

definition ci_verdict :: "host \<Rightarrow> trace \<Rightarrow> unit outcome \<Rightarrow> bool" where
  "ci_verdict h tr r \<longleftrightarrow> (\<exists>ds. prefix ds CI_PLAN \<and> snd r = tr @ map Ran ds \<and>
    (if task_ok r
     then ds = CI_PLAN \<and> all_succeed h tr CI_PLAN \<and>
       core_passes h (tr @ map Ran (take 3 CI_PLAN)) \<and>
       check_doc_facts h (tr @ map Ran (take 4 CI_PLAN)) = Some (Inr (), tr @ map Ran (take 4 CI_PLAN))
     else all_succeed h tr (butlast ds)))"

lemma ci_stopped: "stage_ok h tr xs CI_PLAN (Inl e, tr') \<Longrightarrow> ci_verdict h tr (Inl e, tr')"
  by (auto simp: ci_verdict_def stage_ok_def task_ok_def)

definition lint_commands :: "command list" where
  "lint_commands = map (Pair ''cargo'') CI_LINTS"

lemma CI_PLAN_take:
  "take 3 CI_PLAN = lint_commands" "take 4 CI_PLAN = lint_commands @ [(''cargo'', PACKAGE_LIST)]"
  by (simp_all add: CI_PLAN_split lint_commands_def CI_LINTS_def)

lemma ci_stopped_gate:
  assumes "all_succeed h tr lint_commands" and "c = [] \<or> c = [(''cargo'', PACKAGE_LIST)]"
  shows "ci_verdict h tr (Inl e, tr @ map Ran lint_commands @ map Ran c)"
proof (rule ci_stopped [OF stage_fail [OF assms(1)]])
  show "prefix (lint_commands @ c) CI_PLAN"
    using assms(2) by (auto simp: CI_PLAN_split lint_commands_def)
qed (use assms(2) in auto)

text \<open>The pipeline behind the dependency gate.\<close>

lemma ci_behind_gate:
  assumes "all_succeed h tr (lint_commands @ [(''cargo'', PACKAGE_LIST)])"
    and tr2: "tr2 = tr @ map Ran (lint_commands @ [(''cargo'', PACKAGE_LIST)])"
    and light: "core_passes h (tr @ map Ran lint_commands)"
    and r: "and_walk (check_doc_facts h tr2) (\<lambda>_ tr.
      and_walk (Some (run h ''cargo'' [''test'', ''--workspace'', ''--all-targets''] tr)) (\<lambda>_ tr.
      Some (run h ''cargo'' [''test'', ''--workspace'', ''--doc'', ''--all-features''] tr))) = Some r"
  shows "ci_verdict h tr r"
proof -
  obtain d where d: "check_doc_facts h tr2 = Some (d, tr2)"
    using r doc_facts_trace [of h tr2] by (cases "check_doc_facts h tr2") (auto simp: and_walk_def)
  show ?thesis
  proof (cases d)
    case (Inl e)
    then have "r = (Inl e, tr @ map Ran lint_commands @ map Ran [(''cargo'', PACKAGE_LIST)])"
      using r d by (simp add: and_walk_def tr2)
    then show ?thesis
      using ci_stopped_gate [of h tr "[(''cargo'', PACKAGE_LIST)]" e] assms(1) by (simp add: all_succeed_append)
  next
    case (Inr v)
    define tests where "tests = and_then (run h ''cargo'' [''test'', ''--workspace'', ''--all-targets''] tr2)
      (\<lambda>_ tr. run h ''cargo'' [''test'', ''--workspace'', ''--doc'', ''--all-features''] tr)"
    have "r = tests"
      using r d Inr by (auto simp: and_walk_def and_then_def tests_def split: prod.splits sum.splits)
    moreover have "stage_ok h tr CI_PLAN CI_PLAN tests"
      unfolding tests_def by (rule ci_tests [folded lint_commands_def, OF assms(1) tr2])
    ultimately show ?thesis
      using d Inr light unfolding ci_verdict_def stage_ok_def tr2 CI_PLAN_take by (auto split: if_splits)
  qed
qed

lemma ci_verdict_holds:
  assumes "ci h tr = Some r"
  shows "ci_verdict h tr r"
proof -
  obtain ds where ds: "prefix ds lint_commands" "snd (run_cargo_steps h CI_LINTS tr) = tr @ map Ran ds"
    "task_ok (run_cargo_steps h CI_LINTS tr) \<longrightarrow> ds = lint_commands \<and> all_succeed h tr lint_commands"
    "\<not> task_ok (run_cargo_steps h CI_LINTS tr) \<longrightarrow> all_succeed h tr (butlast ds)"
    using run_cargo_steps_prefix [of h tr CI_LINTS] by (auto simp: ran_prefix_def lint_commands_def split: if_splits)
  have "prefix ds CI_PLAN" using ds(1) by (auto simp: CI_PLAN_split lint_commands_def prefix_append)
  show ?thesis
  proof (cases "fst (run_cargo_steps h CI_LINTS tr)")
    case (Inl e)
    then have run: "run_cargo_steps h CI_LINTS tr = (Inl e, tr @ map Ran ds)" using ds(2) by (metis prod.collapse)
    then have "all_succeed h tr (butlast ds)" using ds(4) by (simp add: task_ok_def)
    with \<open>prefix ds CI_PLAN\<close> have "stage_ok h tr [] CI_PLAN (Inl e :: task_error + unit, tr @ map Ran ds)"
      by (auto simp: stage_ok_def task_ok_def)
    then show ?thesis using assms ci_stopped run by (auto simp: ci_def and_walk_def)
  next
    case (Inr u)
    define tr1 where "tr1 = tr @ map Ran lint_commands"
    have lints: "run_cargo_steps h CI_LINTS tr = (Inr (), tr1)" and ok: "all_succeed h tr lint_commands"
      using ds(2,3) Inr by (auto simp: tr1_def prod_eq_iff task_ok_def)
    note gate = ci_stopped_gate [OF ok]
    show ?thesis
      using assms lints gate [of "[]"] gate [of "[(''cargo'', PACKAGE_LIST)]"]
        ci_behind_gate [of h tr "tr1 @ [Ran (''cargo'', PACKAGE_LIST)]" r] ok
      by (cases rule: deplight_cases [of h tr1]) (auto simp: ci_def and_walk_def tr1_def all_succeed_append)
  qed
qed

lemma all_succeed_butlast: "all_succeed h tr cs \<Longrightarrow> all_succeed h tr (butlast cs)"
  by (cases cs rule: rev_cases) (simp_all add: all_succeed_append)

lemma run_succeeds: "succeeds h tr (p, args) \<Longrightarrow> run h p args tr = (Inr (), tr @ [Ran (p, args)])"
  by (cases rule: run_cases [of h p args tr]) simp_all

lemma ci_green:
  assumes "all_succeed h tr CI_PLAN" and "core_passes h (tr @ map Ran (take 3 CI_PLAN))"
    and "check_doc_facts h (tr @ map Ran (take 4 CI_PLAN)) = Some (Inr (), tr @ map Ran (take 4 CI_PLAN))"
  shows "ci h tr = Some (Inr (), tr @ map Ran CI_PLAN)"
proof -
  define t1 t2 where "t1 = [''test'', ''--workspace'', ''--all-targets'']"
    and "t2 = [''test'', ''--workspace'', ''--doc'', ''--all-features'']"
  define listed where "listed = tr @ map Ran (take 4 CI_PLAN)"
  have plan: "CI_PLAN = take 4 CI_PLAN @ [(''cargo'', t1), (''cargo'', t2)]" "take 4 CI_PLAN = lint_commands @ [(''cargo'', PACKAGE_LIST)]"
    unfolding CI_PLAN_take by (simp_all add: CI_PLAN_split lint_commands_def t1_def t2_def)
  have "all_succeed h tr (take 4 CI_PLAN @ [(''cargo'', t1), (''cargo'', t2)])" using assms(1) plan(1) by metis
  then have ok: "all_succeed h tr lint_commands" "succeeds h listed (''cargo'', t1)"
    "succeeds h (listed @ [Ran (''cargo'', t1)]) (''cargo'', t2)"
    by (simp_all add: all_succeed_append listed_def plan(2))
  have "task_ok (run_cargo_steps h CI_LINTS tr)"
    using ok(1) unfolding run_cargo_steps_all tool.exec_all_ok lint_commands_def .
  then have lints: "run_cargo_steps h CI_LINTS tr = (Inr (), tr @ map Ran (take 3 CI_PLAN))"
    using run_cargo_steps_prefix [of h tr CI_LINTS]
    by (cases "fst (run_cargo_steps h CI_LINTS tr)")
      (auto simp: ran_prefix_def task_ok_def prod_eq_iff CI_PLAN_take lint_commands_def)
  have gate: "check_core_deplight h (tr @ map Ran (take 3 CI_PLAN)) = (Inr (), listed)"
    using assms(2) by (simp add: deplight_iff CI_PLAN_take listed_def)
  have "ci h tr = and_walk (Some (run h ''cargo'' t1 listed)) (\<lambda>_ tr. Some (run h ''cargo'' t2 tr))"
    using assms(3) unfolding ci_def lints listed_def [symmetric] t1_def [symmetric] t2_def [symmetric]
    by (simp add: and_walk_def gate)
  also have "\<dots> = Some (Inr (), listed @ [Ran (''cargo'', t1), Ran (''cargo'', t2)])"
    using run_succeeds [OF ok(2)] run_succeeds [OF ok(3)] by (simp add: and_walk_def)
  also have "listed @ [Ran (''cargo'', t1), Ran (''cargo'', t2)] = tr @ map Ran CI_PLAN"
    by (subst plan(1)) (simp add: listed_def)
  finally show ?thesis .
qed

lemma ci_endless:
  assumes "ci h tr = None"
  shows "all_succeed h tr (take 4 CI_PLAN) \<and> core_passes h (tr @ map Ran (take 3 CI_PLAN)) \<and>
    check_doc_facts h (tr @ map Ran (take 4 CI_PLAN)) = None"
proof -
  have lints: "run_cargo_steps h CI_LINTS tr = (Inr (), tr @ map Ran lint_commands)" "all_succeed h tr lint_commands"
  proof -
    from assms have "task_ok (run_cargo_steps h CI_LINTS tr)"
      by (auto simp: ci_def and_walk_def task_ok_def split: prod.splits sum.splits)
    moreover from this have "fst (run_cargo_steps h CI_LINTS tr) = Inr ()"
      by (cases "fst (run_cargo_steps h CI_LINTS tr)") (simp_all add: task_ok_def)
    ultimately show "run_cargo_steps h CI_LINTS tr = (Inr (), tr @ map Ran lint_commands)" "all_succeed h tr lint_commands"
      using run_cargo_steps_prefix [of h tr CI_LINTS]
      by (auto simp: ran_prefix_def lint_commands_def task_ok_def prod_eq_iff)
  qed
  show ?thesis
    using assms lints
    by (cases rule: deplight_cases [of h "tr @ map Ran lint_commands"])
      (auto simp: ci_def and_walk_def CI_PLAN_take all_succeed_append split: option.splits prod.splits sum.splits)
qed

text \<open>C23: The pipeline is fail-fast and its verdict is exact.  Its commands are a prefix of the plan, in
  order, every one but the last succeeded, and nothing but these commands happened.  It is green exactly when
  the whole plan ran and every command of it succeeded, the dependency gate passed on the manifest the
  lints left behind, and the documentation check then was green; and then a manifest in the plainly printed form
  of the dependency gate declares no required crate outside the allowlist.  (For other manifests a passing gate
  says only what its scan found.)  The one way not to end is a documentation check that does not end, behind four
  commands that succeeded and a gate that passed.\<close>

theorem ci_fail_fast:
  "let linted = tr @ map Ran (take 3 CI_PLAN); listed = tr @ map Ran (take 4 CI_PLAN)
   in case ci h tr of
        None \<Rightarrow> all_succeed h tr (take 4 CI_PLAN) \<and> core_passes h linted \<and> check_doc_facts h listed = None
      | Some r \<Rightarrow>
          (\<exists>ds. prefix ds CI_PLAN \<and> snd r = tr @ map Ran ds \<and> all_succeed h tr (butlast ds) \<and> (task_ok r \<longrightarrow> ds = CI_PLAN)) \<and>
          (task_ok r \<longleftrightarrow>
             all_succeed h tr CI_PLAN \<and> core_passes h linted \<and> check_doc_facts h listed = Some (Inr (), listed)) \<and>
          (\<forall>m. task_ok r \<and> list_all table_ok m \<and> hs_read h linted CORE_MANIFEST = Some (manifest_text m) \<longrightarrow>
             set (required_crates m) \<subseteq> set CORE_DEP_ALLOWLIST)"
proof (cases "ci h tr")
  case None
  then show ?thesis using ci_endless [OF None] by (simp add: Let_def)
next
  case (Some r)
  from ci_verdict_holds [OF Some] obtain ds where ds: "prefix ds CI_PLAN" "snd r = tr @ map Ran ds"
    and verdict: "if task_ok r
      then ds = CI_PLAN \<and> all_succeed h tr CI_PLAN \<and> core_passes h (tr @ map Ran (take 3 CI_PLAN)) \<and>
        check_doc_facts h (tr @ map Ran (take 4 CI_PLAN)) = Some (Inr (), tr @ map Ran (take 4 CI_PLAN))
      else all_succeed h tr (butlast ds)"
    unfolding ci_verdict_def by blast
  from verdict have started: "all_succeed h tr (butlast ds)" by (auto split: if_splits intro: all_succeed_butlast)
  have green: "task_ok r" if "all_succeed h tr CI_PLAN" "core_passes h (tr @ map Ran (take 3 CI_PLAN))"
    "check_doc_facts h (tr @ map Ran (take 4 CI_PLAN)) = Some (Inr (), tr @ map Ran (take 4 CI_PLAN))"
    using ci_green [OF that] Some by (simp add: task_ok_def)
  have light: "set (required_crates m) \<subseteq> set CORE_DEP_ALLOWLIST"
    if "core_passes h tr'" "list_all table_ok m" "hs_read h tr' CORE_MANIFEST = Some (manifest_text m)" for m tr'
    using that printed_scan [of m] by (auto simp: core_passes_def)
  show ?thesis
    using ds verdict started green light by (auto simp: Some Let_def split: if_splits)
qed

text \<open>A host on which every command succeeds, with a manifest of one allowed crate and documents that agree
  with the sources.\<close>

definition green_manifest :: "table list" where
  "green_manifest = [Other_Table False ''package'' [''edition = '' @ quoted ''2021''], Deps_Table [((''serde'', Plain ''1.0''), [])]]"

definition const_line :: "bytes \<Rightarrow> nat \<Rightarrow> bytes" where
  "const_line name n = ''const '' @ name @ '': usize = '' @ decimal n @ '';''"

lemma const_lines:
  assumes "list_all (\<lambda>l. line_text l \<and> usize_const_line name l = None) pre"
    and "name \<noteq> []" and "list_all word_byte name" and "n < 2 ^ 64"
  shows "parse_usize_const (unlines (pre @ const_line name n # post)) name = Some n"
  using usize_const_read [OF assms, of 0 "unlines post"] by (simp add: const_line_def unlines_def)

definition green_files :: "path \<Rightarrow> bytes option" where
  "green_files = map_of
    [(CORE_MANIFEST, manifest_text green_manifest),
     (SOUNDNESS_REPLAY_SRC, unlines [const_line ''ARM_A'' 2, const_line ''ARM_C'' 0]),
     (SELFCHECK_CORPUS_SRC, unlines [const_line ''EXPECTED_GOLD_RECORDS'' 2]),
     (GOLD_CORPUS, unlines [''|A.all()->map(x|$x)'', ''|B.all()'']),
     (L2_SOUNDNESS_SRC, unlines [const_line ''IN_SCOPE_ARM_A'' 1, const_line ''IN_SCOPE_ARM_C'' 0,
       const_line ''IN_SCOPE_TOTAL'' 1]),
     (L2_PROPERTIES_SRC, unlines [const_line ''IN_SCOPE_TOTAL'' 1]),
     (ARCHITECTURE_DOC, MODULE_TREE_HEADING @ ''``` lib.txt ```''),
     (DOC_README, ''The gold records.''),
     (LABELER_SRC, ''const PINNED_ENGINE_VERSION = '' @ quoted ''4.2''),
     (GRAMMAR_DOC, ''Engine 4.2 (0 occurrences)''),
     (OVERVIEW_DOC, ''`map` (1 gold)''), (DECODER_TESTING_DOC, ''`map` (1 gold)'')]"

definition green_host :: host where
  "green_host = bare_host\<lparr>hs_run := \<lambda>_ _. Some \<lparr>out_status = Exit_Code 0, out_stdout = ''src/lib.rs'', out_stderr = []\<rparr>,
    hs_read := \<lambda>_. green_files, hs_dir := \<lambda>_ d. if d = ''src'' \<or> d = ''docs'' then Some [] else None\<rparr>"

lemma green_reads:
  "hs_read green_host tr CORE_MANIFEST = Some (manifest_text green_manifest)"
  "hs_read green_host tr SOUNDNESS_REPLAY_SRC = Some (unlines [const_line ''ARM_A'' 2, const_line ''ARM_C'' 0])"
  "hs_read green_host tr SELFCHECK_CORPUS_SRC = Some (unlines [const_line ''EXPECTED_GOLD_RECORDS'' 2])"
  "hs_read green_host tr GOLD_CORPUS = Some (unlines [''|A.all()->map(x|$x)'', ''|B.all()''])"
  "hs_read green_host tr L2_SOUNDNESS_SRC = Some (unlines [const_line ''IN_SCOPE_ARM_A'' 1,
    const_line ''IN_SCOPE_ARM_C'' 0, const_line ''IN_SCOPE_TOTAL'' 1])"
  "hs_read green_host tr L2_PROPERTIES_SRC = Some (unlines [const_line ''IN_SCOPE_TOTAL'' 1])"
  "hs_read green_host tr ARCHITECTURE_DOC = Some (MODULE_TREE_HEADING @ ''``` lib.txt ```'')"
  "hs_read green_host tr DOC_README = Some ''The gold records.''"
  "hs_read green_host tr LABELER_SRC = Some (''const PINNED_ENGINE_VERSION = '' @ quoted ''4.2'')"
  "hs_read green_host tr GRAMMAR_DOC = Some ''Engine 4.2 (0 occurrences)''"
  "hs_read green_host tr OVERVIEW_DOC = Some ''`map` (1 gold)''"
  "hs_read green_host tr DECODER_TESTING_DOC = Some ''`map` (1 gold)''"
  by (simp_all add: green_host_def green_files_def CORE_MANIFEST_def SOUNDNESS_REPLAY_SRC_def SELFCHECK_CORPUS_SRC_def
      GOLD_CORPUS_def L2_SOUNDNESS_SRC_def L2_PROPERTIES_SRC_def ARCHITECTURE_DOC_def DOC_README_def LABELER_SRC_def
      GRAMMAR_DOC_def OVERVIEW_DOC_def DECODER_TESTING_DOC_def)

lemma green_counts: "count_facts green_host tr = (Inr (2, []), tr)"
proof -
  have words: "list_all word_byte ''ARM_A''" "list_all word_byte ''ARM_C''" "list_all word_byte ''EXPECTED_GOLD_RECORDS''"
    "list_all word_byte ''IN_SCOPE_ARM_A''" "list_all word_byte ''IN_SCOPE_ARM_C''" "list_all word_byte ''IN_SCOPE_TOTAL''"
    by code_simp+
  have others: "list_all (\<lambda>l. line_text l \<and> usize_const_line ''ARM_C'' l = None) [const_line ''ARM_A'' 2]"
    "list_all (\<lambda>l. line_text l \<and> usize_const_line ''IN_SCOPE_ARM_C'' l = None) [const_line ''IN_SCOPE_ARM_A'' 1]"
    "list_all (\<lambda>l. line_text l \<and> usize_const_line ''IN_SCOPE_TOTAL'' l = None)
      [const_line ''IN_SCOPE_ARM_A'' 1, const_line ''IN_SCOPE_ARM_C'' 0]"
    by code_simp+
  have "parse_usize_const (unlines [const_line ''ARM_A'' 2, const_line ''ARM_C'' 0]) ''ARM_A'' = Some 2"
    "parse_usize_const (unlines [const_line ''ARM_A'' 2, const_line ''ARM_C'' 0]) ''ARM_C'' = Some 0"
    "parse_usize_const (unlines [const_line ''EXPECTED_GOLD_RECORDS'' 2]) ''EXPECTED_GOLD_RECORDS'' = Some 2"
    "parse_usize_const (unlines [const_line ''IN_SCOPE_TOTAL'' 1]) ''IN_SCOPE_TOTAL'' = Some 1"
    using const_lines [of _ "[]"] const_lines [OF others(1)] words by simp_all
  moreover define scope where
    "scope = unlines [const_line ''IN_SCOPE_ARM_A'' 1, const_line ''IN_SCOPE_ARM_C'' 0, const_line ''IN_SCOPE_TOTAL'' 1]"
  have "parse_usize_const scope ''IN_SCOPE_ARM_A'' = Some 1" "parse_usize_const scope ''IN_SCOPE_ARM_C'' = Some 0"
    "parse_usize_const scope ''IN_SCOPE_TOTAL'' = Some 1"
    using const_lines [of "''IN_SCOPE_ARM_A''" "[]"] const_lines [OF others(2)] const_lines [OF others(3)] words
    by (simp_all add: scope_def)
  moreover have "length (filter (\<lambda>l. trim l \<noteq> []) (str_lines (unlines [''|A.all()->map(x|$x)'', ''|B.all()'']))) = 2"
    by code_simp
  ultimately show ?thesis
    by (simp add: count_facts_def read_usize_const_def count_corpus_records_def read_to_string_def
        green_reads [folded scope_def] usize_add_def)
qed

lemma green_citations: "citation_facts green_host tr = (Inr [], tr)"
proof -
  define corpus grammar where "corpus = unlines [''|A.all()->map(x|$x)'', ''|B.all()'']"
    and "grammar = ''Engine 4.2 (0 occurrences)''"
  define labeler cited where "labeler = ''const PINNED_ENGINE_VERSION = '' @ quoted ''4.2''" and "cited = ''`map` (1 gold)''"
  note reads = green_reads [folded corpus_def grammar_def labeler_def cited_def]
  have pin: "parse_js_str_const labeler ENGINE_PIN_CONST = Some ''4.2''" "str_contains grammar ''4.2''"
    unfolding labeler_def grammar_def by code_simp+
  have sorts: "count_corpus_occurrences green_host GOLD_CORPUS SORT_DIRECTION_LITERALS tr = (Inr 0, tr)"
  proof -
    have "sum_list (map (count_matches corpus) SORT_DIRECTION_LITERALS) = 0" unfolding corpus_def by code_simp
    then show ?thesis unfolding count_corpus_occurrences_def read_to_string_def reads by simp
  qed
  have steps: "count_corpus_records_with green_host GOLD_CORPUS MAP_STEP tr = (Inr 1, tr)"
  proof -
    have "length (filter (\<lambda>l. str_contains l MAP_STEP) (str_lines corpus)) = 1" unfolding corpus_def by code_simp
    then show ?thesis unfolding count_corpus_records_with_def read_to_string_def reads by simp
  qed
  have texts: "str_contains grammar (''('' @ decimal 0 @ '' occurrences)'')"
    "str_contains cited (''`map` ('' @ decimal 1 @ '' gold'')"
    unfolding grammar_def cited_def by code_simp+
  have "map_citations green_host 1 [OVERVIEW_DOC, DECODER_TESTING_DOC] [] tr = (Inr [], tr)"
    using texts(2) by (simp add: read_to_string_def reads)
  then show ?thesis
    using texts(1) by (simp add: citation_facts_def read_js_str_const_def read_to_string_def reads pin sorts steps)
qed

lemma green_tree: "doc_module_names green_host tr = (Inr {}, tr)"
proof -
  have "module_tree (MODULE_TREE_HEADING @ ''``` lib.txt ```'') = Some '' lib.txt ''"
    "stems_in_lines (str_lines '' lib.txt '') = Some []"
    by code_simp+
  then show ?thesis
    by (simp add: doc_module_names_def read_to_string_def green_reads module_names_in_tree_def)
qed

lemma green_docs: "check_doc_facts green_host tr = Some (Inr (), tr)"
proof -
  have dirs: "hs_dir green_host tr ''src'' = Some []" "hs_dir green_host tr ''docs'' = Some []" for tr
    by (simp_all add: green_host_def)
  have "src_module_names green_host tr = Some (Inr {})"
    using walk_dirs_snoc [of "hs_dir green_host tr" src_visit "[]" "''src''" "{}"] by (simp add: src_module_names_def dirs)
  moreover have "collect_docs green_host tr = Some (Inr [(DOC_README, ''The gold records.'')])"
  proof -
    show ?thesis
      using walk_dirs_snoc [of "hs_dir green_host tr" "doc_visit green_host tr" "[]" "''docs''" "[(DOC_README, ''The gold records.'')]"]
      by (simp add: collect_docs_def green_reads dirs DOC_DIR_def)
  qed
  moreover have "module_errors {} {} = []" by (simp add: module_errors_def)
  moreover have "allowlist_errors [(DOC_README, ''The gold records.'')] = []" "ratio_errors 2 [(DOC_README, ''The gold records.'')] = []"
    by code_simp+
  ultimately show ?thesis by (simp add: check_doc_facts_def and_walk_def green_counts green_citations green_tree)
qed

theorem ci_fail_fast_witness:
  "\<exists>r. ci green_host [] = Some r \<and> task_ok r \<and> snd r = map Ran CI_PLAN \<and> set (required_crates green_manifest) \<subseteq> set CORE_DEP_ALLOWLIST"
proof -
  have ok: "succeeds green_host tr c" for tr c by (simp add: succeeds_def green_host_def)
  then have all: "all_succeed green_host tr cs" for tr cs by (induction cs arbitrary: tr) simp_all
  have printed: "list_all table_ok green_manifest" by code_simp
  have "core_passes green_host tr" for tr
  proof -
    have "core_dependency_entries (manifest_text green_manifest) = Some [''serde'']" by code_simp
    moreover have "set [''serde''] \<subseteq> set CORE_DEP_ALLOWLIST" by (simp add: CORE_DEP_ALLOWLIST_def)
    moreover have "utf8_valid ''src/lib.rs''" "str_lines ''src/lib.rs'' = [''src/lib.rs'']" "trim ''src/lib.rs'' = ''src/lib.rs''"
      by code_simp+
    ultimately show ?thesis using green_reads(1) [of tr] by (auto simp: core_passes_def) (simp add: green_host_def)
  qed
  then show ?thesis
    using ci_fail_fast [where h = green_host and tr = "[]"] all green_docs green_reads(1) printed
    by (cases "ci green_host []") (auto simp: Let_def)
qed

section \<open>Scaffolding\<close>

text \<open>What a new specification holds: its heading with the name and the date, then the template.\<close>

definition spec_heading :: "bytes \<Rightarrow> bytes \<Rightarrow> bytes" where
  "spec_heading name date = unlines [''# Spec: '' @ name, [], ''- Status: draft'', ''- Created: '' @ date]"

definition spec_sections :: bytes where
  "spec_sections = drop (length (spec_heading ''{name}'' ''{date}'')) SPEC_TEMPLATE"

lemma str_replace_hit:
  "str_find s pat = Some i \<Longrightarrow> pat \<noteq> [] \<Longrightarrow> str_replace s pat to = take i s @ to @ str_replace (drop (i + length pat) s) pat to"
  by (subst str_replace.simps) simp

lemma str_replace_miss: "str_find s pat = None \<Longrightarrow> str_replace s pat to = s"
  by (subst str_replace.simps) simp

lemma render_spec_text:
  assumes "\<not> sublist ''{date}'' name"
  shows "render_spec name date = spec_heading name date @ spec_sections"
proof -
  define lead rest where "lead = ''# Spec: ''" and "rest = drop 15 SPEC_TEMPLATE"
  define mid where "mid = LF # ''- Status: draft'' @ LF # ''- Created: ''"
  have template: "SPEC_TEMPLATE = lead @ ''{name}'' @ LF # rest" "str_find (LF # rest) ''{name}'' = None"
    and dated: "rest = mid @ ''{date}'' @ LF # spec_sections"
    and find: "str_find SPEC_TEMPLATE ''{name}'' = Some (length lead)" "str_find rest ''{date}'' = Some (length mid)"
      "str_find (LF # spec_sections) ''{date}'' = None"
    unfolding rest_def lead_def mid_def by code_simp+
  have named: "str_replace SPEC_TEMPLATE ''{name}'' name = (lead @ name) @ LF # rest"
    using str_replace_hit [OF find(1), of name] str_replace_miss [OF template(2)]
    by (simp add: template(1) del: str_find.simps)
  have "\<not> str_contains (lead @ name) ''{date}''"
    using assms by (simp add: str_contains_iff sublist_Cons_right lead_def)
  then have "str_find ((lead @ name) @ LF # rest) ''{date}'' = Some (Suc (length (lead @ name)) + length mid)"
    using str_find_sep [OF not_sublist_sep [of "lead @ name" "''{date}''" LF], of rest] find(2) by simp
  from str_replace_hit [OF this, of date] show ?thesis
    unfolding render_spec_def named
    using str_replace_miss [OF find(3), of date]
    by (simp add: dated) (simp add: spec_heading_def unlines_def lead_def mid_def)
qed

text \<open>The calendar's date of the day the clock is in, as year, month and day.\<close>

definition clock_date :: "u64 option \<Rightarrow> bytes" where
  "clock_date clock =
    (case (next_day ^^ ((case clock of Some s \<Rightarrow> unat s | None \<Rightarrow> 0) div 86400)) (1970, 1, 1) of
      (y, m, d) \<Rightarrow> show_padded 4 y @ ''-'' @ show_padded 2 m @ ''-'' @ show_padded 2 d)"

text \<open>C28: The scaffold of a specification succeeds exactly when the name is not empty and holds neither a path
  separator nor two dots in a row, no specification of that name exists, the directory \<open>specs\<close> can be made and
  the file can be written; every failure is the error of its cause, and none is a panic.  A rejected name and
  an existing specification change nothing; otherwise the events are the creation of \<open>specs\<close>, and, when it
  succeeds, one write of \<open>specs/<name>.md\<close>: the heading with the name and with the calendar's date of the
  clock's day, then the rest of the template.  The name must not contain the text \<open>{date}\<close>.\<close>

theorem spec_outcomes:
  assumes "\<not> sublist ''{date}'' name"
    and "out = ''specs/'' @ name @ ''.md''" and "contents = spec_heading name (clock_date (hs_clock h)) @ spec_sections"
    and "made = tr @ [Made_Dir ''specs'']" and "wrote = made @ [Wrote out contents]"
  shows "spec h name tr =
    (if name = [] then (Inl (Usage ''spec''), tr)
     else if CHR ''/'' \<in> set name \<or> BACKSLASH \<in> set name \<or> sublist ''..'' name then (Inl Bad_Name, tr)
     else if hs_exists h tr out then (Inl (Spec_Exists out), tr)
     else if \<not> hs_mkdir h tr ''specs'' then (Inl (Mkdir_Failed ''specs''), made)
     else if \<not> hs_write h made out contents then (Inl (Write_Failed out), wrote)
     else (Inr (), wrote))"
proof -
  have day: "today_utc_ymd (hs_clock h) = Some (clock_date (hs_clock h))"
    by (simp add: clock_date_def today_is_the_day_of_the_clock)
  have checked: "validate_name name ''spec'' =
      (if name = [] then Inl (Usage ''spec'')
       else if CHR ''/'' \<in> set name \<or> BACKSLASH \<in> set name \<or> sublist ''..'' name then Inl Bad_Name else Inr ())"
    by (auto simp: validate_name_def list_ex_iff str_contains_iff)
  show ?thesis
    unfolding spec_def checked Let_def day
    using render_spec_text [OF assms(1), of "clock_date (hs_clock h)"]
    by (auto simp: assms(2-5) create_dir_all_def write_file_def)
qed

text \<open>A host that can write everything, on the first of March 1970.\<close>

theorem spec_outcomes_witness:
  "spec (bare_host\<lparr>hs_clock := Some 5097600, hs_mkdir := \<lambda>_ _. True, hs_write := \<lambda>_ _ _. True\<rparr>) ''l2'' [] =
    (Inr (), [Made_Dir ''specs'', Wrote ''specs/l2.md''
      (unlines [''# Spec: l2'', [], ''- Status: draft'', ''- Created: 1970-03-01''] @ spec_sections)])"
proof -
  let ?h = "bare_host\<lparr>hs_clock := Some 5097600, hs_mkdir := \<lambda>_ _. True, hs_write := \<lambda>_ _ _. True\<rparr>"
  have "(next_day ^^ 59) (1970, 1, 1) = (1970, 3, 1)" by code_simp
  moreover have "show_padded 4 1970 = ''1970''" "show_padded 2 3 = ''03''" "show_padded 2 1 = ''01''" by code_simp+
  ultimately have date: "clock_date (Some 5097600) = ''1970-03-01''" by (simp add: clock_date_def)
  have free: "\<not> sublist ''{date}'' ''l2''" by (simp add: sublist_Cons_right)
  have "\<not> sublist ''..'' ''l2''" by (simp add: sublist_Cons_right)
  then show ?thesis
    using spec_outcomes [OF free refl refl refl refl, of ?h "[]"] date
    by (simp add: spec_heading_def bare_host_def)
qed

end
