(* ===== verification/Custom_Lint.thy ===== *)
theory Custom_Lint
  imports Prelude
begin

text \<open>
  The lint of \<open>src/lints/src/lib.rs\<close>, which rejects \<open>.unwrap()\<close> and \<open>.expect(..)\<close> outside of tests.
  What the compiler answers about an expression (whether it is a method call and of which name,
  whether it is in a test, where it stands) is a parameter, and so is the order in which the
  compiler visits the expressions of a crate.
\<close>

section \<open>The pass\<close>

text \<open>\<open>method_call\<close> is the name of the path segment of an \<open>ExprKind::MethodCall\<close>, and \<^term>\<open>None\<close> for an
  expression of any other kind; a call by path, as in \<open>Option::unwrap(x)\<close>, is of another kind and
  passes the lint.\<close>

record ('x, 'p) late_context =
  method_call :: "'x \<Rightarrow> string option"
  is_in_test :: "'x \<Rightarrow> bool"
  span_of :: "'x \<Rightarrow> 'p"

record 'p diagnostic =
  dg_span :: 'p
  dg_message :: string
  dg_help :: string

definition unwrap_message :: "string \<Rightarrow> string" where
  "unwrap_message name = ''use of `.'' @ name @ ''()` in non-test code''"

definition check_expr :: "('x, 'p) late_context \<Rightarrow> 'x \<Rightarrow> 'p diagnostic option" where
  "check_expr cx expr =
    (case method_call cx expr of
       None \<Rightarrow> None
     | Some name \<Rightarrow>
         if name \<noteq> ''unwrap'' \<and> name \<noteq> ''expect'' then None
         else if is_in_test cx expr then None
         else Some \<lparr>dg_span = span_of cx expr, dg_message = unwrap_message name,
                    dg_help = ''propagate the error with `?` or handle it explicitly instead of panicking''\<rparr>)"

section \<open>What a run over a crate reports\<close>

lemma check_expr_Some:
  "check_expr cx expr = Some d \<longleftrightarrow>
    (\<exists>name. method_call cx expr = Some name \<and> name \<in> {''unwrap'', ''expect''} \<and> \<not> is_in_test cx expr \<and>
      d = \<lparr>dg_span = span_of cx expr, dg_message = unwrap_message name,
           dg_help = ''propagate the error with `?` or handle it explicitly instead of panicking''\<rparr>)"
  by (auto simp: check_expr_def split: option.splits)

text \<open>The run is silent exactly when each call of one of the two methods is in a test, in whichever
  order the compiler visits the expressions.\<close>

lemma lint_silent_iff:
  "List.map_filter (check_expr cx) exprs = [] \<longleftrightarrow>
    (\<forall>expr\<in>set exprs. method_call cx expr \<in> {Some ''unwrap'', Some ''expect''} \<longrightarrow> is_in_test cx expr)"
  by (induction exprs) (auto simp: check_expr_def List.map_filter_simps split: option.splits)

text \<open>A diagnostic tells the offending method and its place: one at each visited call, with the
  name readable from the message.\<close>

lemma unwrap_message_inj: "unwrap_message m = unwrap_message n \<longleftrightarrow> m = n"
  by (simp add: unwrap_message_def)

lemma lint_reports:
  "d \<in> set (List.map_filter (check_expr cx) exprs) \<longleftrightarrow>
    (\<exists>expr\<in>set exprs. check_expr cx expr = Some d)"
  by (force simp: List.map_filter_def)

lemma lint_names_method:
  assumes "d \<in> set (List.map_filter (check_expr cx) exprs)" and "dg_message d = unwrap_message name"
  shows "\<exists>expr\<in>set exprs. method_call cx expr = Some name \<and> \<not> is_in_test cx expr \<and> dg_span d = span_of cx expr"
  using assms by (auto simp: lint_reports check_expr_Some unwrap_message_inj)

end
