(* ===== verification/Spec2Isabelle.thy ===== *)
theory Spec2Isabelle
  imports Schema_Guidance Session_Histories Self_Check Python_Boundary Guarantee Task_Props Custom_Lint
begin

text \<open>
  A verification development for purecard, a constrained decoder: while a language model emits
  tokens, it computes before each step the set of vocabulary tokens that keep the output on a path
  to a valid query of a subset of the Legend Pure language, and, under a database schema, on a
  path to a query whose names exist in the schema.

  \<^bold>\<open>The program and its theories.\<close>  The sources are under \<open>src/src\<close>; the theories follow the order in
  which the code depends on its parts.

  \<^item> \<open>Prelude\<close>: Rust's \<open>u8\<close>, \<open>u32\<close>, \<open>u64\<close>, \<open>usize\<close>, vectors, slices and byte classes.
  \<^item> \<open>Interfaces\<close>: the contracts between components as locales: \<open>token_set\<close> (the mask), \<open>lazy_table\<close>
    (the grammar's cache), \<open>byte_recognizer\<close> (the trait of \<open>recognizer.rs\<close>).  \<open>Byte_Trie\<close> adds
    \<open>name_index\<close>, \<open>Task_Host\<close> adds \<open>command_runner\<close>.  Each is interpreted on the model in the theory of
    its provider.
  \<^item> \<open>Pda\<close>, \<open>Pda_Props\<close>: the byte automaton of \<open>grammar/pda.rs\<close>.  The arms of the function \<open>step\<close> are
    one definition each (\<open>step_<State>\<close>), the driver is \<open>advance\<close>, the two scratch-stack loops are
    \<open>admits\<close> and \<open>probe\<close>.  Lemmas: the fold over a byte string (\<open>cfg_run\<close>, \<open>feed\<close>), the reachable
    configurations and their invariant, completability, balance.
  \<^item> \<open>Bit_Mask\<close> (\<open>mask.rs\<close>), \<open>Vocabulary\<close> (\<open>vocab.rs\<close>), \<open>Compiled_Grammar\<close> (\<open>grammar/compiled.rs\<close>): the
    token mask on 64-bit words, the token table and the per-state partition of the vocabulary,
    computed on first use.
  \<^item> \<open>Byte_Trie\<close> (\<open>schema/trie.rs\<close>), \<open>Schema_Model\<close> (\<open>schema/model.rs\<close>): the arena trie with sorted edges,
    and the schema with its two traversals of a possibly cyclic super-type graph.
  \<^item> \<open>Scope_Tracker\<close>, \<open>Scope_Props\<close>, \<open>Scope_Typing\<close>, \<open>Scope_Columns\<close> (\<open>schema/scope.rs\<close>): the scope machine that reads the committed
    tokens lexeme by lexeme, however byte-pair encoding cuts them; its bookkeeping, the classes it
    gives to variables and navigations, the columns it collects and where it asks for them.
  \<^item> \<open>Narrowing\<close> (\<open>schema/narrow.rs\<close>): the schema rules and their memo.
  \<^item> \<open>Decode_Session\<close>, \<open>Session_Props\<close> (\<open>session.rs\<close>, \<open>error.rs\<close>): the session that ties the parts
    together.
  \<^item> \<open>Schema_Guidance\<close>, \<open>Session_Histories\<close>: what the composition gives: narrowing at a navigation dot
    through the whole decoder, and every order of calls on a session as a step relation.
  \<^item> \<open>Self_Check\<close> (\<open>selfcheck.rs\<close>), \<open>Python_Boundary\<close> (\<open>ffi.rs\<close>), \<open>Guarantee\<close> (\<open>lib.rs\<close>, \<open>grammar/mod.rs\<close>):
    the parts built on the session.
  \<^item> The build tasks under \<open>src/xtask/src\<close>: \<open>Rust_Text\<close> has the operations of \<open>str\<close> they and the
    boundary use; \<open>Task_Host\<close> (\<open>process.rs\<close>) the surroundings as a record of answers, the events a task
    causes and its errors; \<open>Manifest_Gate\<close>, \<open>Release_Overrides\<close>, \<open>Civil_Date\<close> and \<open>Doc_Facts\<close> the scans of manifests, the calendar
    and the scans of sources and documents in \<open>tasks.rs\<close>; \<open>Tasks\<close> the subcommands and their dispatch
    (\<open>main.rs\<close>); \<open>Task_Props\<close> what they guarantee.
  \<^item> \<open>Custom_Lint\<close> (\<open>src/lints/src/lib.rs\<close>): the check of one expression, over what the compiler answers
    about it.

  \<^bold>\<open>Modelling decisions.\<close>  A byte is a \<^typ>\<open>char\<close>, a string the list of its UTF-8 bytes, a \<open>Vec\<close> a list in
  index order, an error a value on the left of a sum, returned together with the state.  The interior
  mutability of the grammar's \<open>OnceCell\<close> cells is threaded: an operation that may fill the cache
  takes and returns the grammar.  Machine integers keep their width where the code stores them:
  token ids and trie nodes have 32 bits, mask words 64; the scope depth wraps at 32 bits, which the
  property about it excludes by a bound on the stream.  A \<open>HashMap\<close> that the code only looks up is a
  partial map, one it iterates an association list.  \<open>serde_json\<close> is a parameter of \<open>from_json\<close>.
  A panic (an overflow of \<open>i64\<close> or \<open>usize\<close>, a slice inside a character) is the value \<^term>\<open>None\<close> of the
  scan that can panic, or the error \<open>Panicked\<close> of the task.  Commands, files, directories, the clock
  and the JSON parser of the build tasks are fields of the record \<open>host\<close>, each of which answers from
  the events so far; no law is assumed of them.

  \<^bold>\<open>What is shown.\<close>  For the automaton: every live stream can be completed, accepted queries are
  balanced, a verdict that did not consult the enclosing stack holds under every stack.  For the mask
  and the cache: exact membership, a lossless packing, a cache whose history cannot be observed.  For
  the schema part: the trie decides reachability of a legal name, however the name is cut into
  tokens; lambda scopes are restored; an untyped lambda variable has the class of its receiver (one with a type is not bound) and
  a navigation follows the schema, but leaves its class behind for unrelated dots; every string literal of the text is recorded as a column, however the text is cut, and nothing but
  literals and identifiers of the text is; a string operand stands for a column exactly inside the calls that
  refer to columns, unless a method's name is used for something else; cutting inside a lexeme does not
  matter, cutting inside an operator does, and a column set whose tilde and bracket share a token is lost; the memo of the rules
  cannot be observed.  For the session: the mask is exact, a
  host that samples from it produces exactly the automaton's language, a schema only removes tokens,
  rejections change nothing, a reset session is a fresh one, every order of calls leaves a usable
  session, at a navigation dot an identifier can be sampled exactly when it begins a legal name
  (though it may end before the name does), and no tokenization of a legal name is ever masked where
  the position asks for one.  For the self-check: it passes exactly
  when every sample is a query the greedy chop covers, and its errors say why.  For the build tasks:
  the dependency scan is exact on every plainly printed manifest, and evaded by some that are not; the overrides
  of a plainly printed release configuration are found; the calendar
  agrees with counting days; the pipeline is fail-fast, and green exactly behind all its commands and both gates; the Legend
  stack is always torn down; a scaffold writes one file with the name and the date, and every failure is the error of its
  cause; constants are read back; a drawn module tree panics.

  \<^bold>\<open>Termination.\<close>  No fuel is used.  Loops over bytes are structural; the traversals of the schema
  end because a class is visited once (measure: unvisited classes), the gap and self-check loops
  because each round consumes a byte, the restoring loops because each round pops a save.  The walks
  over directories may not end; they are partial functions, and end when the directories form a tree.

  \<^bold>\<open>Not modelled.\<close>  PyO3, \<open>self_cell\<close> and reference counting; allocation and performance; the
  JSON parser; the command-line parser, the printed text and the wording of the errors of the build tasks;
  the registration of the lint with its driver, fuzz targets, benches and tests.
\<close>

end
